(* ===== verification/Prelude.thy ===== *)
theory Prelude
  imports Complex_Main "HOL-Library.Word" "HOL-Library.AList" "HOL-Library.List_Lexorder"
begin

text \<open>
  What the components share: JavaScript values, strings and numbers, the \<open>Map\<close> object of the
  language, and two interfaces that several components implement.

  Numbers. A finite JavaScript number is an exact rational; the rounding of double arithmetic is
  not modelled (times are whole milliseconds and counters whole numbers below 2^53, which doubles
  hold exactly). Where the code tests for \<open>NaN\<close>, infinities or another type, the argument is
  a \<open>jsval\<close> and every case is a constructor.

  Strings. A JavaScript string is a list of UTF-16 code units, \<open>jstr\<close>.
\<close>

named_theorems frame_simps \<open>an operation leaves the other components of the state alone\<close>
named_theorems store_simps \<open>reading a map after it was changed\<close>

section \<open>Values and strings\<close>

type_synonym byte = "8 word"
type_synonym jstr = "16 word list"

datatype jsnum = NaN | PosInf | NegInf | Fin rat

datatype jsval = Undefined | Null | JBool bool | JNum jsnum | JStr jstr | JObject

text \<open>The states of \<open>RTCPeerConnection.iceConnectionState\<close>.\<close>

datatype ice = IceNew | IceChecking | IceConnected | IceCompleted | IceDisconnected | IceFailed | IceClosed

fun truthy :: "jsval \<Rightarrow> bool" where
  "truthy (JBool b) = b"
| "truthy (JNum (Fin x)) = (x \<noteq> 0)"
| "truthy (JNum NaN) = False"
| "truthy (JStr s) = (s \<noteq> [])"
| "truthy Undefined = False"
| "truthy Null = False"
| "truthy _ = True"

definition js :: "string \<Rightarrow> jstr" where
  "js s = map of_char s"

text \<open>Letter case as the regular expressions with the flag \<open>i\<close> and \<open>toLowerCase\<close> treat it, on
  ASCII.\<close>

definition lower_unit :: "16 word \<Rightarrow> 16 word" where
  "lower_unit c = (if 65 \<le> unat c \<and> unat c \<le> 90 then c + 32 else c)"

definition lower :: "jstr \<Rightarrow> jstr" where
  "lower s = map lower_unit s"

definition letter :: "16 word \<Rightarrow> bool" where
  "letter c \<longleftrightarrow> 97 \<le> unat (lower_unit c) \<and> unat (lower_unit c) \<le> 122"

definition starts :: "jstr \<Rightarrow> jstr \<Rightarrow> bool" where
  "starts p s \<longleftrightarrow> take (length p) s = p"

definition jsround :: "rat \<Rightarrow> rat" where
  "jsround x = of_int \<lfloor>x + 1 / 2\<rfloor>"

lemma floor_numeral_quotient [simp]:
  "\<lfloor>(numeral a :: rat) / numeral b\<rfloor> = numeral a div numeral b"
  using floor_divide_of_int_eq [of "numeral a" "numeral b", where 'a = rat] by simp

lemma jsround_bounds: "x - 1 / 2 < jsround x" "jsround x \<le> x + 1 / 2"
  unfolding jsround_def by linarith+

lemma jsround_mono: "x \<le> y \<Longrightarrow> jsround x \<le> jsround y"
  unfolding jsround_def by (simp add: floor_mono)

lemma jsround_of_int [simp]: "jsround (of_int n) = of_int n"
proof -
  have "\<lfloor>(of_int n :: rat) + 1 / 2\<rfloor> = n" by linarith
  then show ?thesis by (simp add: jsround_def)
qed

lemma jsround_numeral [simp]: "jsround (numeral k) = numeral k"
  using jsround_of_int [of "numeral k"] by simp

section \<open>Unicode\<close>

text \<open>
  The string iterator joins a high and a low surrogate into one code point and yields a surrogate
  that stands alone as itself; \<open>TextEncoder\<close> then writes the replacement character for it.
\<close>

definition high_surrogate :: "16 word \<Rightarrow> bool" where
  "high_surrogate c \<longleftrightarrow> 0xD800 \<le> unat c \<and> unat c \<le> 0xDBFF"

definition low_surrogate :: "16 word \<Rightarrow> bool" where
  "low_surrogate c \<longleftrightarrow> 0xDC00 \<le> unat c \<and> unat c \<le> 0xDFFF"

fun codepoints :: "jstr \<Rightarrow> nat list" where
  "codepoints [] = []"
| "codepoints [c] = [unat c]"
| "codepoints (c # d # cs) =
     (if high_surrogate c \<and> low_surrogate d
      then (0x10000 + (unat c - 0xD800) * 0x400 + (unat d - 0xDC00)) # codepoints cs
      else unat c # codepoints (d # cs))"

definition scalar_value :: "nat \<Rightarrow> nat" where
  "scalar_value p = (if 0xD800 \<le> p \<and> p \<le> 0xDFFF then 0xFFFD else p)"

definition utf8_point :: "nat \<Rightarrow> byte list" where
  "utf8_point p =
     (if p < 0x80 then [of_nat p]
      else if p < 0x800 then [of_nat (0xC0 + p div 0x40), of_nat (0x80 + p mod 0x40)]
      else if p < 0x10000
      then [of_nat (0xE0 + p div 0x1000), of_nat (0x80 + p div 0x40 mod 0x40),
            of_nat (0x80 + p mod 0x40)]
      else [of_nat (0xF0 + p div 0x40000), of_nat (0x80 + p div 0x1000 mod 0x40),
            of_nat (0x80 + p div 0x40 mod 0x40), of_nat (0x80 + p mod 0x40)])"

definition utf8 :: "jstr \<Rightarrow> byte list" where
  "utf8 s = concat (map (\<lambda>p. utf8_point (scalar_value p)) (codepoints s))"

definition ascii :: "jstr \<Rightarrow> bool" where
  "ascii s \<longleftrightarrow> (\<forall>c \<in> set s. unat c < 0x80)"

lemma codepoints_ascii: "ascii s \<Longrightarrow> codepoints s = map unat s"
  by (induction s rule: codepoints.induct) (auto simp: ascii_def high_surrogate_def)

lemma utf8_ascii: "ascii s \<Longrightarrow> utf8 s = map (\<lambda>c. of_nat (unat c)) s"
proof -
  assume s: "ascii s"
  have "map (\<lambda>p. utf8_point (scalar_value p)) (map unat s) = map (\<lambda>c. [of_nat (unat c)]) s"
    using s by (auto simp: ascii_def utf8_point_def scalar_value_def)
  then show ?thesis
    by (simp add: utf8_def codepoints_ascii [OF s] concat_map_singleton del: map_map)
qed

lemma unat_byte_less: "unat (b :: byte) < 256"
  using unsigned_less [of b] by simp

lemma of_nat_byte_inject:
  assumes "of_nat m = (of_nat n :: byte)" and "m < 256" and "n < 256"
  shows "m = n"
proof -
  have "unat (of_nat m :: byte) = unat (of_nat n :: byte)" using assms(1) by simp
  then show ?thesis using assms(2,3) by (simp add: unat_of_nat)
qed

lemma utf8_ascii_inject:
  assumes "ascii s" and "ascii t" and "utf8 s = utf8 t"
  shows "s = t"
proof -
  have eq: "map (\<lambda>c. of_nat (unat c) :: byte) s = map (\<lambda>c. of_nat (unat c)) t"
    using assms by (simp add: utf8_ascii)
  have "inj_on (\<lambda>c. of_nat (unat c) :: byte) (set s \<union> set t)"
  proof (rule inj_onI)
    fix x y :: "16 word"
    assume "x \<in> set s \<union> set t" and "y \<in> set s \<union> set t"
      and e: "(of_nat (unat x) :: byte) = of_nat (unat y)"
    then have "unat x < 256" and "unat y < 256"
      using assms(1,2) by (auto simp: ascii_def)
    with e have "unat x = unat y" by (rule of_nat_byte_inject)
    then show "x = y" by (simp add: word_unat_eq_iff)
  qed
  then show ?thesis using eq by (simp add: map_inj_on)
qed

section \<open>The Map object\<close>

text \<open>
  A JavaScript \<open>Map\<close> keeps its entries in insertion order: \<open>set\<close> on a key it holds changes
  the value in place, and on a new key appends. That is an association list with distinct keys.
\<close>

type_synonym ('k, 'v) jsmap = "('k \<times> 'v) list"

abbreviation map_get :: "('k, 'v) jsmap \<Rightarrow> 'k \<Rightarrow> 'v option" where
  "map_get \<equiv> map_of"

abbreviation map_set :: "'k \<Rightarrow> 'v \<Rightarrow> ('k, 'v) jsmap \<Rightarrow> ('k, 'v) jsmap" where
  "map_set \<equiv> AList.update"

abbreviation map_delete :: "'k \<Rightarrow> ('k, 'v) jsmap \<Rightarrow> ('k, 'v) jsmap" where
  "map_delete \<equiv> AList.delete"

definition well_keyed :: "('k, 'v) jsmap \<Rightarrow> bool" where
  "well_keyed m \<longleftrightarrow> distinct (map fst m)"

text \<open>What the components rely on when they keep something per key.\<close>

locale keyed_store =
  fixes get :: "'m \<Rightarrow> 'k \<Rightarrow> 'v option"
    and put :: "'k \<Rightarrow> 'v \<Rightarrow> 'm \<Rightarrow> 'm"
    and drop :: "'k \<Rightarrow> 'm \<Rightarrow> 'm"
    and ok :: "'m \<Rightarrow> bool"
  assumes get_put: "get (put k v m) k' = (if k' = k then Some v else get m k')"
    and get_drop: "get (drop k m) k' = (if k' = k then None else get m k')"
    and ok_put: "ok m \<Longrightarrow> ok (put k v m)"
    and ok_drop: "ok m \<Longrightarrow> ok (drop k m)"
begin

lemma get_put_same [store_simps]: "get (put k v m) k = Some v"
  by (simp add: get_put)

lemma get_put_other [store_simps]: "k' \<noteq> k \<Longrightarrow> get (put k v m) k' = get m k'"
  by (simp add: get_put)

lemma get_drop_same [store_simps]: "get (drop k m) k = None"
  by (simp add: get_drop)

lemma get_drop_other [store_simps]: "k' \<noteq> k \<Longrightarrow> get (drop k m) k' = get m k'"
  by (simp add: get_drop)

lemma ok_fold_put: "ok m \<Longrightarrow> ok (fold (\<lambda>(k, v). put k v) kvs m)"
  by (induction kvs arbitrary: m) (auto intro: ok_put)

lemma get_fold_put_other:
  "k' \<notin> fst ` set kvs \<Longrightarrow> get (fold (\<lambda>(k, v). put k v) kvs m) k' = get m k'"
  by (induction kvs arbitrary: m) (auto simp: get_put)

end

interpretation js_store: keyed_store map_get map_set map_delete well_keyed
  by unfold_locales
    (auto simp: update_conv' delete_conv' well_keyed_def intro: distinct_update distinct_delete)

lemma well_keyed_Nil [simp]: "well_keyed []"
  by (simp add: well_keyed_def)

section \<open>State machines\<close>

text \<open>
  A component is a step function over its events. An invariant that every step keeps holds after
  every run; the components interpret this with their own step and invariant.
\<close>

locale machine =
  fixes step :: "'s \<Rightarrow> 'e \<Rightarrow> 's"
    and inv :: "'s \<Rightarrow> bool"
  assumes step_inv: "inv s \<Longrightarrow> inv (step s e)"
begin

lemma run_inv: "inv s \<Longrightarrow> inv (foldl step s es)"
  by (induction es arbitrary: s) (auto intro: step_inv)

lemma run_prefix_inv: "inv s \<Longrightarrow> inv (foldl step s (take n es))"
  by (rule run_inv)

end

section \<open>Monitors that watch many streams\<close>

text \<open>
  Several components keep one small state per stream and are fed polls of all streams in one
  sequence. What such a monitor says about a stream depends on that stream's polls alone.
\<close>

locale stream_monitor =
  fixes feed :: "'m \<Rightarrow> 'k \<Rightarrow> 'o \<Rightarrow> 'm \<times> 'r"
    and view :: "'m \<Rightarrow> 'k \<Rightarrow> 's"
    and one :: "'s \<Rightarrow> 'o \<Rightarrow> 's \<times> 'r"
  assumes feed_same: "view (fst (feed m k x)) k = fst (one (view m k) x)"
    and feed_other: "k' \<noteq> k \<Longrightarrow> view (fst (feed m k x)) k' = view m k'"
    and feed_result: "snd (feed m k x) = snd (one (view m k) x)"
begin

lemma feed_all_view:
  "view (foldl (\<lambda>m (k, x). fst (feed m k x)) m kxs) k =
   foldl (\<lambda>s x. fst (one s x)) (view m k) (map snd (filter (\<lambda>kx. fst kx = k) kxs))"
proof (induction kxs arbitrary: m)
  case Nil
  then show ?case by simp
next
  case (Cons kx kxs)
  obtain k1 x1 where kx: "kx = (k1, x1)" by (cases kx)
  show ?case
    by (cases "k1 = k") (simp_all add: kx Cons.IH feed_same feed_other)
qed

lemma next_result:
  "snd (feed (foldl (\<lambda>m (k, x). fst (feed m k x)) m kxs) k x) =
   snd (one (foldl (\<lambda>s x. fst (one s x)) (view m k)
              (map snd (filter (\<lambda>kx. fst kx = k) kxs))) x)"
  by (simp add: feed_result feed_all_view)

end

section \<open>Lists\<close>

lemma drop_append_suffix:
  "drop k (xs @ ys) = ys" if "k = length xs"
  using that by simp

lemma take_append_prefix:
  "take k (xs @ ys) = xs" if "k = length xs"
  using that by simp

lemma append_eq_append_length:
  assumes "xs @ us = ys @ vs" and "length xs = length ys"
  shows "xs = ys \<and> us = vs"
  using assms by simp

end
