(* ===== verification/Crypto.thy ===== *)
theory Crypto
  imports Prelude
begin

unbundle bit_operations_syntax

text \<open>
  static/e2ee-crypto.js: the byte helpers, the 48-bit counter, base64, the handshake transcript,
  the Short Authentication String, the associated data of a chat message and the frame format.

  The browser's WebCrypto is a parameter: the record \<open>webcrypto\<close> holds the operations the code
  calls. What is used of AES-GCM is named in \<open>aead_opens\<close> (what was sealed opens),
  \<open>aead_authentic\<close> (only what was sealed opens) and \<open>aead_tag\<close> (the tag is 16 bytes).
\<close>

record ('priv, 'pub, 'key) webcrypto =
  wc_import_pub :: "byte list \<Rightarrow> 'pub option"
  wc_export_pub :: "'pub \<Rightarrow> byte list"
  wc_ecdh :: "'priv \<Rightarrow> 'pub \<Rightarrow> byte list"
  wc_sha256 :: "byte list \<Rightarrow> byte list"
  wc_hkdf :: "byte list \<Rightarrow> byte list \<Rightarrow> byte list \<Rightarrow> nat \<Rightarrow> byte list"
  wc_import_aes :: "byte list \<Rightarrow> 'key"
  wc_seal :: "'key \<Rightarrow> byte list \<Rightarrow> byte list \<Rightarrow> byte list \<Rightarrow> byte list option"
  wc_open :: "'key \<Rightarrow> byte list \<Rightarrow> byte list \<Rightarrow> byte list \<Rightarrow> byte list option"
  wc_text_decode :: "byte list \<Rightarrow> jstr"

definition aead_opens :: "('priv, 'pub, 'key) webcrypto \<Rightarrow> bool" where
  "aead_opens W \<longleftrightarrow>
     (\<forall>k iv aad p c. wc_seal W k iv aad p = Some c \<longrightarrow> wc_open W k iv aad c = Some p)"

definition aead_authentic :: "('priv, 'pub, 'key) webcrypto \<Rightarrow> bool" where
  "aead_authentic W \<longleftrightarrow>
     (\<forall>k iv aad p c. wc_open W k iv aad c = Some p \<longrightarrow> wc_seal W k iv aad p = Some c)"

definition aead_tag :: "('priv, 'pub, 'key) webcrypto \<Rightarrow> bool" where
  "aead_tag W \<longleftrightarrow>
     (\<forall>k iv aad p c. wc_seal W k iv aad p = Some c \<longrightarrow> length c = length p + 16)"

section \<open>Bytes\<close>

definition concat_bytes :: "byte list list \<Rightarrow> byte list" where
  "concat_bytes arrs = concat arrs"

text \<open>The loop's accumulator \<open>d |= a[i] ^ b[i]\<close> over the common length.\<close>

fun xor_diff :: "byte list \<Rightarrow> byte list \<Rightarrow> byte \<Rightarrow> byte" where
  "xor_diff (a # as) (b # bs) d = xor_diff as bs (d OR (a XOR b))"
| "xor_diff _ _ d = d"

definition bytesEqual :: "byte list \<Rightarrow> byte list \<Rightarrow> bool" where
  "bytesEqual a b = (if length a \<noteq> length b then False else xor_diff a b 0 = 0)"

lemma or_eq_0_word: "(x :: byte) OR y = 0 \<longleftrightarrow> x = 0 \<and> y = 0"
  by (auto simp: bit_eq_iff bit_simps)

lemma xor_eq_0_word: "(x :: byte) XOR y = 0 \<longleftrightarrow> x = y"
  by (auto simp: bit_eq_iff bit_simps)

lemma xor_diff_eq_0:
  "length a = length b \<Longrightarrow> xor_diff a b d = 0 \<longleftrightarrow> d = 0 \<and> a = b"
  by (induction a b d rule: xor_diff.induct) (auto simp: or_eq_0_word xor_eq_0_word)

lemma bytesEqual_iff: "bytesEqual a b \<longleftrightarrow> a = b"
  by (auto simp: bytesEqual_def xor_diff_eq_0)

section \<open>The 48-bit counter\<close>

text \<open>
  \<open>n >>> k\<close> and \<open>x & 0xff\<close> work on the low 32 bits of their operand; the two top bytes are
  reached by division first. A store into a \<open>Uint8Array\<close> keeps the low 8 bits.
\<close>

definition to_uint32 :: "nat \<Rightarrow> 32 word" where
  "to_uint32 n = of_nat n"

definition writeUint48 :: "nat \<Rightarrow> byte list" where
  "writeUint48 n =
     [ucast (to_uint32 (n div 0x10000000000) AND 0xFF),
      ucast (to_uint32 (n div 0x100000000) AND 0xFF),
      ucast (drop_bit 24 (to_uint32 n) AND 0xFF),
      ucast (drop_bit 16 (to_uint32 n) AND 0xFF),
      ucast (drop_bit 8 (to_uint32 n) AND 0xFF),
      ucast (to_uint32 n AND 0xFF)]"

definition readUint48 :: "byte list \<Rightarrow> nat" where
  "readUint48 b =
     unat (b ! 0) * 0x10000000000 + unat (b ! 1) * 0x100000000 + unat (b ! 2) * 0x1000000 +
     unat (b ! 3) * 0x10000 + unat (b ! 4) * 0x100 + unat (b ! 5)"

lemma ucast_low_byte: "(ucast (x AND 0xFF :: 32 word) :: byte) = ucast x"
proof -
  have "(0xFF :: 32 word) = mask 8" by (simp add: mask_eq_exp_minus_1)
  then show ?thesis by (auto simp: bit_eq_iff bit_simps)
qed

lemma unat_low_byte: "unat (ucast (x AND 0xFF :: 32 word) :: byte) = unat x mod 256"
  by (simp add: ucast_low_byte unsigned_ucast_eq take_bit_eq_mod)

lemma unat_drop_uint32: "unat (drop_bit k (to_uint32 n)) = n mod 2 ^ 32 div 2 ^ k"
proof -
  have "unat (drop_bit k (to_uint32 n)) = drop_bit k (unat (to_uint32 n))"
    by (rule unat_drop_bit_eq)
  then show ?thesis by (simp add: drop_bit_eq_div to_uint32_def unat_of_nat)
qed

lemma unat_uint32: "unat (to_uint32 n) = n mod 2 ^ 32"
  by (simp add: to_uint32_def unat_of_nat)

lemma length_writeUint48 [simp]: "length (writeUint48 n) = 6"
  by (simp add: writeUint48_def)

lemma mod_div_mod_256:
  fixes n :: nat
  assumes "k + 8 \<le> 32"
  shows "n mod 2 ^ 32 div 2 ^ k mod 256 = n div 2 ^ k mod 256"
proof -
  have "take_bit 8 (drop_bit k (take_bit 32 n)) = take_bit 8 (drop_bit k n)"
    using assms by (auto simp: bit_eq_iff bit_simps)
  then have "n mod 2 ^ 32 div 2 ^ k mod 2 ^ 8 = n div 2 ^ k mod 2 ^ 8"
    by (simp only: take_bit_eq_mod drop_bit_eq_div)
  then show ?thesis by simp
qed

lemma writeUint48_bytes:
  "map unat (writeUint48 n) =
     [n div 2 ^ 40 mod 256, n div 2 ^ 32 mod 256, n div 2 ^ 24 mod 256, n div 2 ^ 16 mod 256,
      n div 2 ^ 8 mod 256, n mod 256]"
proof -
  have low: "m mod 2 ^ 32 mod 256 = m mod 256" for m :: nat
    using mod_div_mod_256 [of 0 m] by simp
  show ?thesis
    using mod_div_mod_256 [of 24 n] mod_div_mod_256 [of 16 n] mod_div_mod_256 [of 8 n]
      low [of n] low [of "n div 2 ^ 40"] low [of "n div 2 ^ 32"]
    by (simp add: writeUint48_def unat_low_byte unat_drop_uint32 unat_uint32)
qed

lemma base256_digits:
  fixes n :: nat
  assumes "n < 2 ^ 48"
  shows "n div 2 ^ 40 mod 256 * 0x10000000000 + n div 2 ^ 32 mod 256 * 0x100000000 +
    n div 2 ^ 24 mod 256 * 0x1000000 + n div 2 ^ 16 mod 256 * 0x10000 +
    n div 2 ^ 8 mod 256 * 0x100 + n mod 256 = n"
proof -
  define a where "a k = n div 2 ^ (8 * k)" for k
  have step: "a k = a (k + 1) * 256 + a k mod 256" for k
  proof -
    have "a (k + 1) = a k div 256"
      by (simp add: a_def power_add mult.commute flip: div_mult2_eq)
    then show ?thesis by (simp add: div_mult_mod_eq)
  qed
  have "a 6 = 0" using assms by (simp add: a_def)
  moreover have "n = a 0" by (simp add: a_def)
  moreover have "a 0 = a 1 * 256 + a 0 mod 256" "a 1 = a 2 * 256 + a 1 mod 256"
    "a 2 = a 3 * 256 + a 2 mod 256" "a 3 = a 4 * 256 + a 3 mod 256"
    "a 4 = a 5 * 256 + a 4 mod 256" "a 5 = a 6 * 256 + a 5 mod 256"
    using step [of 0] step [of 1] step [of 2] step [of 3] step [of 4] step [of 5]
    by (simp_all del: One_nat_def add: one_add_one)
  ultimately have "a 5 mod 256 * 0x10000000000 + a 4 mod 256 * 0x100000000 +
    a 3 mod 256 * 0x1000000 + a 2 mod 256 * 0x10000 + a 1 mod 256 * 0x100 + a 0 mod 256 = n"
    by linarith
  then show ?thesis by (simp add: a_def)
qed

lemma readUint48_writeUint48:
  assumes "n < 2 ^ 48"
  shows "readUint48 (writeUint48 n) = n"
proof -
  let ?b = "writeUint48 n"
  have nth: "unat (?b ! i) = map unat ?b ! i" if "i < 6" for i
    using that by simp
  show ?thesis
    using base256_digits [OF assms]
    by (simp add: readUint48_def nth writeUint48_bytes del: nth_map)
qed

lemma uint_byte_less: "uint (b :: byte) < 256"
  using uint_bounded [of b] by simp

lemma writeUint48_readUint48:
  assumes "length b = 6"
  shows "writeUint48 (readUint48 b) = b"
proof -
  obtain b0 b1 b2 b3 b4 b5 where b: "b = [b0, b1, b2, b3, b4, b5]"
    using assms by (auto simp: length_Suc_conv numeral_eq_Suc)
  define n where "n = readUint48 b"
  define h1 where "h1 = unat b0 * 256 + unat b1"
  define h2 where "h2 = h1 * 256 + unat b2"
  define h3 where "h3 = h2 * 256 + unat b3"
  define h4 where "h4 = h3 * 256 + unat b4"
  have n: "n = h4 * 256 + unat b5"
    by (simp add: n_def b readUint48_def h1_def h2_def h3_def h4_def)
  have split: "(x * 256 + unat c) div 256 = x" "(x * 256 + unat c) mod 256 = unat c"
    for x :: nat and c :: byte
    using unat_byte_less [of c] by simp_all
  have horner: "n div 256 = h4" "n mod 256 = unat b5" "h4 div 256 = h3" "h4 mod 256 = unat b4"
    "h3 div 256 = h2" "h3 mod 256 = unat b3" "h2 div 256 = h1" "h2 mod 256 = unat b2"
    "h1 div 256 = unat b0" "h1 mod 256 = unat b1"
    unfolding n h4_def h3_def h2_def h1_def by (rule split)+
  have divs: "n div 2 ^ 8 = n div 256" "n div 2 ^ 16 = n div 256 div 256"
    "n div 2 ^ 24 = n div 256 div 256 div 256" "n div 2 ^ 32 = n div 256 div 256 div 256 div 256"
    "n div 2 ^ 40 = n div 256 div 256 div 256 div 256 div 256"
    by (simp_all flip: div_mult2_eq)
  have "map unat (writeUint48 n) = map unat b"
    unfolding writeUint48_bytes divs by (simp add: horner unat_byte_less b)
  then have "writeUint48 n = b"
    by (rule map_injective) (simp add: inj_def word_unat_eq_iff)
  then show ?thesis by (simp add: n_def)
qed

section \<open>Length prefixes\<close>

definition lengthPrefixed :: "byte list \<Rightarrow> byte list" where
  "lengthPrefixed u =
     concat_bytes [[ucast (drop_bit 8 (to_uint32 (length u))),
                    ucast (to_uint32 (length u) AND 0xFF)], u]"

lemma lengthPrefixed_bytes:
  "lengthPrefixed u = of_nat (length u div 256) # of_nat (length u) # u"
  if "length u < 65536"
proof -
  have "unat (ucast (drop_bit 8 (to_uint32 (length u))) :: byte) = length u div 256"
    using that by (simp add: unsigned_ucast_eq unat_drop_uint32 take_bit_eq_mod)
  moreover have "unat (ucast (to_uint32 (length u) AND 0xFF) :: byte) = length u mod 256"
    using that by (simp add: unat_low_byte unat_uint32)
  ultimately show ?thesis
    using that by (simp add: lengthPrefixed_def concat_bytes_def word_unat_eq_iff unat_of_nat)
qed

text \<open>A field shorter than 64 KiB can be read back from the front of what follows it.\<close>

lemma lengthPrefixed_inject:
  assumes "lengthPrefixed u @ us = lengthPrefixed v @ vs"
    and "length u < 65536" and "length v < 65536"
  shows "u = v \<and> us = vs"
proof -
  have "of_nat (length u div 256) = (of_nat (length v div 256) :: byte)"
    and "of_nat (length u) = (of_nat (length v) :: byte)" and tails: "u @ us = v @ vs"
    using assms by (simp_all add: lengthPrefixed_bytes)
  then have "unat (of_nat (length u div 256) :: byte) = unat (of_nat (length v div 256) :: byte)"
    and "unat (of_nat (length u) :: byte) = unat (of_nat (length v) :: byte)"
    by simp_all
  then have "length u div 256 = length v div 256" and "length u mod 256 = length v mod 256"
    using assms(2,3) by (simp_all add: unat_of_nat)
  then have "length u = length v" by (metis div_mult_mod_eq)
  with tails show ?thesis by simp
qed

definition short :: "byte list \<Rightarrow> bool" where
  "short u \<longleftrightarrow> length u < 65536"

text \<open>A sequence of such fields followed by anything is read back field by field.\<close>

lemma fields_inject:
  assumes "length us = length vs"
    and "concat (map lengthPrefixed us) @ xs = concat (map lengthPrefixed vs) @ ys"
    and "list_all short us" and "list_all short vs"
  shows "us = vs \<and> xs = ys"
  using assms
proof (induction us vs rule: list_induct2)
  case Nil
  then show ?case by simp
next
  case (Cons u us v vs)
  have "u = v \<and> concat (map lengthPrefixed us) @ xs = concat (map lengthPrefixed vs) @ ys"
    by (rule lengthPrefixed_inject) (use Cons.prems in \<open>simp_all add: short_def\<close>)
  with Cons show ?case by simp
qed

section \<open>Base64\<close>

text \<open>
  \<open>btoa\<close> and \<open>atob\<close> as the platform defines them: RFC 4648 with padding one way, and the
  forgiving decoder the other way (white space dropped, up to two \<open>=\<close> taken off a text whose
  length is a multiple of four, leftover bits discarded, anything else an exception).
\<close>

fun sextets :: "byte list \<Rightarrow> nat list" where
  "sextets [] = []"
| "sextets [a] = [unat a div 4, unat a mod 4 * 16]"
| "sextets [a, b] = [unat a div 4, unat a mod 4 * 16 + unat b div 16, unat b mod 16 * 4]"
| "sextets (a # b # c # r) =
     [unat a div 4, unat a mod 4 * 16 + unat b div 16, unat b mod 16 * 4 + unat c div 64,
      unat c mod 64] @ sextets r"

fun octets :: "nat list \<Rightarrow> byte list" where
  "octets (w # x # y # z # r) =
     [of_nat (w * 4 + x div 16), of_nat (x mod 16 * 16 + y div 4), of_nat (y mod 4 * 64 + z)] @
     octets r"
| "octets [w, x, y] = [of_nat (w * 4 + x div 16), of_nat (x mod 16 * 16 + y div 4)]"
| "octets [w, x] = [of_nat (w * 4 + x div 16)]"
| "octets _ = []"

definition b64_char :: "nat \<Rightarrow> 16 word" where
  "b64_char n =
     (if n < 26 then of_nat (65 + n) else if n < 52 then of_nat (71 + n)
      else if n < 62 then of_nat (n - 4) else if n = 62 then 43 else 47)"

definition b64_value :: "16 word \<Rightarrow> nat option" where
  "b64_value c =
     (let u = unat c in
      if 65 \<le> u \<and> u \<le> 90 then Some (u - 65) else if 97 \<le> u \<and> u \<le> 122 then Some (u - 71)
      else if 48 \<le> u \<and> u \<le> 57 then Some (u + 4) else if u = 43 then Some 62
      else if u = 47 then Some 63 else None)"

definition b64_space :: "16 word \<Rightarrow> bool" where
  "b64_space c \<longleftrightarrow> unat c \<in> {9, 10, 12, 13, 32}"

definition btoa :: "byte list \<Rightarrow> jstr" where
  "btoa u = map b64_char (sextets u) @ replicate ((3 - length u mod 3) mod 3) 61"

definition strip_padding :: "jstr \<Rightarrow> jstr" where
  "strip_padding s =
     (if s \<noteq> [] \<and> last s = 61
      then (let t = butlast s in if t \<noteq> [] \<and> last t = 61 then butlast t else t) else s)"

definition atob :: "jstr \<Rightarrow> byte list option" where
  "atob str =
     (let s = filter (\<lambda>c. \<not> b64_space c) str;
          s = (if length s mod 4 = 0 then strip_padding s else s);
          vs = map b64_value s
      in if length s mod 4 = 1 \<or> None \<in> set vs then None else Some (octets (map the vs)))"

definition b64 :: "byte list \<Rightarrow> jstr" where
  "b64 buf = btoa buf"

definition unb64 :: "jstr \<Rightarrow> byte list option" where
  "unb64 str = atob str"

lemma sextet_join:
  fixes x y :: nat
  assumes "y < 256"
  shows "(x mod 4 * 16 + y div 16) div 16 = x mod 4" "(x mod 4 * 16 + y div 16) mod 16 = y div 16"
    "(x mod 16 * 4 + y div 64) div 4 = x mod 16" "(x mod 16 * 4 + y div 64) mod 4 = y div 64"
    "x mod 4 * 16 + y div 16 < 64" "x mod 16 * 4 + y div 64 < 64"
proof -
  have "y div 16 < 16" "y div 64 < 4" using assms by simp_all
  then show "(x mod 4 * 16 + y div 16) div 16 = x mod 4"
    "(x mod 4 * 16 + y div 16) mod 16 = y div 16"
    "(x mod 16 * 4 + y div 64) div 4 = x mod 16" "(x mod 16 * 4 + y div 64) mod 4 = y div 64"
    by simp_all
  have "x mod 4 < 4" "x mod 16 < 16" by simp_all
  with \<open>y div 16 < 16\<close> \<open>y div 64 < 4\<close>
  show "x mod 4 * 16 + y div 16 < 64" "x mod 16 * 4 + y div 64 < 64" by linarith+
qed

lemmas byte_join = sextet_join [OF unat_byte_less]

lemma sextets_less: "n \<in> set (sextets u) \<Longrightarrow> n < 64"
proof (induction u rule: sextets.induct)
  case (2 a)
  have "unat a div 4 < 64" using unat_byte_less [of a] by simp
  with 2 show ?case by auto
next
  case (3 a b)
  have "unat a div 4 < 64" using unat_byte_less [of a] by simp
  with 3 show ?case by (auto simp: byte_join)
next
  case (4 a b c r)
  have "unat a div 4 < 64" using unat_byte_less [of a] by simp
  with 4 show ?case by (auto simp: byte_join)
qed simp

lemma octets_sextets: "octets (sextets u) = u"
proof (induction u rule: sextets.induct)
  case (2 a)
  have "unat a div 4 * 4 + unat a mod 4 * 16 div 16 = unat a" by simp
  then show ?case by (simp del: of_nat_add of_nat_mult)
next
  case (3 a b)
  have "unat b div 16 mod 16 = unat b div 16" using unat_byte_less [of b] by simp
  moreover have "unat b div 16 * 16 + unat b mod 16 = unat b" by simp
  ultimately show ?case by (simp add: byte_join del: of_nat_add of_nat_mult)
next
  case (4 a b c r)
  moreover have "unat b div 16 mod 16 = unat b div 16" "unat c div 64 mod 4 = unat c div 64"
    using unat_byte_less [of b] unat_byte_less [of c] by simp_all
  moreover have "unat b div 16 * 16 + unat b mod 16 = unat b"
    "unat c div 64 * 64 + unat c mod 64 = unat c"
    by simp_all
  ultimately show ?case by (simp add: byte_join del: of_nat_add of_nat_mult)
qed simp

lemma length_sextets: "(length (sextets u) + (3 - length u mod 3) mod 3) mod 4 = 0"
proof (induction u rule: sextets.induct)
  case (4 a b c r)
  have "(3 + length r) mod 3 = length r mod 3" by simp
  with 4 show ?case by (simp add: add.assoc)
qed simp_all

lemma unat_code_unit: "k < 65536 \<Longrightarrow> unat (of_nat k :: 16 word) = k"
  by (simp add: unat_of_nat)

lemma unat_b64_char:
  assumes "n < 64"
  shows "unat (b64_char n) =
    (if n < 26 then 65 + n else if n < 52 then 71 + n else if n < 62 then n - 4
     else if n = 62 then 43 else 47)"
  using assms unat_code_unit [of "65 + n"] unat_code_unit [of "71 + n"] unat_code_unit [of "n - 4"]
  by (simp add: b64_char_def del: of_nat_add of_nat_diff)

lemma b64_value_char: "n < 64 \<Longrightarrow> b64_value (b64_char n) = Some n"
  by (simp add: b64_value_def unat_b64_char Let_def) arith

lemma b64_char_plain:
  assumes "n < 64"
  shows "b64_char n \<noteq> 61" and "\<not> b64_space (b64_char n)"
proof -
  have "unat (b64_char n) \<notin> {9, 10, 12, 13, 32, 61}"
    using assms by (simp add: unat_b64_char) arith
  then show "b64_char n \<noteq> 61" and "\<not> b64_space (b64_char n)"
    by (auto simp: b64_space_def)
qed

lemma strip_padding_append:
  assumes "61 \<notin> set s" and "k \<le> 2"
  shows "strip_padding (s @ replicate k 61) = s"
proof -
  have l: "s = [] \<or> last s \<noteq> 61" using assms(1) by (metis last_in_set)
  have "k = 0 \<or> k = 1 \<or> k = 2" using assms(2) by auto
  then show ?thesis
    using l by (auto simp: strip_padding_def butlast_append numeral_2_eq_2)
qed

lemma padded_not_one: "(l + k) mod 4 = 0 \<Longrightarrow> k \<le> 2 \<Longrightarrow> l mod 4 \<noteq> (1::nat)"
  by presburger

lemma atob_padded:
  assumes "filter (\<lambda>c. \<not> b64_space c) s = c @ replicate k 61"
    and "length (c @ replicate k 61) mod 4 = 0" and "k \<le> 2" and "61 \<notin> set c"
    and vs: "map b64_value c = map Some ns"
  shows "atob s = Some (octets ns)"
proof -
  have "strip_padding (c @ replicate k 61) = c"
    using assms by (intro strip_padding_append)
  moreover have "length c mod 4 \<noteq> 1"
    using assms(2,3) by (intro padded_not_one) simp_all
  moreover have "None \<notin> set (map b64_value c)" and "map the (map b64_value c) = ns"
    unfolding vs by (simp_all add: comp_def)
  ultimately show ?thesis
    using assms(1,2) by (simp add: atob_def Let_def del: map_map set_map length_append)
qed

lemma unb64_b64: "unb64 (b64 u) = Some u"
proof -
  let ?k = "(3 - length u mod 3) mod 3"
  let ?c = "map b64_char (sextets u)"
  have plain: "\<forall>c \<in> set ?c. c \<noteq> 61 \<and> \<not> b64_space c"
    by (auto simp: b64_char_plain sextets_less)
  have "\<not> b64_space 61" by (simp add: b64_space_def)
  then have "filter (\<lambda>c. \<not> b64_space c) (btoa u) = ?c @ replicate ?k 61"
    unfolding btoa_def filter_append using plain by (subst filter_True) (auto simp: filter_replicate)
  moreover have "length (?c @ replicate ?k 61) mod 4 = 0"
    using length_sextets [of u] by simp
  moreover have "?k \<le> 2" by linarith
  moreover have "61 \<notin> set ?c" using plain by blast
  moreover have "map b64_value ?c = map Some (sextets u)"
    by (auto simp: b64_value_char sextets_less)
  ultimately have "atob (btoa u) = Some (octets (sextets u))"
    by (rule atob_padded)
  then show ?thesis by (simp add: unb64_def b64_def octets_sextets)
qed

section \<open>The handshake transcript\<close>

definition PROTOCOL_VERSION :: nat where
  "PROTOCOL_VERSION = 2"

record handshake =
  initiatorId :: jstr
  responderId :: jstr
  hs_commit :: "byte list"
  initiatorPub :: "byte list"
  responderPub :: "byte list"

definition commit :: "('priv, 'pub, 'key) webcrypto \<Rightarrow> byte list \<Rightarrow> byte list" where
  "commit W rawPublic = wc_sha256 W rawPublic"

text \<open>What the transcript hashes; the version in its label is the literal \<open>2\<close>.\<close>

definition transcript_bytes :: "handshake \<Rightarrow> byte list" where
  "transcript_bytes t =
     concat_bytes [utf8 (js ''sozvon-e2ee-v2''),
       lengthPrefixed (utf8 (initiatorId t)), lengthPrefixed (utf8 (responderId t)),
       lengthPrefixed (hs_commit t), lengthPrefixed (initiatorPub t),
       lengthPrefixed (responderPub t)]"

definition transcript :: "('priv, 'pub, 'key) webcrypto \<Rightarrow> handshake \<Rightarrow> byte list" where
  "transcript W t = wc_sha256 W (transcript_bytes t)"

definition field_list :: "handshake \<Rightarrow> byte list list" where
  "field_list t = [utf8 (initiatorId t), utf8 (responderId t), hs_commit t, initiatorPub t,
               responderPub t]"

definition short_fields :: "handshake \<Rightarrow> bool" where
  "short_fields t \<longleftrightarrow> list_all short (field_list t)"

definition ascii_ids :: "handshake \<Rightarrow> bool" where
  "ascii_ids t \<longleftrightarrow> ascii (initiatorId t) \<and> ascii (responderId t)"

lemma transcript_bytes_inject:
  assumes "transcript_bytes s = transcript_bytes t"
    and "short_fields s" "short_fields t" "ascii_ids s" "ascii_ids t"
  shows "s = t"
proof -
  have "concat (map lengthPrefixed (field_list s)) @ [] = concat (map lengthPrefixed (field_list t)) @ []"
    using assms(1) by (simp add: transcript_bytes_def concat_bytes_def field_list_def)
  then have "field_list s = field_list t \<and> [] = ([] :: byte list)"
    using assms(2,3) by (intro fields_inject) (simp_all add: short_fields_def field_list_def)
  then show ?thesis
    using assms(4,5) by (auto simp: field_list_def ascii_ids_def intro!: handshake.equality intro: utf8_ascii_inject)
qed

section \<open>Derived keys and the Short Authentication String\<close>

definition EMOJI :: "nat list" where
  "EMOJI =
    [0x1F600, 0x1F60E, 0x1F916, 0x1F47D, 0x1F436, 0x1F431, 0x1F98A, 0x1F43C,
     0x1F428, 0x1F42F, 0x1F981, 0x1F438, 0x1F435, 0x1F414, 0x1F427, 0x1F989,
     0x1F98B, 0x1F41D, 0x1F422, 0x1F419, 0x1F433, 0x1F42C, 0x1F41F, 0x1F335,
     0x1F332, 0x1F338, 0x1F341, 0x1F344, 0x1F347, 0x1F349, 0x1F34B, 0x1F34C,
     0x1F34E, 0x1F353, 0x1F352, 0x1F951, 0x1F33D, 0x1F955, 0x1F354, 0x1F355,
     0x1F366, 0x1F369, 0x1F36A, 0x1F382, 0x2615, 0x1F377, 0x26BD, 0x1F3C0,
     0x1F3B2, 0x1F3B8, 0x1F3BA, 0x1F3A8, 0x1F697, 0x1F680, 0x26F5, 0x23F0,
     0x1F319, 0x2B50, 0x1F525, 0x1F308, 0x26A1, 0x1F388, 0x1F381, 0x1F511]"

definition SAS_LENGTH :: nat where
  "SAS_LENGTH = 5"

definition emoji_of :: "byte \<Rightarrow> nat" where
  "emoji_of b = EMOJI ! unat (b AND 0x3F)"

definition deriveSAS :: "('priv, 'pub, 'key) webcrypto \<Rightarrow> byte list \<Rightarrow> byte list \<Rightarrow> nat list" where
  "deriveSAS W secret salt =
     (let bytes = wc_hkdf W secret salt (utf8 (js ''sas'')) SAS_LENGTH
      in map (\<lambda>i. emoji_of (bytes ! i)) [0..<SAS_LENGTH])"

definition deriveMediaKey ::
  "('priv, 'pub, 'key) webcrypto \<Rightarrow> byte list \<Rightarrow> byte list \<Rightarrow> jstr \<Rightarrow> 'key" where
  "deriveMediaKey W secret salt senderId =
     wc_import_aes W (wc_hkdf W secret salt (utf8 (js ''media|'' @ senderId)) 32)"

definition deriveChatKey ::
  "('priv, 'pub, 'key) webcrypto \<Rightarrow> byte list \<Rightarrow> byte list \<Rightarrow> jstr \<Rightarrow> 'key" where
  "deriveChatKey W secret salt senderId =
     wc_import_aes W (wc_hkdf W secret salt (utf8 (js ''chat|'' @ senderId)) 32)"

lemma length_EMOJI: "length EMOJI = 64"
  by (simp add: EMOJI_def)

lemma distinct_EMOJI: "distinct EMOJI"
  by (simp add: EMOJI_def)

lemma unat_low6: "unat (b AND 0x3F :: byte) = unat b mod 64"
proof -
  have "unat (b AND 0x3F) = unat (take_bit 6 b)"
    by (simp only: take_bit_eq_mask mask_eq_exp_minus_1) simp
  also have "\<dots> = take_bit 6 (unat b)" by (rule unsigned_take_bit_eq)
  also have "\<dots> = unat b mod 64" by (simp add: take_bit_eq_mod)
  finally show ?thesis .
qed

lemma emoji_of_eq_iff: "emoji_of a = emoji_of b \<longleftrightarrow> unat a mod 64 = unat b mod 64"
  by (simp add: emoji_of_def unat_low6 nth_eq_iff_index_eq distinct_EMOJI length_EMOJI)

lemma length_deriveSAS: "length (deriveSAS W secret salt) = SAS_LENGTH"
  by (simp add: deriveSAS_def)

section \<open>Chat messages\<close>

definition chatAAD :: "jstr \<Rightarrow> jstr \<Rightarrow> nat \<Rightarrow> jstr \<Rightarrow> byte list" where
  "chatAAD senderId recipientId sq kind =
     concat_bytes [utf8 (js ''sozvon-chat-v2''),
       lengthPrefixed (utf8 senderId), lengthPrefixed (utf8 recipientId),
       writeUint48 sq, lengthPrefixed (utf8 kind)]"

record sealed_chat =
  chat_iv :: jstr
  chat_ct :: jstr

text \<open>The 12 random bytes are an argument.\<close>

definition encryptChat ::
  "('priv, 'pub, 'key) webcrypto \<Rightarrow> byte list \<Rightarrow> 'key \<Rightarrow> jstr \<Rightarrow> byte list \<Rightarrow> sealed_chat option" where
  "encryptChat W iv key txt aad =
     map_option (\<lambda>ct. \<lparr>chat_iv = b64 iv, chat_ct = b64 ct\<rparr>) (wc_seal W key iv aad (utf8 txt))"

definition decryptChat ::
  "('priv, 'pub, 'key) webcrypto \<Rightarrow> 'key \<Rightarrow> jstr \<Rightarrow> jstr \<Rightarrow> byte list \<Rightarrow> jstr option" where
  "decryptChat W key ivB64 ctB64 aad =
     Option.bind (unb64 ivB64) (\<lambda>iv.
     Option.bind (unb64 ctB64) (\<lambda>ct.
       map_option (wc_text_decode W) (wc_open W key iv aad ct)))"

text \<open>The associated data of a chat message determines who sent it to whom, its number and its
  kind.\<close>

theorem chatAAD_inject:
  assumes eq: "chatAAD a b m k = chatAAD a' b' n k'"
    and "list_all short [utf8 a, utf8 b, utf8 k]" and "list_all short [utf8 a', utf8 b', utf8 k']"
    and "m < 2 ^ 48" "n < 2 ^ 48"
  shows "utf8 a = utf8 a' \<and> utf8 b = utf8 b' \<and> m = n \<and> utf8 k = utf8 k'"
proof -
  have "concat (map lengthPrefixed [utf8 a, utf8 b]) @ writeUint48 m @ lengthPrefixed (utf8 k) =
    concat (map lengthPrefixed [utf8 a', utf8 b']) @ writeUint48 n @ lengthPrefixed (utf8 k')"
    using eq by (simp add: chatAAD_def concat_bytes_def)
  then have "[utf8 a, utf8 b] = [utf8 a', utf8 b'] \<and>
    writeUint48 m @ lengthPrefixed (utf8 k) = writeUint48 n @ lengthPrefixed (utf8 k')"
    using assms(2,3) by (intro fields_inject) simp_all
  then have ids: "utf8 a = utf8 a'" "utf8 b = utf8 b'" and num: "writeUint48 m = writeUint48 n"
    and kind: "lengthPrefixed (utf8 k) @ [] = lengthPrefixed (utf8 k') @ []"
    by simp_all
  have "m = n" using num assms(4,5) by (metis readUint48_writeUint48)
  moreover have "utf8 k = utf8 k'"
    using lengthPrefixed_inject [OF kind] assms(2,3) by (simp add: short_def)
  ultimately show ?thesis using ids by simp
qed

lemma decryptChat_encryptChat:
  assumes "aead_opens W" and "encryptChat W iv key txt aad = Some m"
  shows "decryptChat W key (chat_iv m) (chat_ct m) aad = Some (wc_text_decode W (utf8 txt))"
  using assms by (auto simp: encryptChat_def decryptChat_def unb64_b64 aead_opens_def)

section \<open>Media frames\<close>

definition TAG_BYTES :: nat where "TAG_BYTES = 16"
definition SALT_BYTES :: nat where "SALT_BYTES = 6"
definition TRAILER_BYTES :: nat where "TRAILER_BYTES = SALT_BYTES + 6 + 1"
definition OVERHEAD :: nat where "OVERHEAD = TAG_BYTES + TRAILER_BYTES"

lemmas size_defs = TAG_BYTES_def SALT_BYTES_def TRAILER_BYTES_def OVERHEAD_def

definition clearPrefixLength :: "bool \<Rightarrow> bool \<Rightarrow> nat" where
  "clearPrefixLength isVideo isKeyFrame =
     (if \<not> isVideo then 0 else if isKeyFrame then 10 else 1)"

definition ivFromSaltCounter :: "byte list \<Rightarrow> nat \<Rightarrow> byte list" where
  "ivFromSaltCounter salt counter = salt @ writeUint48 counter"

definition encryptFrame ::
  "('priv, 'pub, 'key) webcrypto \<Rightarrow> byte list \<Rightarrow> bool \<Rightarrow> bool \<Rightarrow> 'key \<Rightarrow> byte list \<Rightarrow> nat \<Rightarrow> int \<Rightarrow>
     byte list option" where
  "encryptFrame W plain isVideo isKeyFrame key salt counter keyId =
     (let prefixLen = min (clearPrefixLength isVideo isKeyFrame) (length plain);
          header = take prefixLen plain;
          body = drop prefixLen plain;
          iv = ivFromSaltCounter salt counter
      in case wc_seal W key iv header body of
           None \<Rightarrow> None
         | Some ct \<Rightarrow>
             let trailer = salt @ writeUint48 counter @ [of_int keyId]
             in Some (concat_bytes [header, ct, trailer]))"

datatype frame_error = TooShort | NoKey nat | Malformed | NotAuthentic

definition decryptFrame ::
  "('priv, 'pub, 'key) webcrypto \<Rightarrow> byte list \<Rightarrow> bool \<Rightarrow> bool \<Rightarrow> (nat \<Rightarrow> 'key option) \<Rightarrow>
     frame_error + byte list" where
  "decryptFrame W dat isVideo isKeyFrame keyResolver =
     (if length dat < OVERHEAD then Inl TooShort
      else let n = length dat;
               salt = take (n - 7 - (n - TRAILER_BYTES)) (drop (n - TRAILER_BYTES) dat);
               counter = readUint48 (drop (n - 7) dat);
               keyId = unat (dat ! (n - 1))
           in case keyResolver keyId of
                None \<Rightarrow> Inl (NoKey keyId)
              | Some key \<Rightarrow>
                  let cipherEnd = n - TRAILER_BYTES;
                      prefixLen = min (int (clearPrefixLength isVideo isKeyFrame))
                                      (int cipherEnd - int TAG_BYTES)
                  in if prefixLen < 0 then Inl Malformed
                     else let header = take (nat prefixLen) dat;
                              ct = drop (nat prefixLen) (take cipherEnd dat);
                              iv = ivFromSaltCounter salt counter
                          in case wc_open W key iv header ct of
                               None \<Rightarrow> Inl NotAuthentic
                             | Some body \<Rightarrow> Inr (concat_bytes [header, body]))"

text \<open>The five parts of a frame, and what the decoder reads back from them.\<close>

lemma frame_parts:
  assumes "dat = header @ ct @ salt @ ctr @ [kid]"
    and "length salt = 6" and "length ctr = 6" and "n = length dat"
  shows "take (n - 7 - (n - 13)) (drop (n - 13) dat) = salt"
    and "take 6 (drop (n - 7) dat) = ctr" and "dat ! (n - 1) = kid"
    and "take (n - 13) dat = header @ ct" and "n = length header + length ct + 13"
proof -
  show n: "n = length header + length ct + 13" using assms by simp
  have a: "n - 13 = length (header @ ct)" and b: "n - 7 = length (header @ ct @ salt)"
    and c: "n - 1 = length (header @ ct @ salt @ ctr)"
    using n assms(2,3) by simp_all
  have "drop (n - 13) dat = salt @ ctr @ [kid]" unfolding a assms(1) by simp
  moreover have "n - 7 - (n - 13) = 6" using n by simp
  ultimately show "take (n - 7 - (n - 13)) (drop (n - 13) dat) = salt"
    using assms(2) by simp
  have "drop (n - 7) dat = ctr @ [kid]" unfolding b assms(1) by simp
  then show "take 6 (drop (n - 7) dat) = ctr" using assms(3) by simp
  show "dat ! (n - 1) = kid" unfolding c assms(1) by (simp add: nth_append)
  show "take (n - 13) dat = header @ ct" unfolding a assms(1) by simp
qed

lemma readUint48_take: "readUint48 (take 6 b) = readUint48 b"
  by (simp add: readUint48_def)

lemma decryptFrame_parts:
  assumes "dat = header @ ct @ salt @ ctr @ [kid]"
    and "length salt = 6" and "length ctr = 6" and "16 \<le> length ct"
    and "length header = min (clearPrefixLength isVideo isKeyFrame) (length header + length ct - 16)"
    and "keyResolver (unat kid) = Some key"
  shows "decryptFrame W dat isVideo isKeyFrame keyResolver =
    (case wc_open W key (ivFromSaltCounter salt (readUint48 ctr)) header ct of
       None \<Rightarrow> Inl NotAuthentic | Some body \<Rightarrow> Inr (header @ body))"
proof -
  define n where "n = length dat"
  note parts = frame_parts [OF assms(1-3) n_def]
  have ctr: "readUint48 (drop (n - 7) dat) = readUint48 ctr"
    using parts(2) by (metis readUint48_take)
  let ?pl = "min (int (clearPrefixLength isVideo isKeyFrame)) (int (n - 13) - 16)"
  have pl: "?pl = int (length header)"
    using parts(5) assms(4,5) by (auto simp: min_def of_nat_diff split: if_splits)
  have hd: "take (length header) dat = header"
    and ct: "drop (length header) (take (n - 13) dat) = ct"
    using parts(4) assms(1) by simp_all
  have "\<not> n < 29" using parts(5) assms(4) by simp
  then show ?thesis
    unfolding decryptFrame_def Let_def size_defs n_def [symmetric]
    using parts ctr assms(6) pl hd ct
    by (simp add: concat_bytes_def split: option.split)
qed

lemma encryptFrame_parts:
  assumes "encryptFrame W plain isVideo isKeyFrame key salt counter keyId = Some dat"
  obtains ct where
    "wc_seal W key (ivFromSaltCounter salt counter)
       (take (clearPrefixLength isVideo isKeyFrame) plain)
       (drop (clearPrefixLength isVideo isKeyFrame) plain) = Some ct"
    and "dat = take (clearPrefixLength isVideo isKeyFrame) plain @ ct @ salt @
      writeUint48 counter @ [of_int keyId]"
proof -
  have "take (min n (length plain)) plain = take n plain"
    "drop (min n (length plain)) plain = drop n plain" for n
    by (simp_all add: min_def)
  with assms show ?thesis
    by (auto simp: encryptFrame_def Let_def concat_bytes_def split: option.splits intro: that)
qed

lemma decryptFrame_encryptFrame:
  assumes "aead_opens W" and "aead_tag W"
    and enc: "encryptFrame W plain isVideo isKeyFrame key salt counter keyId = Some dat"
    and "length salt = SALT_BYTES" and "counter < 2 ^ 48" and "0 \<le> keyId" and "keyId < 256"
    and "keyResolver (nat keyId) = Some key"
  shows "decryptFrame W dat isVideo isKeyFrame keyResolver = Inr plain"
proof -
  let ?c = "clearPrefixLength isVideo isKeyFrame"
  obtain ct where seal: "wc_seal W key (ivFromSaltCounter salt counter) (take ?c plain)
      (drop ?c plain) = Some ct"
    and dat: "dat = take ?c plain @ ct @ salt @ writeUint48 counter @ [of_int keyId]"
    using enc by (rule encryptFrame_parts)
  have len: "length ct = length (drop ?c plain) + 16"
    using assms(2) seal by (simp add: aead_tag_def)
  have kid: "unat (of_int keyId :: byte) = nat keyId"
    using assms(6,7) by (simp add: unsigned_of_int take_bit_eq_mod)
  have "decryptFrame W dat isVideo isKeyFrame keyResolver =
    (case wc_open W key (ivFromSaltCounter salt (readUint48 (writeUint48 counter)))
        (take ?c plain) ct of
       None \<Rightarrow> Inl NotAuthentic | Some body \<Rightarrow> Inr (take ?c plain @ body))"
    by (rule decryptFrame_parts [OF dat])
      (use len kid assms(4,8) in \<open>auto simp: SALT_BYTES_def min_def\<close>)
  then show ?thesis
    using assms(1,5) seal by (simp add: readUint48_writeUint48 aead_opens_def)
qed

lemma split_frame:
  assumes "29 \<le> length dat" and "pl \<le> length dat - 29"
  obtains header ct salt ctr kid where "dat = header @ ct @ salt @ ctr @ [kid]"
    and "length header = pl" and "length ct = length dat - 13 - pl"
    and "length salt = 6" and "length ctr = 6"
proof
  let ?n = "length dat"
  have "drop (?n - 1) dat = [dat ! (?n - 1)]"
    using assms(1) Cons_nth_drop_Suc [of "?n - 1" dat] by simp
  moreover have "drop (?n - 7) dat = take 6 (drop (?n - 7) dat) @ drop (?n - 1) dat"
    using assms(1) append_take_drop_id [of 6 "drop (?n - 7) dat", symmetric] by simp
  moreover have "drop (?n - 13) dat = take 6 (drop (?n - 13) dat) @ drop (?n - 7) dat"
    using assms(1) append_take_drop_id [of 6 "drop (?n - 13) dat", symmetric] by simp
  moreover have "drop pl dat = take (?n - 13 - pl) (drop pl dat) @ drop (?n - 13) dat"
    using assms append_take_drop_id [of "?n - 13 - pl" "drop pl dat", symmetric] by simp
  moreover have "dat = take pl dat @ drop pl dat" by simp
  ultimately show "dat = take pl dat @ take (?n - 13 - pl) (drop pl dat) @
      take 6 (drop (?n - 13) dat) @ take 6 (drop (?n - 7) dat) @ [dat ! (?n - 1)]"
    by metis
qed (use assms in auto)

lemma decryptFrame_long:
  "decryptFrame W dat v k r = Inr p \<Longrightarrow> 29 \<le> length dat"
  by (auto simp: decryptFrame_def size_defs split: if_splits)

lemma decryptFrame_key:
  "decryptFrame W dat v k r = Inr p \<Longrightarrow> r (unat (dat ! (length dat - 1))) \<noteq> None"
  by (auto simp: decryptFrame_def Let_def split: if_splits option.splits)

lemma readUint48_less: "length b = 6 \<Longrightarrow> readUint48 b < 2 ^ 48"
  using unat_byte_less [of "b ! 0"] unat_byte_less [of "b ! 1"] unat_byte_less [of "b ! 2"]
    unat_byte_less [of "b ! 3"] unat_byte_less [of "b ! 4"] unat_byte_less [of "b ! 5"]
  by (simp add: readUint48_def)

text \<open>C14: a frame that opens is one that was sealed, prefix and trailer included: whatever
  \<open>decryptFrame\<close> accepts is the output of \<open>encryptFrame\<close> on what it returns, under the key the
  resolver gave.\<close>

theorem decryptFrame_only_sealed:
  assumes "aead_authentic W" and "aead_tag W"
    and dec: "decryptFrame W dat isVideo isKeyFrame keyResolver = Inr plain"
  shows "\<exists>key salt counter keyId. length salt = SALT_BYTES \<and> counter < 2 ^ 48 \<and> 0 \<le> keyId \<and>
    keyId < 256 \<and> keyResolver (nat keyId) = Some key \<and>
    encryptFrame W plain isVideo isKeyFrame key salt counter keyId = Some dat"
proof -
  let ?c = "clearPrefixLength isVideo isKeyFrame"
  let ?pl = "min ?c (length dat - 29)"
  have long: "29 \<le> length dat" using dec by (rule decryptFrame_long)
  have "?pl \<le> length dat - 29" by simp
  then obtain header ct salt ctr kid where dat: "dat = header @ ct @ salt @ ctr @ [kid]"
    and lens: "length header = ?pl" "length ct = length dat - 13 - ?pl" "length salt = 6"
      "length ctr = 6"
    by (rule split_frame [OF long])
  have n: "length dat = length header + length ct + 13" using dat lens(3,4) by simp
  have ct: "16 \<le> length ct" using long lens(1,2) by linarith
  have hd: "length header = min ?c (length header + length ct - 16)"
  proof -
    have "length header + length ct - 16 = length dat - 29" using n by linarith
    then show ?thesis using lens(1) by simp
  qed
  have last: "dat ! (length dat - 1) = kid"
    using frame_parts(3) [OF dat lens(3,4) refl] .
  obtain key where key: "keyResolver (unat kid) = Some key"
    using decryptFrame_key [OF dec, unfolded last] by auto
  have "decryptFrame W dat isVideo isKeyFrame keyResolver =
    (case wc_open W key (ivFromSaltCounter salt (readUint48 ctr)) header ct of
       None \<Rightarrow> Inl NotAuthentic | Some body \<Rightarrow> Inr (header @ body))"
    by (rule decryptFrame_parts [OF dat lens(3,4) ct]) (fact hd key)+
  then obtain body where
    opened: "wc_open W key (ivFromSaltCounter salt (readUint48 ctr)) header ct = Some body"
    and plain: "plain = header @ body"
    using dec by (auto split: option.splits)
  have seal: "wc_seal W key (ivFromSaltCounter salt (readUint48 ctr)) header body = Some ct"
    using assms(1) opened by (simp add: aead_authentic_def)
  then have "length ct = length body + 16" using assms(2) by (simp add: aead_tag_def)
  then have pre: "min ?c (length plain) = length header"
    using hd plain by simp
  have "encryptFrame W plain isVideo isKeyFrame key salt (readUint48 ctr) (int (unat kid)) =
    Some dat"
    using seal pre writeUint48_readUint48 [OF lens(4)]
    by (simp add: encryptFrame_def Let_def concat_bytes_def dat plain)
  moreover have "length salt = SALT_BYTES" using lens(3) by (simp add: SALT_BYTES_def)
  moreover have "0 \<le> int (unat kid)" "int (unat kid) < 256"
    "keyResolver (nat (int (unat kid))) = Some key"
    using key uint_byte_less [of kid] by simp_all
  ultimately show ?thesis
    using readUint48_less [OF lens(4)] by blast
qed

section \<open>A concrete instance\<close>

text \<open>
  Not the browser's cryptography: the smallest functions that satisfy the three laws, so that the
  theorems which assume them can be applied to concrete inputs.
\<close>

definition sample_tag :: "byte list \<Rightarrow> byte list \<Rightarrow> byte list \<Rightarrow> byte list \<Rightarrow> byte list" where
  "sample_tag k iv aad p = take 16 (k @ iv @ aad @ p @ replicate 16 0)"

definition sample_crypto :: "(byte list, byte list, byte list) webcrypto" where
  "sample_crypto =
     \<lparr>wc_import_pub = Some, wc_export_pub = (\<lambda>q. q), wc_ecdh = (\<lambda>p q. map2 (+) p q),
      wc_sha256 = (\<lambda>b. b), wc_hkdf = (\<lambda>ikm salt info n. take n (ikm @ salt @ info @ replicate n 0)),
      wc_import_aes = (\<lambda>k. k),
      wc_seal = (\<lambda>k iv aad p. Some (p @ sample_tag k iv aad p)),
      wc_open = (\<lambda>k iv aad c.
        let p = take (length c - 16) c
        in if 16 \<le> length c \<and> drop (length c - 16) c = sample_tag k iv aad p then Some p else None),
      wc_text_decode = map ucast\<rparr>"

lemma length_sample_tag [simp]: "length (sample_tag k iv aad p) = 16"
  by (simp add: sample_tag_def)

lemma sample_crypto_laws:
  "aead_opens sample_crypto" "aead_authentic sample_crypto" "aead_tag sample_crypto"
  by (auto simp: aead_opens_def aead_authentic_def aead_tag_def sample_crypto_def Let_def
      split: if_splits) (metis append_take_drop_id)

section \<open>The properties at concrete inputs\<close>

theorem decryptFrame_only_sealed_witness:
  "\<exists>dat. decryptFrame sample_crypto dat True False (\<lambda>_. Some [3]) = Inr [9, 8] \<and>
     (\<exists>key salt counter keyId. length salt = SALT_BYTES \<and> counter < 2 ^ 48 \<and> 0 \<le> keyId \<and>
        keyId < 256 \<and> Some [3] = Some key \<and>
        encryptFrame sample_crypto [9, 8] True False key salt counter keyId = Some dat)"
proof -
  obtain dat where dat: "encryptFrame sample_crypto [9, 8] True False [3] [1, 2, 3, 4, 5, 6] 7 0 =
      Some dat"
    by (simp add: encryptFrame_def sample_crypto_def Let_def)
  have "decryptFrame sample_crypto dat True False (\<lambda>_. Some [3]) = Inr [9, 8]"
    by (rule decryptFrame_encryptFrame [OF sample_crypto_laws(1,3) dat]) (simp_all add: SALT_BYTES_def)
  moreover note decryptFrame_only_sealed [OF sample_crypto_laws(2,3) this]
  ultimately show ?thesis by blast
qed

lemma ascii_sample: "ascii (js ''a'')" "ascii (js ''b'')" "ascii []"
  by (simp_all add: ascii_def js_def)

theorem chatAAD_inject_witness:
  "utf8 (js ''a'') = utf8 (js ''a'') \<and> utf8 (js ''b'') = utf8 (js ''b'') \<and> 5 = (5::nat) \<and>
   utf8 [] = utf8 []"
  by (rule chatAAD_inject [OF refl])
    (simp_all add: short_def utf8_ascii ascii_sample, simp_all add: js_def)

end
