(* ===== verification/Worker.thy ===== *)
theory Worker
  imports Crypto
begin

text \<open>
  static/e2ee-worker.js: the worker that seals and opens encoded media frames. Its state is the key
  table, the key id it seals with, whether it forwards frames in clear, the video encoders that
  want a key frame when a key arrives, and what it has already reported. One encryptor or
  decryptor is created per transform; the 6 random bytes of an encryptor's salt are an argument.
\<close>

datatype 'key wmsg =
    WKey jstr int 'key
  | WSendKeyId int
  | WClear
  | WMode bool
  | WOther

datatype operation = OpEncrypt | OpDecrypt

record 'key worker =
  wk_keys :: "(jstr, (int, 'key) jsmap) jsmap"
  wk_sendKeyId :: int
  wk_cleartext :: bool
  wk_encoders :: "nat list"
  wk_timer :: bool
  wk_reported :: "operation list"

definition worker_init :: "'key worker" where
  "worker_init = \<lparr>wk_keys = [], wk_sendKeyId = 0, wk_cleartext = False, wk_encoders = [],
     wk_timer = False, wk_reported = []\<rparr>"

definition getKey :: "'key worker \<Rightarrow> jstr \<Rightarrow> int \<Rightarrow> 'key option" where
  "getKey w streamId keyId =
     (case map_get (wk_keys w) streamId of None \<Rightarrow> None | Some m \<Rightarrow> map_get m keyId)"

definition putKey :: "jstr \<Rightarrow> int \<Rightarrow> 'key \<Rightarrow> 'key worker \<Rightarrow> 'key worker" where
  "putKey streamId keyId key w =
     (let m = (case map_get (wk_keys w) streamId of None \<Rightarrow> [] | Some m \<Rightarrow> m)
      in w\<lparr>wk_keys := map_set streamId (map_set keyId key m) (wk_keys w)\<rparr>)"

text \<open>A pending request is kept; the timer then asks every encoder held at that moment.\<close>

definition scheduleKeyFrames :: "'key worker \<Rightarrow> 'key worker" where
  "scheduleKeyFrames w = (if wk_timer w then w else w\<lparr>wk_timer := True\<rparr>)"

definition keyFrameTimer :: "'key worker \<Rightarrow> 'key worker \<times> nat list" where
  "keyFrameTimer w = (w\<lparr>wk_timer := False\<rparr>, wk_encoders w)"

definition to_int32 :: "int \<Rightarrow> int" where
  "to_int32 n = sint (of_int n :: 32 word)"

fun onmessage :: "'key worker \<Rightarrow> 'key wmsg \<Rightarrow> 'key worker" where
  "onmessage w (WKey streamId keyId key) = scheduleKeyFrames (putKey streamId keyId key w)"
| "onmessage w (WSendKeyId keyId) = scheduleKeyFrames (w\<lparr>wk_sendKeyId := to_int32 keyId\<rparr>)"
| "onmessage w WClear = w\<lparr>wk_keys := []\<rparr>"
| "onmessage w (WMode cleartext) = scheduleKeyFrames (w\<lparr>wk_cleartext := cleartext\<rparr>)"
| "onmessage w WOther = w"

definition reportOnce :: "operation \<Rightarrow> 'key worker \<Rightarrow> 'key worker \<times> bool" where
  "reportOnce op w =
     (if op \<in> set (wk_reported w) then (w, False)
      else (w\<lparr>wk_reported := op # wk_reported w\<rparr>, True))"

text \<open>What becomes of a frame: forwarded as it came, forwarded changed, or dropped.\<close>

datatype outcome = Forwarded "byte list" | Rewritten "byte list" | Dropped

record encryptor =
  en_stream :: jstr
  en_video :: bool
  en_salt :: "byte list"
  en_counter :: nat

definition makeEncryptor :: "jstr \<Rightarrow> bool \<Rightarrow> byte list \<Rightarrow> encryptor" where
  "makeEncryptor streamId isVideo salt =
     \<lparr>en_stream = streamId, en_video = isVideo, en_salt = salt, en_counter = 0\<rparr>"

definition encrypt_frame ::
  "('priv, 'pub, 'key) webcrypto \<Rightarrow> 'key worker \<Rightarrow> encryptor \<Rightarrow> bool \<Rightarrow> byte list \<Rightarrow>
     'key worker \<times> encryptor \<times> outcome" where
  "encrypt_frame W w en typeKey dat =
     (if wk_cleartext w then (w, en, Forwarded dat)
      else case getKey w (en_stream en) (wk_sendKeyId w) of
             None \<Rightarrow> (w, en, Dropped)
           | Some key \<Rightarrow>
               let isKey = (en_video en \<and> typeKey);
                   en' = en\<lparr>en_counter := en_counter en + 1\<rparr>
               in case encryptFrame W dat (en_video en) isKey key (en_salt en) (en_counter en)
                         (wk_sendKeyId w) of
                    Some out \<Rightarrow> (w, en', Rewritten out)
                  | None \<Rightarrow> (fst (reportOnce OpEncrypt w), en', Dropped))"

definition KEYFRAME_REQUEST_MS :: int where "KEYFRAME_REQUEST_MS = 1000"

record decryptor =
  de_stream :: jstr
  de_video :: bool
  de_lastRequest :: int

definition makeDecryptor :: "jstr \<Rightarrow> bool \<Rightarrow> decryptor" where
  "makeDecryptor streamId isVideo =
     \<lparr>de_stream = streamId, de_video = isVideo, de_lastRequest = 0\<rparr>"

text \<open>The last component says whether a key frame was asked for.\<close>

definition decrypt_frame ::
  "('priv, 'pub, 'key) webcrypto \<Rightarrow> 'key worker \<Rightarrow> decryptor \<Rightarrow> int \<Rightarrow> bool \<Rightarrow> byte list \<Rightarrow>
     'key worker \<times> decryptor \<times> outcome \<times> bool" where
  "decrypt_frame W w de now typeKey dat =
     (if wk_cleartext w then (w, de, Forwarded dat, False)
      else let isKey = (de_video de \<and> typeKey)
           in case decryptFrame W dat (de_video de) isKey
                     (\<lambda>keyId. getKey w (de_stream de) (int keyId)) of
                Inr out \<Rightarrow> (w, de, Rewritten out, False)
              | Inl err \<Rightarrow>
                  let ask = (de_video de \<and> now - de_lastRequest de \<ge> KEYFRAME_REQUEST_MS);
                      de' = (if ask then de\<lparr>de_lastRequest := now\<rparr> else de)
                  in (fst (reportOnce OpDecrypt w), de', Dropped, ask))"

text \<open>A transform starts: a video encryptor is remembered for key frame requests.\<close>

definition onrtctransform :: "nat \<Rightarrow> bool \<Rightarrow> bool \<Rightarrow> 'key worker \<Rightarrow> 'key worker" where
  "onrtctransform t encrypt isVideo w =
     (if encrypt \<and> isVideo
      then w\<lparr>wk_encoders := (if t \<in> set (wk_encoders w) then wk_encoders w else wk_encoders w @ [t])\<rparr>
      else w)"

definition transform_ended :: "nat \<Rightarrow> 'key worker \<Rightarrow> 'key worker" where
  "transform_ended t w = w\<lparr>wk_encoders := filter (\<lambda>u. u \<noteq> t) (wk_encoders w)\<rparr>"

section \<open>Keys and mode\<close>

lemma scheduleKeyFrames_fields [frame_simps]:
  "wk_keys (scheduleKeyFrames w) = wk_keys w"
  "wk_cleartext (scheduleKeyFrames w) = wk_cleartext w"
  "wk_sendKeyId (scheduleKeyFrames w) = wk_sendKeyId w"
  "wk_encoders (scheduleKeyFrames w) = wk_encoders w"
  "wk_timer (scheduleKeyFrames w)"
  by (simp_all add: scheduleKeyFrames_def)

lemma getKey_putKey [store_simps]:
  "getKey (putKey s k key w) s' k' = (if s' = s \<and> k' = k then Some key else getKey w s' k')"
  by (simp add: getKey_def putKey_def Let_def js_store.get_put split: option.split)

lemma getKey_schedule [frame_simps]: "getKey (scheduleKeyFrames w) s k = getKey w s k"
  by (simp add: getKey_def frame_simps)

lemma getKey_onmessage:
  "getKey (onmessage w m) s k =
     (case m of WKey s' k' key \<Rightarrow> if s = s' \<and> k = k' then Some key else getKey w s k
      | WClear \<Rightarrow> None | _ \<Rightarrow> getKey w s k)"
  by (cases m) (auto simp: frame_simps store_simps, simp_all add: getKey_def)

lemma cleartext_onmessage:
  "wk_cleartext (onmessage w m) = (case m of WMode b \<Rightarrow> b | _ \<Rightarrow> wk_cleartext w)"
  by (cases m) (simp_all add: frame_simps putKey_def)

text \<open>The last mode posted is the mode the worker ends in.\<close>

fun last_mode :: "bool \<Rightarrow> 'key wmsg list \<Rightarrow> bool" where
  "last_mode b [] = b"
| "last_mode b (WMode c # ms) = last_mode c ms"
| "last_mode b (_ # ms) = last_mode b ms"

lemma last_mode_append: "last_mode b (ms @ ns) = last_mode (last_mode b ms) ns"
  by (induction b ms rule: last_mode.induct) simp_all

lemma worker_mode: "wk_cleartext (foldl onmessage w ms) = last_mode (wk_cleartext w) ms"
proof (induction ms arbitrary: w)
  case Nil
  then show ?case by simp
next
  case (Cons m ms)
  then show ?case by (cases m) (simp_all add: cleartext_onmessage del: onmessage.simps)
qed

interpretation key_table: machine onmessage "\<lambda>w. well_keyed (wk_keys w)"
proof
  fix s :: "'a worker" and e
  assume "well_keyed (wk_keys s)"
  then show "well_keyed (wk_keys (onmessage s e))"
    by (cases e) (auto simp: frame_simps putKey_def Let_def intro: js_store.ok_put)
qed

section \<open>Nothing leaves in clear unless the worker is told to\<close>

lemma encrypt_frame_forwarded:
  "snd (snd (encrypt_frame W w en t dat)) = Forwarded d \<Longrightarrow> wk_cleartext w \<and> d = dat"
  by (auto simp: encrypt_frame_def Let_def split: if_splits option.splits)

lemma encrypt_frame_unkeyed:
  "\<not> wk_cleartext w \<Longrightarrow> getKey w (en_stream en) (wk_sendKeyId w) = None \<Longrightarrow>
   encrypt_frame W w en t dat = (w, en, Dropped)"
  by (simp add: encrypt_frame_def)

lemma encrypt_frame_sealed:
  assumes "encrypt_frame W w en t dat = (w', en', Rewritten out)"
  obtains key where "getKey w (en_stream en) (wk_sendKeyId w) = Some key" and "w' = w"
    and "encryptFrame W dat (en_video en) (en_video en \<and> t) key (en_salt en) (en_counter en)
          (wk_sendKeyId w) = Some out"
    and "en' = en\<lparr>en_counter := en_counter en + 1\<rparr>"
  using assms by (auto simp: encrypt_frame_def Let_def split: if_splits option.splits)

section \<open>An initialisation vector is used once\<close>

text \<open>
  What happens to one encryptor: messages from the page and frames from the encoder, in any order.
  \<open>enc_run\<close> lists the sealed frames, \<open>frame_iv\<close> reads the vector a frame was sealed with.
\<close>

datatype 'key wevent = Msg "'key wmsg" | Frame bool "byte list"

fun enc_run ::
  "('priv, 'pub, 'key) webcrypto \<Rightarrow> 'key worker \<Rightarrow> encryptor \<Rightarrow> 'key wevent list \<Rightarrow> byte list list" where
  "enc_run W w en [] = []"
| "enc_run W w en (Msg m # es) = enc_run W (onmessage w m) en es"
| "enc_run W w en (Frame t dat # es) =
     (case encrypt_frame W w en t dat of
        (w', en', Rewritten out) \<Rightarrow> out # enc_run W w' en' es
      | (w', en', _) \<Rightarrow> enc_run W w' en' es)"

definition frame_iv :: "byte list \<Rightarrow> byte list" where
  "frame_iv dat = take 12 (drop (length dat - TRAILER_BYTES) dat)"

lemma frame_iv_sealed:
  assumes "encryptFrame W plain v k key salt counter keyId = Some out" and "length salt = 6"
  shows "frame_iv out = ivFromSaltCounter salt counter"
proof -
  obtain ct where "out = (take (clearPrefixLength v k) plain @ ct) @
      (salt @ writeUint48 counter) @ [of_int keyId]"
    using assms(1) by (rule encryptFrame_parts) (simp del: append_assoc add: append_assoc)
  moreover have "length (salt @ writeUint48 counter) = 12" using assms(2) by simp
  ultimately show ?thesis
    by (simp add: frame_iv_def ivFromSaltCounter_def size_defs)
qed

lemma encrypt_frame_counter:
  assumes "encrypt_frame W w en t dat = (w', en', oc)"
  shows "en_salt en' = en_salt en" "en_counter en \<le> en_counter en'"
    "en_counter en' \<le> Suc (en_counter en)"
    "oc = Rewritten out \<Longrightarrow> en_counter en' = Suc (en_counter en)"
  using assms
  by (auto simp: encrypt_frame_def Let_def split: if_splits option.splits)

lemma enc_run_counters:
  assumes "length (en_salt en) = 6"
  shows "\<exists>cs. map frame_iv (enc_run W w en es) = map (ivFromSaltCounter (en_salt en)) cs \<and>
    sorted_wrt (<) cs \<and> (\<forall>c \<in> set cs. en_counter en \<le> c \<and> c < en_counter en + length es)"
  using assms
proof (induction W w en es rule: enc_run.induct)
  case (1 W w en)
  then show ?case by simp
next
  case (2 W w en m es)
  then show ?case by force
next
  case (3 W w en t dat es)
  obtain w' en' oc where step: "encrypt_frame W w en t dat = (w', en', oc)"
    by (cases "encrypt_frame W w en t dat")
  note frame = encrypt_frame_counter [OF step]
  have len: "length (en_salt en') = 6" using "3.prems" frame(1) by simp
  show ?case
  proof (cases oc)
    case (Rewritten out)
    have iv: "frame_iv out = ivFromSaltCounter (en_salt en) (en_counter en)"
      using step "3.prems" unfolding Rewritten
      by (auto elim!: encrypt_frame_sealed intro: frame_iv_sealed)
    obtain cs where cs: "map frame_iv (enc_run W w' en' es) =
        map (ivFromSaltCounter (en_salt en')) cs" "sorted_wrt (<) cs"
      "\<forall>c \<in> set cs. en_counter en' \<le> c \<and> c < en_counter en' + length es"
      using "3.IH"(2) [OF step [symmetric] refl Rewritten len] by blast
    show ?thesis
      by (rule exI [of _ "en_counter en # cs"])
        (use cs frame(1) frame(4) [OF Rewritten] iv step Rewritten in \<open>auto simp: Suc_le_eq\<close>)
  next
    case (Forwarded d)
    then show ?thesis
      using "3.IH"(1) [OF step [symmetric] refl Forwarded len] step frame(1-3) by fastforce
  next
    case Dropped
    then show ?thesis
      using "3.IH"(3) [OF step [symmetric] refl Dropped len] step frame(1-3) by fastforce
  qed
qed

lemma ivFromSaltCounter_inject:
  assumes "ivFromSaltCounter s m = ivFromSaltCounter s n" and "m < 2 ^ 48" and "n < 2 ^ 48"
  shows "m = n"
  using assms by (metis ivFromSaltCounter_def append_same_eq readUint48_writeUint48 same_append_eq)



section \<open>Sender and receiver\<close>

text \<open>Once told not to, the worker forwards no frame unchanged.\<close>

theorem worker_no_cleartext:
  assumes "\<not> last_mode (wk_cleartext w) ms"
  shows "snd (snd (encrypt_frame W (foldl onmessage w ms) en t dat)) \<noteq> Forwarded d"
  using encrypt_frame_forwarded [of W "foldl onmessage w ms" en t dat d] assms
  by (auto simp: worker_mode)

theorem worker_no_cleartext_witness:
  "snd (snd (encrypt_frame sample_crypto (foldl onmessage worker_init [WMode True, WMode False])
     (makeEncryptor (js ''a|audio'') False (replicate 6 7)) False [1, 2])) \<noteq> Forwarded [1, 2]"
  by (rule worker_no_cleartext) (simp add: worker_init_def)

text \<open>C15: what one worker sealed, another with the same key opens to the same frame.\<close>

theorem media_end_to_end:
  assumes "aead_opens W" and "aead_tag W"
    and sent: "encrypt_frame W ws en t dat = (ws', en', Rewritten out)"
    and "length (en_salt en) = SALT_BYTES" and "en_counter en < 2 ^ 48"
    and "0 \<le> wk_sendKeyId ws" and "wk_sendKeyId ws < 256"
    and "\<not> wk_cleartext wr" and "de_video de = en_video en"
    and "getKey wr (de_stream de) (wk_sendKeyId ws) = getKey ws (en_stream en) (wk_sendKeyId ws)"
  shows "decrypt_frame W wr de now t out = (wr, de, Rewritten dat, False)"
proof -
  obtain key where key: "getKey ws (en_stream en) (wk_sendKeyId ws) = Some key"
    and enc: "encryptFrame W dat (en_video en) (en_video en \<and> t) key (en_salt en)
      (en_counter en) (wk_sendKeyId ws) = Some out"
    using sent by (rule encrypt_frame_sealed)
  have "decryptFrame W out (en_video en) (en_video en \<and> t)
      (\<lambda>keyId. getKey wr (de_stream de) (int keyId)) = Inr dat"
    by (rule decryptFrame_encryptFrame [OF assms(1,2) enc assms(4-7)])
      (use assms(6,10) key in simp)
  then show ?thesis
    using assms(8,9) by (simp add: decrypt_frame_def Let_def)
qed

definition sample_worker :: "byte list worker" where
  "sample_worker = foldl onmessage worker_init [WKey (js ''a|video'') 0 [1, 2, 3], WMode False]"

definition sample_encryptor :: encryptor where
  "sample_encryptor = makeEncryptor (js ''a|video'') True [1, 2, 3, 4, 5, 6]"

theorem media_end_to_end_witness:
  "\<exists>out. encrypt_frame sample_crypto sample_worker sample_encryptor True [9, 8, 7] =
     (sample_worker, sample_encryptor\<lparr>en_counter := 1\<rparr>, Rewritten out) \<and>
   decrypt_frame sample_crypto sample_worker (makeDecryptor (js ''a|video'') True) 5 True out =
     (sample_worker, makeDecryptor (js ''a|video'') True, Rewritten [9, 8, 7], False)"
proof -
  have key: "getKey sample_worker (js ''a|video'') 0 = Some [1, 2, 3]"
    and mode: "\<not> wk_cleartext sample_worker" "wk_sendKeyId sample_worker = 0"
    by (simp_all add: sample_worker_def worker_init_def frame_simps store_simps putKey_def
        getKey_def Let_def)
  obtain out where out: "encryptFrame sample_crypto [9, 8, 7] True True [1, 2, 3]
      [1, 2, 3, 4, 5, 6] 0 0 = Some out"
    by (simp add: encryptFrame_def sample_crypto_def Let_def)
  have enc: "encrypt_frame sample_crypto sample_worker sample_encryptor True [9, 8, 7] =
     (sample_worker, sample_encryptor\<lparr>en_counter := 1\<rparr>, Rewritten out)"
    using key mode out by (simp add: encrypt_frame_def sample_encryptor_def makeEncryptor_def)
  show ?thesis
    by (intro exI conjI, rule enc, rule media_end_to_end [OF _ _ enc])
      (simp_all add: sample_crypto_laws mode key sample_encryptor_def makeEncryptor_def
        makeDecryptor_def SALT_BYTES_def)
qed

text \<open>Key frame requests of one decryptor, with the times they were made at.\<close>

datatype 'key devent = DMsg "'key wmsg" | DFrame int bool "byte list"

fun dec_requests ::
  "('priv, 'pub, 'key) webcrypto \<Rightarrow> 'key worker \<Rightarrow> decryptor \<Rightarrow> 'key devent list \<Rightarrow> int list" where
  "dec_requests W w de [] = []"
| "dec_requests W w de (DMsg m # es) = dec_requests W (onmessage w m) de es"
| "dec_requests W w de (DFrame now t dat # es) =
     (let (w', de', oc, ask) = decrypt_frame W w de now t dat
      in (if ask then [now] else []) @ dec_requests W w' de' es)"

lemma decrypt_frame_request:
  assumes "decrypt_frame W w de now t dat = (w', de', oc, ask)"
  shows "if ask then de_lastRequest de + 1000 \<le> now \<and> de_lastRequest de' = now
    else de_lastRequest de' = de_lastRequest de"
  using assms
  by (auto simp: decrypt_frame_def Let_def KEYFRAME_REQUEST_MS_def split: if_splits sum.splits)

lemma dec_requests_gaps:
  "sorted_wrt (\<lambda>a b. a + 1000 \<le> b) (de_lastRequest de # dec_requests W w de es)"
proof (induction W w de es rule: dec_requests.induct)
  case (3 W w de now t dat es)
  obtain w' de' oc ask where step: "decrypt_frame W w de now t dat = (w', de', oc, ask)"
    by (cases "decrypt_frame W w de now t dat")
  note ih = "3.IH" [OF step [symmetric] refl refl refl]
  show ?case
    using ih decrypt_frame_request [OF step] step by (cases ask) force+
qed simp_all

text \<open>An undecryptable stream asks for at most one key frame a second.\<close>

theorem keyframe_requests_throttled:
  "sorted_wrt (\<lambda>a b. a + 1000 \<le> b) (dec_requests W w de es)"
  using dec_requests_gaps [of de W w es] by simp

end
