(* ===== verification/E2ee.thy ===== *)
theory E2ee
  imports Worker
begin

text \<open>
  static/e2ee.js: the controller that runs the handshake with the one other participant and decides
  what the worker may do. A method is a function on the state record. The code after an
  \<open>await\<close> is a continuation: reaching the \<open>await\<close> puts it on \<open>pending\<close>, and an event runs it
  later, with anything in between, since nothing orders it against the other events of the page.
  Everything posted to the worker and sent to the peer is kept in order in \<open>posted\<close> and
  \<open>sent\<close>. Of the callbacks of the page, \<open>onstate\<close> is counted in \<open>announced\<close>, \<open>onsas\<close> is left
  out, and \<open>userMessage\<close> is taken not to throw (a resumable session queues; see Connection).
\<close>

type_synonym uid = jstr

datatype role = Initiator | Responder

datatype est = Idle | Handshaking | Established | Failed | Unencrypted | Blocked

datatype reason = Multipeer | Unsupported | Transform | PeerUnsupported | Version | Commitment | Slow

text \<open>The \<open>t\<close> field of a message with what it carries; \<open>p_v\<close> is the version it names.\<close>

datatype body = Hello | CommitMsg jstr | DhMsg jstr | NoCrypto | OtherMsg

record payload =
  p_v :: "nat option"
  p_t :: body

text \<open>The local variables of a run of \<open>finalize\<close>.\<close>

record 'priv fin =
  f_gen :: nat
  f_priv :: 'priv
  f_myPub :: "byte list"
  f_peerPub :: "byte list"
  f_peer :: uid
  f_initiator :: bool
  f_commit :: "byte list"

datatype 'priv cont =
    KStart uid nat "(uid \<times> payload) option"
  | KMsg uid payload
  | KHash "byte list"
  | KAgree "'priv fin"
  | KTranscript "'priv fin" "byte list"
  | KMedia "'priv fin" "byte list" "byte list" nat
  | KChat "'priv fin" "byte list" "byte list"
  | KSas "'priv fin" "byte list" "byte list"

record ('priv, 'key) e2ee =
  my_id :: uid
  supported :: bool
  has_worker :: bool
  users :: "uid list"
  require :: bool
  peer :: "uid option"
  my_role :: "role option"
  startingFor :: "uid option"
  keyPair :: "'priv option"
  myPub :: "byte list option"
  myCommit :: "byte list option"
  peerPub :: "byte list option"
  peerCommit :: "byte list option"
  handshakeTimer :: "nat option"
  secret :: "byte list option"
  peerSupports :: "bool option"
  chatSendKey :: "'key option"
  chatRecvKey :: "'key option"
  chatSendSeq :: nat
  chatRecvSeq :: int
  transformFailed :: bool
  wasEncrypted :: bool
  clearAgreed :: bool
  generation :: nat
  state :: est
  detail :: "reason option"
  announced :: nat
  sas :: "nat list option"
  posted :: "'key wmsg list"
  sent :: "(uid \<times> payload) list"
  pending :: "'priv cont list"

definition e2ee_init :: "uid \<Rightarrow> bool \<Rightarrow> ('priv, 'key) e2ee" where
  "e2ee_init i can =
     \<lparr>my_id = i, supported = can, has_worker = False, users = [], require = False, peer = None,
      my_role = None, startingFor = None, keyPair = None, myPub = None, myCommit = None,
      peerPub = None, peerCommit = None, handshakeTimer = None, secret = None,
      peerSupports = None, chatSendKey = None, chatRecvKey = None, chatSendSeq = 0,
      chatRecvSeq = -1, transformFailed = False, wasEncrypted = False, clearAgreed = False,
      generation = 0, state = Idle, detail = None, announced = 0, sas = None, posted = [], sent = [],
      pending = []\<rparr>"

section \<open>The methods\<close>

definition ensureWorker :: "('priv, 'key) e2ee \<Rightarrow> ('priv, 'key) e2ee" where
  "ensureWorker s = s\<lparr>has_worker := True\<rparr>"

definition postMessage :: "'key wmsg \<Rightarrow> ('priv, 'key) e2ee \<Rightarrow> ('priv, 'key) e2ee" where
  "postMessage m s = s\<lparr>posted := posted s @ [m]\<rparr>"

definition canEncrypt :: "('priv, 'key) e2ee \<Rightarrow> bool" where
  "canEncrypt s \<longleftrightarrow> supported s \<and> \<not> transformFailed s"

definition noEncryptReason :: "('priv, 'key) e2ee \<Rightarrow> reason" where
  "noEncryptReason s = (if supported s then Transform else Unsupported)"

definition setState :: "est \<Rightarrow> reason option \<Rightarrow> ('priv, 'key) e2ee \<Rightarrow> ('priv, 'key) e2ee" where
  "setState st d s = s\<lparr>state := st, detail := d, announced := announced s + 1\<rparr>"

definition setWorkerMode :: "bool \<Rightarrow> ('priv, 'key) e2ee \<Rightarrow> ('priv, 'key) e2ee" where
  "setWorkerMode cleartext s =
     (if supported s \<and> has_worker s then postMessage (WMode cleartext) s else s)"

definition send :: "body \<Rightarrow> ('priv, 'key) e2ee \<Rightarrow> ('priv, 'key) e2ee" where
  "send t s =
     (case peer s of
        None \<Rightarrow> s
      | Some p \<Rightarrow>
          s\<lparr>sent := sent s @
             [(p, \<lparr>p_v = (if t = NoCrypto then None else Some PROTOCOL_VERSION), p_t = t\<rparr>)]\<rparr>)"

definition announceNoCrypto :: "('priv, 'key) e2ee \<Rightarrow> ('priv, 'key) e2ee" where
  "announceNoCrypto s = send NoCrypto s"

definition downgrade :: "reason \<Rightarrow> ('priv, 'key) e2ee \<Rightarrow> ('priv, 'key) e2ee" where
  "downgrade r s =
     (if require s \<or> (wasEncrypted s \<and> \<not> clearAgreed s)
      then setState Blocked (Some r) (setWorkerMode False s)
      else setState Unencrypted (Some r) (setWorkerMode True s))"

definition awaitsClearConsent :: "('priv, 'key) e2ee \<Rightarrow> bool" where
  "awaitsClearConsent s \<longleftrightarrow>
     state s = Blocked \<and> \<not> require s \<and> wasEncrypted s \<and> \<not> clearAgreed s"

definition mayPublishWhileAsking :: "('priv, 'key) e2ee \<Rightarrow> bool" where
  "mayPublishWhileAsking s \<longleftrightarrow> awaitsClearConsent s \<and> canEncrypt s"

definition continueInClear :: "('priv, 'key) e2ee \<Rightarrow> ('priv, 'key) e2ee" where
  "continueInClear s =
     (if \<not> awaitsClearConsent s then s
      else setState Unencrypted (detail s) (setWorkerMode True (s\<lparr>clearAgreed := True\<rparr>)))"

definition dropChatKeys :: "('priv, 'key) e2ee \<Rightarrow> ('priv, 'key) e2ee" where
  "dropChatKeys s =
     s\<lparr>chatSendKey := None, chatRecvKey := None, chatSendSeq := 0, chatRecvSeq := -1\<rparr>"

definition stopHandshakeTimer :: "('priv, 'key) e2ee \<Rightarrow> ('priv, 'key) e2ee" where
  "stopHandshakeTimer s = s\<lparr>handshakeTimer := None\<rparr>"

definition clearWorker :: "('priv, 'key) e2ee \<Rightarrow> ('priv, 'key) e2ee" where
  "clearWorker s =
     (if has_worker s then postMessage (WMode False) (postMessage WClear s) else s)"

definition resetPeer :: "('priv, 'key) e2ee \<Rightarrow> ('priv, 'key) e2ee" where
  "resetPeer s =
     clearWorker (stopHandshakeTimer (dropChatKeys
       (s\<lparr>generation := generation s + 1, peer := None, my_role := None, startingFor := None,
          keyPair := None, myPub := None, myCommit := None, peerPub := None, peerCommit := None,
          secret := None, sas := None, peerSupports := None\<rparr>)))"

definition fail :: "reason \<Rightarrow> ('priv, 'key) e2ee \<Rightarrow> ('priv, 'key) e2ee" where
  "fail d s =
     setState Failed (Some d)
       (clearWorker (dropChatKeys
         ((stopHandshakeTimer (s\<lparr>generation := generation s + 1\<rparr>))\<lparr>secret := None, sas := None\<rparr>)))"

definition await :: "'priv cont \<Rightarrow> ('priv, 'key) e2ee \<Rightarrow> ('priv, 'key) e2ee" where
  "await k s = s\<lparr>pending := pending s @ [k]\<rparr>"

text \<open>Where \<open>onMessage\<close> waits for \<open>startWith\<close>, \<open>caller\<close> is the message it goes on with.\<close>

definition resume_caller :: "(uid \<times> payload) option \<Rightarrow> ('priv, 'key) e2ee \<Rightarrow> ('priv, 'key) e2ee" where
  "resume_caller caller s = (case caller of None \<Rightarrow> s | Some (from, m) \<Rightarrow> await (KMsg from m) s)"

definition begin_session ::
  "uid \<Rightarrow> (uid \<times> payload) option \<Rightarrow> ('priv, 'key) e2ee \<Rightarrow> ('priv, 'key) e2ee" where
  "begin_session p caller s =
     (let s = resetPeer s;
          s = s\<lparr>peer := Some p, startingFor := Some p,
                my_role := Some (if my_id s < p then Initiator else Responder)\<rparr>;
          s = setState Handshaking None s;
          s = ensureWorker s;
          s = setWorkerMode False s;
          s = s\<lparr>handshakeTimer := Some (generation s)\<rparr>
      in await (KStart p (generation s) caller) s)"

definition startWith ::
  "uid \<Rightarrow> (uid \<times> payload) option \<Rightarrow> ('priv, 'key) e2ee \<Rightarrow> ('priv, 'key) e2ee" where
  "startWith p caller s =
     (if \<not> supported s then resume_caller caller s
      else if peer s = Some p \<and> (keyPair s \<noteq> None \<or> startingFor s = Some p)
      then resume_caller caller s
      else begin_session p caller s)"

definition timer_fires :: "('priv, 'key) e2ee \<Rightarrow> ('priv, 'key) e2ee" where
  "timer_fires s =
     (case handshakeTimer s of
        None \<Rightarrow> s
      | Some gen \<Rightarrow>
          let s = s\<lparr>handshakeTimer := None\<rparr>
          in if gen = generation s \<and> state s = Handshaking
             then setState Handshaking (Some Slow) s else s)"

text \<open>The rest of \<open>startWith\<close>, once the key pair, its public part and its commitment are there.\<close>

definition keys_ready ::
  "('priv, 'pub, 'key) webcrypto \<Rightarrow> uid \<Rightarrow> nat \<Rightarrow> (uid \<times> payload) option \<Rightarrow> 'priv \<Rightarrow> 'pub \<Rightarrow>
     ('priv, 'key) e2ee \<Rightarrow> ('priv, 'key) e2ee" where
  "keys_ready W p gen caller priv pub s =
     resume_caller caller
       (if peer s \<noteq> Some p \<or> gen \<noteq> generation s then s
        else let rawPub = wc_export_pub W pub;
                 s = s\<lparr>keyPair := Some priv, myPub := Some rawPub,
                       myCommit := Some (commit W rawPub), startingFor := None\<rparr>;
                 s = send Hello s
             in if my_role s = Some Responder
                then send (CommitMsg (b64 (commit W rawPub))) s else s)"

definition recompute :: "('priv, 'key) e2ee \<Rightarrow> ('priv, 'key) e2ee" where
  "recompute s =
     (case users s of
        [] \<Rightarrow>
          let s = resetPeer s
          in if require s \<and> \<not> canEncrypt s then downgrade (noEncryptReason s) s
             else setState Idle None s
      | [p] \<Rightarrow>
          if \<not> canEncrypt s
          then let s = announceNoCrypto (s\<lparr>peer := Some p\<rparr>) in downgrade (noEncryptReason s) s
          else startWith p None s
      | _ \<Rightarrow> downgrade Multipeer (resetPeer s))"

definition setRequire :: "bool \<Rightarrow> ('priv, 'key) e2ee \<Rightarrow> ('priv, 'key) e2ee" where
  "setRequire r s = recompute (s\<lparr>require := r\<rparr>)"

definition addUser :: "uid \<Rightarrow> ('priv, 'key) e2ee \<Rightarrow> ('priv, 'key) e2ee" where
  "addUser i s =
     (if i = my_id s then s
      else recompute (s\<lparr>users := (if i \<in> set (users s) then users s else users s @ [i])\<rparr>))"

definition delUser :: "uid \<Rightarrow> ('priv, 'key) e2ee \<Rightarrow> ('priv, 'key) e2ee" where
  "delUser i s =
     (let s = s\<lparr>users := filter (\<lambda>u. u \<noteq> i) (users s)\<rparr>;
          s = (if peer s = Some i then resetPeer s else s)
      in recompute s)"

definition finalize :: "('priv, 'key) e2ee \<Rightarrow> ('priv, 'key) e2ee" where
  "finalize s =
     (let initiator = (my_role s = Some Initiator);
          com = (if initiator then peerCommit s else myCommit s)
      in case (keyPair s, myPub s, peerPub s, peer s, com) of
           (Some kp, Some mp, Some pp, Some p, Some c) \<Rightarrow>
             await (KAgree \<lparr>f_gen = generation s, f_priv = kp, f_myPub = mp, f_peerPub = pp,
               f_peer = p, f_initiator = initiator, f_commit = c\<rparr>) s
         | _ \<Rightarrow> s)"

text \<open>The rest of \<open>onMessage\<close>, after the session it belongs to has been started.\<close>

definition on_commit :: "jstr \<Rightarrow> ('priv, 'key) e2ee \<Rightarrow> ('priv, 'key) e2ee" where
  "on_commit c64 s =
     (if my_role s \<noteq> Some Initiator then s
      else case unb64 c64 of
             None \<Rightarrow> s
           | Some c \<Rightarrow>
               (case peerCommit s of
                  Some pc \<Rightarrow> if \<not> bytesEqual c pc then fail Commitment s else s
                | None \<Rightarrow>
                    let s = s\<lparr>peerCommit := Some c\<rparr>
                    in case myPub s of None \<Rightarrow> s | Some mp \<Rightarrow> send (DhMsg (b64 mp)) s))"

definition on_dh :: "jstr \<Rightarrow> ('priv, 'key) e2ee \<Rightarrow> ('priv, 'key) e2ee" where
  "on_dh pub64 s =
     (case unb64 pub64 of
        None \<Rightarrow> s
      | Some pub \<Rightarrow>
          (case peerPub s of
             Some pp \<Rightarrow> if \<not> bytesEqual pub pp then fail Commitment s else s
           | None \<Rightarrow>
               if my_role s = Some Responder
               then let s = s\<lparr>peerPub := Some pub\<rparr>
                    in finalize (case myPub s of None \<Rightarrow> s | Some mp \<Rightarrow> send (DhMsg (b64 mp)) s)
               else if peerCommit s = None then s
               else await (KHash pub) s))"

definition hash_ready ::
  "('priv, 'pub, 'key) webcrypto \<Rightarrow> byte list \<Rightarrow> ('priv, 'key) e2ee \<Rightarrow> ('priv, 'key) e2ee" where
  "hash_ready W pub s =
     (case peerCommit s of
        None \<Rightarrow> s
      | Some pc \<Rightarrow>
          if \<not> bytesEqual (commit W pub) pc then fail Commitment s
          else if peerPub s \<noteq> None \<or> state s \<noteq> Handshaking then s
          else finalize (s\<lparr>peerPub := Some pub\<rparr>))"

definition onMessage2 :: "uid \<Rightarrow> payload \<Rightarrow> ('priv, 'key) e2ee \<Rightarrow> ('priv, 'key) e2ee" where
  "onMessage2 from m s =
     (if state s = Established \<or> state s = Failed then s
      else if myCommit s = None then s
      else if p_v m \<noteq> Some PROTOCOL_VERSION then fail Version s
      else case p_t m of
             Hello \<Rightarrow>
               (if my_role s = Some Responder
                then send (CommitMsg (b64 (the (myCommit s)))) s else s)
           | CommitMsg c \<Rightarrow> on_commit c s
           | DhMsg p \<Rightarrow> on_dh p s
           | _ \<Rightarrow> s)"

definition onMessage :: "uid \<Rightarrow> payload \<Rightarrow> ('priv, 'key) e2ee \<Rightarrow> ('priv, 'key) e2ee" where
  "onMessage from m s =
     (if users s \<noteq> [from] then s
      else if \<not> supported s
      then downgrade Unsupported (announceNoCrypto (s\<lparr>peer := Some from\<rparr>))
      else if p_t m = NoCrypto
      then downgrade PeerUnsupported (s\<lparr>peer := Some from, peerSupports := Some False\<rparr>)
      else if peer s \<noteq> Some from \<or> keyPair s = None
      then startWith from (Some (from, m)) s
      else onMessage2 from m s)"

text \<open>
  \<open>finalize\<close> after each of its awaits. Each stops when the session it started in is over.
\<close>

definition fin_handshake :: "uid \<Rightarrow> 'priv fin \<Rightarrow> handshake" where
  "fin_handshake me f =
     \<lparr>initiatorId = (if f_initiator f then me else f_peer f),
      responderId = (if f_initiator f then f_peer f else me),
      hs_commit = f_commit f,
      initiatorPub = (if f_initiator f then f_myPub f else f_peerPub f),
      responderPub = (if f_initiator f then f_peerPub f else f_myPub f)\<rparr>"

definition agree_ready ::
  "('priv, 'pub, 'key) webcrypto \<Rightarrow> 'priv fin \<Rightarrow> ('priv, 'key) e2ee \<Rightarrow> ('priv, 'key) e2ee" where
  "agree_ready W f s =
     (case wc_import_pub W (f_peerPub f) of
        None \<Rightarrow> s
      | Some q \<Rightarrow>
          let sec = wc_ecdh W (f_priv f) q
          in if f_gen f \<noteq> generation s then s
             else await (KTranscript f sec) (s\<lparr>secret := Some sec\<rparr>))"

definition transcript_ready ::
  "('priv, 'pub, 'key) webcrypto \<Rightarrow> 'priv fin \<Rightarrow> byte list \<Rightarrow> ('priv, 'key) e2ee \<Rightarrow> ('priv, 'key) e2ee" where
  "transcript_ready W f sec s =
     (if f_gen f \<noteq> generation s then s
      else await (KMedia f sec (transcript W (fin_handshake (my_id s) f)) 0) s)"

text \<open>Two owners, audio before video.\<close>

definition media_streams :: "uid \<Rightarrow> uid \<Rightarrow> jstr list" where
  "media_streams me p = [me @ js ''|audio'', me @ js ''|video'', p @ js ''|audio'', p @ js ''|video'']"

definition media_ready ::
  "('priv, 'pub, 'key) webcrypto \<Rightarrow> 'priv fin \<Rightarrow> byte list \<Rightarrow> byte list \<Rightarrow> nat \<Rightarrow>
     ('priv, 'key) e2ee \<Rightarrow> ('priv, 'key) e2ee" where
  "media_ready W f sec salt i s =
     (if f_gen f \<noteq> generation s then s
      else let streamId = media_streams (my_id s) (f_peer f) ! i;
               s = postMessage (WKey streamId 0 (deriveMediaKey W sec salt streamId)) (ensureWorker s)
           in await (if i < 3 then KMedia f sec salt (i + 1) else KChat f sec salt) s)"

definition chat_ready ::
  "('priv, 'pub, 'key) webcrypto \<Rightarrow> 'priv fin \<Rightarrow> byte list \<Rightarrow> byte list \<Rightarrow>
     ('priv, 'key) e2ee \<Rightarrow> ('priv, 'key) e2ee" where
  "chat_ready W f sec salt s =
     (if f_gen f \<noteq> generation s then s
      else let s = s\<lparr>chatSendKey := Some (deriveChatKey W sec salt (my_id s)),
                     chatRecvKey := Some (deriveChatKey W sec salt (f_peer f)),
                     chatSendSeq := 0, chatRecvSeq := -1\<rparr>
           in await (KSas f sec salt) (setWorkerMode False s))"

definition sas_ready ::
  "('priv, 'pub, 'key) webcrypto \<Rightarrow> 'priv fin \<Rightarrow> byte list \<Rightarrow> byte list \<Rightarrow>
     ('priv, 'key) e2ee \<Rightarrow> ('priv, 'key) e2ee" where
  "sas_ready W f sec salt s =
     (if f_gen f \<noteq> generation s then s
      else let s = stopHandshakeTimer
                     (s\<lparr>sas := Some (deriveSAS W sec salt), peerSupports := Some True\<rparr>);
               s = s\<lparr>wasEncrypted := True, clearAgreed := False\<rparr>
           in setState Established None s)"

definition attachSender :: "bool \<Rightarrow> ('priv, 'key) e2ee \<Rightarrow> ('priv, 'key) e2ee \<times> bool" where
  "attachSender works s =
     (if \<not> supported s then (s, False)
      else let s = ensureWorker s
           in if works then (s, True)
              else (downgrade Transform (announceNoCrypto (s\<lparr>transformFailed := True\<rparr>)), False))"

definition attachReceiver :: "('priv, 'key) e2ee \<Rightarrow> ('priv, 'key) e2ee" where
  "attachReceiver s = (if \<not> supported s then s else ensureWorker s)"

section \<open>Events\<close>

datatype ('priv, 'pub) event =
    SetRequire bool
  | AddUser uid
  | DelUser uid
  | Incoming uid payload
  | ContinueInClear
  | AttachSender bool
  | AttachReceiver
  | TimerFires
  | KeysReady nat 'priv 'pub
  | Resume nat

definition take_pending :: "nat \<Rightarrow> ('priv, 'key) e2ee \<Rightarrow> ('priv, 'key) e2ee" where
  "take_pending n s = s\<lparr>pending := take n (pending s) @ drop (Suc n) (pending s)\<rparr>"

fun run_cont ::
  "('priv, 'pub, 'key) webcrypto \<Rightarrow> 'priv cont \<Rightarrow> ('priv, 'key) e2ee \<Rightarrow> ('priv, 'key) e2ee" where
  "run_cont W (KStart p gen caller) s = s"
| "run_cont W (KMsg from m) s = onMessage2 from m s"
| "run_cont W (KHash pub) s = hash_ready W pub s"
| "run_cont W (KAgree f) s = agree_ready W f s"
| "run_cont W (KTranscript f sec) s = transcript_ready W f sec s"
| "run_cont W (KMedia f sec salt i) s = media_ready W f sec salt i s"
| "run_cont W (KChat f sec salt) s = chat_ready W f sec salt s"
| "run_cont W (KSas f sec salt) s = sas_ready W f sec salt s"

fun step ::
  "('priv, 'pub, 'key) webcrypto \<Rightarrow> ('priv, 'key) e2ee \<Rightarrow> ('priv, 'pub) event \<Rightarrow> ('priv, 'key) e2ee" where
  "step W s (SetRequire r) = setRequire r s"
| "step W s (AddUser i) = addUser i s"
| "step W s (DelUser i) = delUser i s"
| "step W s (Incoming from m) = onMessage from m s"
| "step W s ContinueInClear = continueInClear s"
| "step W s (AttachSender works) = fst (attachSender works s)"
| "step W s AttachReceiver = attachReceiver s"
| "step W s TimerFires = timer_fires s"
| "step W s (KeysReady n priv pub) =
     (if n < length (pending s)
      then case pending s ! n of
             KStart p gen caller \<Rightarrow> keys_ready W p gen caller priv pub (take_pending n s)
           | _ \<Rightarrow> s
      else s)"
| "step W s (Resume n) =
     (if n < length (pending s)
      then case pending s ! n of
             KStart _ _ _ \<Rightarrow> s
           | k \<Rightarrow> run_cont W k (take_pending n s)
      else s)"

abbreviation run ::
  "('priv, 'pub, 'key) webcrypto \<Rightarrow> ('priv, 'key) e2ee \<Rightarrow> ('priv, 'pub) event list \<Rightarrow> ('priv, 'key) e2ee" where
  "run W s es \<equiv> foldl (step W) s es"

definition worker_clear :: "('priv, 'key) e2ee \<Rightarrow> bool" where
  "worker_clear s \<longleftrightarrow> last_mode False (posted s)"

lemma worker_clear_worker: "worker_clear s \<longleftrightarrow> wk_cleartext (foldl onmessage worker_init (posted s))"
  by (simp add: worker_clear_def worker_mode worker_init_def)

end
