(* ===== verification/E2eeSafety.thy ===== *)
theory E2eeSafety
  imports E2ee
begin

text \<open>
  What the controller never does: put the worker into clear mode when it may not. The lemmas say,
  method by method, which fields are left alone and what is posted; the theorems are about runs of
  any length with the events in any order.
\<close>

lemmas prim_defs =
  ensureWorker_def postMessage_def setState_def setWorkerMode_def send_def announceNoCrypto_def
  dropChatKeys_def stopHandshakeTimer_def clearWorker_def await_def

section \<open>Fields the methods leave alone\<close>

text \<open>A reading of the controller that the methods do not touch, whatever they do to the fields of a
  session: what decides whether clear mode is allowed, and what the browser can do.\<close>

locale untouched =
  fixes f :: "('priv, 'key) e2ee \<Rightarrow> 'a"
  assumes upd [simp]:
    "f (s\<lparr>has_worker := x0\<rparr>) = f s"
    "f (s\<lparr>users := x1\<rparr>) = f s"
    "f (s\<lparr>peer := x2\<rparr>) = f s"
    "f (s\<lparr>my_role := x3\<rparr>) = f s"
    "f (s\<lparr>startingFor := x4\<rparr>) = f s"
    "f (s\<lparr>keyPair := x5\<rparr>) = f s"
    "f (s\<lparr>myPub := x6\<rparr>) = f s"
    "f (s\<lparr>myCommit := x7\<rparr>) = f s"
    "f (s\<lparr>peerPub := x8\<rparr>) = f s"
    "f (s\<lparr>peerCommit := x9\<rparr>) = f s"
    "f (s\<lparr>handshakeTimer := x10\<rparr>) = f s"
    "f (s\<lparr>secret := x11\<rparr>) = f s"
    "f (s\<lparr>peerSupports := x12\<rparr>) = f s"
    "f (s\<lparr>chatSendKey := x13\<rparr>) = f s"
    "f (s\<lparr>chatRecvKey := x14\<rparr>) = f s"
    "f (s\<lparr>chatSendSeq := x15\<rparr>) = f s"
    "f (s\<lparr>chatRecvSeq := x16\<rparr>) = f s"
    "f (s\<lparr>generation := x17\<rparr>) = f s"
    "f (s\<lparr>state := x18\<rparr>) = f s"
    "f (s\<lparr>detail := x19\<rparr>) = f s"
    "f (s\<lparr>announced := x20\<rparr>) = f s"
    "f (s\<lparr>sas := x21\<rparr>) = f s"
    "f (s\<lparr>posted := x22\<rparr>) = f s"
    "f (s\<lparr>sent := x23\<rparr>) = f s"
    "f (s\<lparr>pending := x24\<rparr>) = f s"
begin

lemma kept_prims [simp]:
  "f (ensureWorker s) = f s" "f (postMessage m s) = f s" "f (setState st d s) = f s" "f (setWorkerMode b s) = f s"
  "f (send t s) = f s" "f (announceNoCrypto s) = f s" "f (dropChatKeys s) = f s" "f (stopHandshakeTimer s) = f s"
  "f (clearWorker s) = f s" "f (await k s) = f s" "f (resume_caller c s) = f s" "f (take_pending n s) = f s"
  by (simp_all add: prim_defs resume_caller_def take_pending_def split: option.split prod.split)

lemma kept_resetPeer [simp]: "f (resetPeer s) = f s"
  by (simp add: resetPeer_def)

lemma kept_fail [simp]: "f (fail d s) = f s"
  by (simp add: fail_def)

lemma kept_downgrade [simp]: "f (downgrade r s) = f s"
  by (simp add: downgrade_def)

lemma kept_startWith [simp]: "f (startWith p c s) = f s"
  by (simp add: startWith_def begin_session_def Let_def)

lemma kept_recompute [simp]: "f (recompute s) = f s"
  by (simp add: recompute_def Let_def split: list.split)

lemma kept_finalize [simp]: "f (finalize s) = f s"
  by (simp add: finalize_def Let_def split: option.split)

lemma kept_on_commit [simp]: "f (on_commit c s) = f s"
  by (simp add: on_commit_def Let_def split: option.split)

lemma kept_on_dh [simp]: "f (on_dh c s) = f s"
  by (simp add: on_dh_def Let_def split: option.split)

lemma kept_hash_ready [simp]: "f (hash_ready W p s) = f s"
  by (simp add: hash_ready_def split: option.split)

lemma kept_onMessage2 [simp]: "f (onMessage2 from m s) = f s"
  by (simp add: onMessage2_def split: body.split)

lemma kept_onMessage [simp]: "f (onMessage from m s) = f s"
  by (simp add: onMessage_def)

lemma kept_keys_ready [simp]: "f (keys_ready W p g c priv pub s) = f s"
  by (simp add: keys_ready_def Let_def)

lemma kept_agree [simp]: "f (agree_ready W g s) = f s"
  by (simp add: agree_ready_def Let_def split: option.split)

lemma kept_transcript [simp]: "f (transcript_ready W g sec s) = f s"
  by (simp add: transcript_ready_def)

lemma kept_media [simp]: "f (media_ready W g sec salt i s) = f s"
  by (simp add: media_ready_def Let_def)

lemma kept_chat [simp]: "f (chat_ready W g sec salt s) = f s"
  by (simp add: chat_ready_def Let_def)

lemma kept_timer [simp]: "f (timer_fires s) = f s"
  by (simp add: timer_fires_def Let_def split: option.split)

lemma kept_users [simp]: "f (addUser i s) = f s" "f (delUser i s) = f s"
  by (simp_all add: addUser_def delUser_def Let_def)

lemma kept_attachReceiver [simp]: "f (attachReceiver s) = f s"
  by (simp add: attachReceiver_def)

end

text \<open>The three fields that decide whether clear mode is allowed.\<close>

definition policy_of :: "('priv, 'key) e2ee \<Rightarrow> bool \<times> bool \<times> bool" where
  "policy_of s = (require s, wasEncrypted s, clearAgreed s)"

definition same_policy :: "('priv, 'key) e2ee \<Rightarrow> ('priv, 'key) e2ee \<Rightarrow> bool" where
  "same_policy s t \<longleftrightarrow>
     require t = require s \<and> wasEncrypted t = wasEncrypted s \<and> clearAgreed t = clearAgreed s"

lemma same_policy_of: "same_policy s t \<longleftrightarrow> policy_of t = policy_of s"
  by (simp add: same_policy_def policy_of_def)

interpretation policy: untouched policy_of
  by unfold_locales (simp_all add: policy_of_def)

lemma same_policy_refl [simp]: "same_policy s s"
  by (simp add: same_policy_def)

lemma same_policy_trans [trans]: "same_policy s t \<Longrightarrow> same_policy t u \<Longrightarrow> same_policy s u"
  by (simp add: same_policy_def)

lemma policy_attachSender: "same_policy s (fst (attachSender w s))"
  by (simp add: same_policy_def attachSender_def prim_defs downgrade_def Let_def
      split: option.split)

lemma policy_recompute: "same_policy s (recompute s)"
  and policy_resetPeer: "same_policy s (resetPeer s)"
  and policy_take_pending: "same_policy s (take_pending n s)"
  and policy_keys_ready: "same_policy s (keys_ready W p g c priv pub s)"
  and policy_onMessage: "same_policy s (onMessage from m s)"
  and policy_onMessage2: "same_policy s (onMessage2 from m s)"
  and policy_startWith: "same_policy s (startWith p c s)"
  and policy_timer: "same_policy s (timer_fires s)"
  by (simp_all add: same_policy_of)

text \<open>What the browser can do.\<close>

definition browser_of :: "('priv, 'key) e2ee \<Rightarrow> bool \<times> bool" where
  "browser_of s = (supported s, transformFailed s)"

interpretation browser: untouched browser_of
  by unfold_locales (simp_all add: browser_of_def)

section \<open>What is posted\<close>

text \<open>\<open>quiet s t\<close>: from \<open>s\<close> to \<open>t\<close> the worker was not put into clear mode.\<close>

definition quiet :: "('priv, 'key) e2ee \<Rightarrow> ('priv, 'key) e2ee \<Rightarrow> bool" where
  "quiet s t \<longleftrightarrow> (\<exists>ps. posted t = posted s @ ps \<and> WMode True \<notin> set ps)"

definition guarded :: "('priv, 'key) e2ee \<Rightarrow> bool" where
  "guarded s \<longleftrightarrow> require s \<or> (wasEncrypted s \<and> \<not> clearAgreed s)"

lemma guarded_same: "same_policy s t \<Longrightarrow> guarded t = guarded s"
  by (simp add: same_policy_def guarded_def)

lemma quiet_same: "posted t = posted s \<Longrightarrow> quiet s t"
  by (simp add: quiet_def)

lemma quiet_refl [simp]: "quiet s s"
  by (simp add: quiet_def)

lemma quiet_trans [trans]: "quiet s t \<Longrightarrow> quiet t u \<Longrightarrow> quiet s u"
  by (fastforce simp: quiet_def)

lemma quiet_mode_False: "quiet s (setWorkerMode False s)"
  by (simp add: quiet_def setWorkerMode_def postMessage_def)

lemma quiet_clearWorker: "quiet s (clearWorker s)"
  by (cases "has_worker s") (simp_all add: quiet_def clearWorker_def postMessage_def)

lemma quiet_resetPeer: "quiet s (resetPeer s)"
  by (cases "has_worker s") (simp_all add: quiet_def resetPeer_def prim_defs)

lemma quiet_fail: "quiet s (fail d s)"
  by (cases "has_worker s") (simp_all add: quiet_def fail_def prim_defs)

lemma quiet_downgrade: "guarded s \<Longrightarrow> quiet s (downgrade r s)"
  by (simp add: downgrade_def guarded_def quiet_def setState_def setWorkerMode_def
      postMessage_def)

lemma posted_resume_caller [simp]: "posted (resume_caller c s) = posted s"
  by (simp add: resume_caller_def await_def split: option.split prod.split)

lemma posted_send [simp]: "posted (send b s) = posted s"
  by (simp add: send_def split: option.split)

lemma posted_finalize [simp]: "posted (finalize s) = posted s"
  by (simp add: finalize_def await_def Let_def split: option.split)

lemma quiet_begin_session: "quiet s (begin_session p c s)"
  by (rule quiet_trans [OF quiet_resetPeer])
    (simp add: begin_session_def quiet_def Let_def prim_defs)

lemma quiet_startWith: "quiet s (startWith p c s)"
  by (simp add: startWith_def quiet_begin_session quiet_same)

lemma quiet_recompute: "guarded s \<Longrightarrow> quiet s (recompute s)"
proof -
  assume g: "guarded s"
  have a: "quiet s (downgrade r (resetPeer s))" for r
    by (rule quiet_trans [OF quiet_resetPeer quiet_downgrade])
      (rule guarded_same [OF policy_resetPeer, THEN iffD2, OF g])
  have b: "quiet s (downgrade r (announceNoCrypto (s\<lparr>peer := q\<rparr>)))" for r q
  proof (rule quiet_trans [OF quiet_same quiet_downgrade])
    show "posted (announceNoCrypto (s\<lparr>peer := q\<rparr>)) = posted s"
      by (simp add: announceNoCrypto_def)
    show "guarded (announceNoCrypto (s\<lparr>peer := q\<rparr>))"
      using g by (simp add: guarded_def announceNoCrypto_def send_def split: option.split)
  qed
  have c: "quiet s (setState st d (resetPeer s))" for st d
    by (rule quiet_trans [OF quiet_resetPeer quiet_same]) (simp add: setState_def)
  show ?thesis
    unfolding recompute_def Let_def by (simp add: a b c quiet_startWith split: list.split)
qed

lemma quiet_on_commit: "quiet s (on_commit c s)"
  by (simp add: on_commit_def quiet_fail quiet_same Let_def split: option.split)

lemma quiet_on_dh: "quiet s (on_dh c s)"
  by (auto simp: on_dh_def quiet_fail await_def Let_def intro!: quiet_same split: option.split)

lemma quiet_hash_ready: "quiet s (hash_ready W p s)"
  by (simp add: hash_ready_def quiet_fail quiet_same split: option.split)

lemma quiet_onMessage2: "quiet s (onMessage2 from m s)"
  by (simp add: onMessage2_def quiet_fail quiet_on_commit quiet_on_dh quiet_same split: body.split)

lemma quiet_onMessage: "guarded s \<Longrightarrow> quiet s (onMessage from m s)"
proof -
  assume g: "guarded s"
  have "quiet s (downgrade Unsupported (announceNoCrypto (s\<lparr>peer := q\<rparr>)))" for q
    by (rule quiet_trans [OF quiet_same quiet_downgrade])
      (use g in \<open>simp_all add: announceNoCrypto_def guarded_def send_def split: option.split\<close>)
  moreover have "quiet s (downgrade PeerUnsupported (s\<lparr>peer := q, peerSupports := b\<rparr>))" for q b
    by (rule quiet_trans [OF quiet_same quiet_downgrade]) (use g in \<open>simp_all add: guarded_def\<close>)
  ultimately show ?thesis
    by (simp add: onMessage_def quiet_startWith quiet_onMessage2)
qed

lemma quiet_attachSender: "guarded s \<Longrightarrow> quiet s (fst (attachSender w s))"
proof -
  assume g: "guarded s"
  let ?t = "announceNoCrypto (ensureWorker s\<lparr>transformFailed := True\<rparr>)"
  have "quiet s (downgrade Transform ?t)"
    by (rule quiet_trans [OF quiet_same quiet_downgrade])
      (use g in \<open>simp_all add: announceNoCrypto_def guarded_def send_def ensureWorker_def
        split: option.split\<close>)
  then show ?thesis
    by (simp add: attachSender_def Let_def quiet_same ensureWorker_def)
qed

lemma quiet_run_cont: "quiet s (run_cont W k s)"
proof (cases k)
  case (KMedia f sec salt i)
  then show ?thesis by (simp add: media_ready_def quiet_def Let_def prim_defs)
next
  case (KChat f sec salt)
  have "quiet s (setWorkerMode False (s\<lparr>chatSendKey := a, chatRecvKey := b, chatSendSeq := 0,
      chatRecvSeq := -1\<rparr>))" for a b
    by (rule quiet_trans [OF quiet_same quiet_mode_False]) simp
  then show ?thesis
    by (simp add: KChat chat_ready_def quiet_def await_def Let_def)
qed (simp_all add: quiet_onMessage2 quiet_hash_ready quiet_same agree_ready_def
    transcript_ready_def sas_ready_def prim_defs Let_def split: option.split)

lemma quiet_take_pending: "quiet s (take_pending n s)"
  by (simp add: quiet_same take_pending_def)

lemma quiet_keys_ready: "quiet s (keys_ready W p g c priv pub s)"
  by (simp add: quiet_same keys_ready_def Let_def)

text \<open>The step lemma: nothing but the user's agreement, or lifting a requirement, lets clear mode in.\<close>

lemma guarded_step_quiet:
  assumes "guarded s" and "e = ContinueInClear \<Longrightarrow> require s"
    and "e = SetRequire False \<Longrightarrow> wasEncrypted s \<and> \<not> clearAgreed s"
  shows "quiet s (step W s e)"
proof (cases e)
  case (SetRequire r)
  have "guarded (s\<lparr>require := r\<rparr>)"
    using assms(1,3) SetRequire by (cases r) (simp_all add: guarded_def)
  then have "quiet (s\<lparr>require := r\<rparr>) (setRequire r s)"
    unfolding setRequire_def by (rule quiet_recompute)
  then have "quiet s (setRequire r s)" by (simp add: quiet_def)
  then show ?thesis by (simp add: SetRequire)
next
  case (AddUser i)
  have "quiet s (recompute (s\<lparr>users := us\<rparr>))" for us
    by (rule quiet_trans [OF quiet_same quiet_recompute])
      (use assms(1) in \<open>simp_all add: guarded_def\<close>)
  then show ?thesis by (simp add: AddUser addUser_def)
next
  case (DelUser i)
  let ?s = "s\<lparr>users := filter (\<lambda>u. u \<noteq> i) (users s)\<rparr>"
  have g: "guarded ?s" using assms(1) by (simp add: guarded_def)
  have "quiet ?s (recompute ?s)" "quiet ?s (recompute (resetPeer ?s))"
    using g guarded_same [OF policy_resetPeer] quiet_recompute
      quiet_trans [OF quiet_resetPeer quiet_recompute] by blast+
  moreover have "quiet s ?s" by (rule quiet_same) simp
  ultimately show ?thesis
    by (auto simp: DelUser delUser_def Let_def intro: quiet_trans)
next
  case ContinueInClear
  then show ?thesis
    using assms(2) by (simp add: continueInClear_def awaitsClearConsent_def)
next
  case TimerFires
  then show ?thesis
    by (auto simp: timer_fires_def setState_def Let_def intro: quiet_same split: option.split)
next
  case (KeysReady n priv pub)
  then show ?thesis
    by (auto intro: quiet_trans [OF quiet_take_pending quiet_keys_ready] split: cont.split)
next
  case (Resume n)
  then show ?thesis
    using quiet_trans [OF quiet_take_pending quiet_run_cont]
    by (auto simp del: run_cont.simps split: cont.split)
qed (use assms(1) in \<open>simp_all add: quiet_onMessage quiet_attachSender attachReceiver_def
    ensureWorker_def quiet_same\<close>)

section \<open>Runs\<close>

text \<open>Only three steps change the policy: the option, the user's agreement and a new session.\<close>

lemma policy_run_cont:
  "same_policy s (run_cont W k s) \<or>
   require (run_cont W k s) = require s \<and> wasEncrypted (run_cont W k s) \<and>
     \<not> clearAgreed (run_cont W k s)"
proof (cases k)
  case (KSas f sec salt)
  then show ?thesis by (simp add: sas_ready_def same_policy_def prim_defs Let_def)
qed (simp_all add: same_policy_of)

lemma policy_step:
  "same_policy s (step W s e) \<or> (\<exists>r. e = SetRequire r) \<or> e = ContinueInClear \<or>
   require (step W s e) = require s \<and> wasEncrypted (step W s e) \<and> \<not> clearAgreed (step W s e)"
proof (cases e)
  case (KeysReady n priv pub)
  then show ?thesis by (simp add: same_policy_of split: cont.split)
next
  case (Resume n)
  then show ?thesis
    using policy_run_cont [of "take_pending n s" W] policy_take_pending [of s n]
    by (auto simp: same_policy_def simp del: run_cont.simps split: cont.split)
qed (simp_all add: policy_attachSender, simp_all add: same_policy_of)

text \<open>Only \<open>attachSender\<close> changes what the browser is known to do.\<close>

lemma browser_sas [simp]: "browser_of (sas_ready W g sec salt s) = browser_of s"
  by (simp add: sas_ready_def Let_def browser_of_def prim_defs)

lemma browser_run_cont: "browser_of (run_cont W k s) = browser_of s"
  by (cases k) simp_all

lemma browser_policy [simp]:
  "browser_of (s\<lparr>require := r\<rparr>) = browser_of s" "browser_of (s\<lparr>clearAgreed := b\<rparr>) = browser_of s"
  by (simp_all add: browser_of_def)

lemma browser_step:
  assumes "\<And>w. e \<noteq> AttachSender w"
  shows "browser_of (step W s e) = browser_of s"
proof (cases e)
  case (Resume n)
  then show ?thesis
    using browser_run_cont [of W _ "take_pending n s"] by (auto simp del: run_cont.simps split: cont.split)
qed (use assms in \<open>simp_all add: setRequire_def continueInClear_def split: cont.split\<close>)

lemma consent_step:
  assumes "wasEncrypted s" and "\<not> clearAgreed s" and "e \<noteq> ContinueInClear"
  shows "wasEncrypted (step W s e) \<and> \<not> clearAgreed (step W s e)"
proof (cases "\<exists>r. e = SetRequire r")
  case True
  then obtain r where "e = SetRequire r" ..
  then show ?thesis
    using assms policy_recompute [of "s\<lparr>require := r\<rparr>"]
    by (simp add: setRequire_def same_policy_def)
next
  case False
  then show ?thesis using assms policy_step [of s W e] by (auto simp: same_policy_def)
qed

lemma require_step:
  assumes "require s" and "e \<noteq> SetRequire False"
  shows "require (step W s e)"
proof (cases "e = SetRequire True \<or> e = ContinueInClear")
  case True
  then show ?thesis
    using assms(1) policy_recompute [of "s\<lparr>require := True\<rparr>"]
    by (auto simp: setRequire_def same_policy_def continueInClear_def awaitsClearConsent_def)
next
  case False
  then have "\<not> (\<exists>r. e = SetRequire r)" using assms(2) by (metis (full_types))
  then show ?thesis
    using False assms(1) policy_step [of s W e] by (auto simp: same_policy_def)
qed

text \<open>C1: a room that has been encrypted is not put into clear mode before the user agrees.\<close>

theorem no_clear_without_consent:
  assumes "wasEncrypted s" and "\<not> clearAgreed s" and "ContinueInClear \<notin> set es"
  shows "\<exists>ps. posted (run W s es) = posted s @ ps \<and> WMode True \<notin> set ps"
proof -
  have "quiet s (run W s es)"
    using assms
  proof (induction es arbitrary: s)
    case Nil
    then show ?case by simp
  next
    case (Cons e es)
    have "quiet s (step W s e)"
      by (rule guarded_step_quiet) (use Cons.prems in \<open>auto simp: guarded_def\<close>)
    moreover have "quiet (step W s e) (run W (step W s e) es)"
      using Cons consent_step [of s e W] by auto
    ultimately show ?case by (auto intro: quiet_trans)
  qed
  then show ?thesis by (simp add: quiet_def)
qed

text \<open>C13: where the group requires encryption, the user's agreement does not help either.\<close>

theorem no_clear_while_required:
  assumes "require s" and "SetRequire False \<notin> set es"
  shows "\<exists>ps. posted (run W s es) = posted s @ ps \<and> WMode True \<notin> set ps"
proof -
  have "quiet s (run W s es)"
    using assms
  proof (induction es arbitrary: s)
    case Nil
    then show ?case by simp
  next
    case (Cons e es)
    have "quiet s (step W s e)"
      by (rule guarded_step_quiet) (use Cons.prems in \<open>auto simp: guarded_def\<close>)
    moreover have "quiet (step W s e) (run W (step W s e) es)"
      using Cons require_step [of s e W] by auto
    ultimately show ?case by (auto intro: quiet_trans)
  qed
  then show ?thesis by (simp add: quiet_def)
qed

section \<open>State and mode\<close>

text \<open>
  In every reachable state the worker is in clear mode only while the controller says
  \<open>unencrypted\<close> or, after the window described below, \<open>established\<close>.
\<close>

definition mode_inv :: "('priv, 'key) e2ee \<Rightarrow> bool" where
  "mode_inv s \<longleftrightarrow>
     (worker_clear s \<longrightarrow>
        supported s \<and> has_worker s \<and> (state s = Unencrypted \<or> state s = Established))"

text \<open>A change that neither posts a mode nor moves the state.\<close>

definition neutral :: "('priv, 'key) e2ee \<Rightarrow> ('priv, 'key) e2ee \<Rightarrow> bool" where
  "neutral s t \<longleftrightarrow>
     worker_clear t = worker_clear s \<and> state t = state s \<and> supported t = supported s \<and>
     (has_worker s \<longrightarrow> has_worker t)"

lemma neutral_refl [simp]: "neutral s s"
  by (simp add: neutral_def)

lemma neutral_trans [trans]: "neutral s t \<Longrightarrow> neutral t u \<Longrightarrow> neutral s u"
  by (simp add: neutral_def)

lemma mode_inv_neutral: "neutral s t \<Longrightarrow> mode_inv s \<Longrightarrow> mode_inv t"
  by (auto simp: neutral_def mode_inv_def)

lemma neutral_send: "neutral s (send b s)"
  by (simp add: neutral_def worker_clear_def send_def split: option.split)

lemma neutral_await: "neutral s (await k s)"
  by (simp add: neutral_def worker_clear_def await_def)

lemma neutral_resume_caller: "neutral s (resume_caller c s)"
  by (simp add: resume_caller_def neutral_await split: option.split prod.split)

lemma neutral_finalize: "neutral s (finalize s)"
  by (simp add: finalize_def neutral_await Let_def split: option.split)

lemma not_clear_resetPeer: "mode_inv s \<Longrightarrow> \<not> worker_clear (resetPeer s)"
  by (cases "has_worker s")
    (simp_all add: worker_clear_def mode_inv_def resetPeer_def prim_defs last_mode_append)

lemma not_clear_fail: "mode_inv s \<Longrightarrow> \<not> worker_clear (fail d s)"
  by (cases "has_worker s")
    (simp_all add: worker_clear_def mode_inv_def fail_def prim_defs last_mode_append)

lemma mode_inv_not_clear: "\<not> worker_clear s \<Longrightarrow> mode_inv s"
  by (simp add: mode_inv_def)

lemma mode_inv_downgrade: "mode_inv s \<Longrightarrow> mode_inv (downgrade r s)"
  by (auto simp: mode_inv_def downgrade_def worker_clear_def prim_defs last_mode_append)

lemma not_clear_begin_session: "mode_inv s \<Longrightarrow> \<not> worker_clear (begin_session p c s)"
  using not_clear_resetPeer [of s]
  by (simp add: begin_session_def worker_clear_def Let_def prim_defs last_mode_append)

lemma mode_inv_startWith: "mode_inv s \<Longrightarrow> mode_inv (startWith p c s)"
  using mode_inv_neutral [OF neutral_resume_caller, of s c]
    mode_inv_not_clear [OF not_clear_begin_session, of s p c]
  by (simp add: startWith_def)

lemma mode_inv_recompute: "mode_inv s \<Longrightarrow> mode_inv (recompute s)"
proof -
  assume m: "mode_inv s"
  have r: "mode_inv (resetPeer s)" by (rule mode_inv_not_clear [OF not_clear_resetPeer [OF m]])
  have "mode_inv (setState Idle None (resetPeer s))"
    using not_clear_resetPeer [OF m] by (simp add: mode_inv_def worker_clear_def setState_def)
  moreover have "mode_inv (announceNoCrypto (s\<lparr>peer := q\<rparr>))" for q
    using m by (simp add: mode_inv_def worker_clear_def announceNoCrypto_def send_def
        split: option.split)
  ultimately show ?thesis
    using r m unfolding recompute_def Let_def
    by (simp add: mode_inv_downgrade mode_inv_startWith split: list.split)
qed

lemma mode_inv_fail: "mode_inv s \<Longrightarrow> mode_inv (fail d s)"
  by (rule mode_inv_not_clear, rule not_clear_fail)

lemma mode_inv_same:
  "mode_inv s \<Longrightarrow> posted t = posted s \<Longrightarrow> state t = state s \<Longrightarrow> supported t = supported s \<Longrightarrow>
   has_worker t = has_worker s \<Longrightarrow> mode_inv t"
  by (simp add: mode_inv_def worker_clear_def)

lemma mode_inv_on_commit: "mode_inv s \<Longrightarrow> mode_inv (on_commit c s)"
proof -
  assume m: "mode_inv s"
  have "mode_inv (s\<lparr>peerCommit := q\<rparr>)" for q using m by (rule mode_inv_same) simp_all
  then show ?thesis
    using m by (simp add: on_commit_def mode_inv_fail Let_def mode_inv_neutral [OF neutral_send]
        split: option.split)
qed

lemma mode_inv_on_dh:
  assumes "mode_inv s"
  shows "mode_inv (on_dh c s)"
proof -
  have "mode_inv (s\<lparr>peerPub := q\<rparr>)" for q using assms by (rule mode_inv_same) simp_all
  then have "mode_inv (finalize (case myPub s of None \<Rightarrow> s\<lparr>peerPub := q\<rparr>
      | Some mp \<Rightarrow> send (DhMsg (b64 mp)) (s\<lparr>peerPub := q\<rparr>)))" for q
    by (intro mode_inv_neutral [OF neutral_finalize])
      (simp add: mode_inv_neutral [OF neutral_send] split: option.split)
  then show ?thesis
    using assms by (simp add: on_dh_def mode_inv_fail Let_def mode_inv_neutral [OF neutral_await]
        split: option.split)
qed

lemma mode_inv_hash_ready: "mode_inv s \<Longrightarrow> mode_inv (hash_ready W p s)"
  using mode_inv_neutral [OF neutral_finalize, of "s\<lparr>peerPub := Some p\<rparr>"]
    mode_inv_same [of s "s\<lparr>peerPub := Some p\<rparr>"]
  by (simp add: hash_ready_def mode_inv_fail split: option.split)

lemma mode_inv_onMessage2: "mode_inv s \<Longrightarrow> mode_inv (onMessage2 from m s)"
  by (simp add: onMessage2_def mode_inv_fail mode_inv_on_commit mode_inv_on_dh
      mode_inv_neutral [OF neutral_send] split: body.split)

lemma mode_inv_onMessage: "mode_inv s \<Longrightarrow> mode_inv (onMessage from m s)"
proof -
  assume m: "mode_inv s"
  have "mode_inv (announceNoCrypto (s\<lparr>peer := q\<rparr>))" for q
    using m by (simp add: mode_inv_def worker_clear_def announceNoCrypto_def send_def
        split: option.split)
  moreover have "mode_inv (s\<lparr>peer := q, peerSupports := b\<rparr>)" for q b
    using m by (rule mode_inv_same) simp_all
  ultimately show ?thesis
    using m by (simp add: onMessage_def mode_inv_downgrade mode_inv_startWith mode_inv_onMessage2)
qed

lemma mode_inv_keys_ready:
  assumes "mode_inv s"
  shows "mode_inv (keys_ready W p g c priv pub s)"
proof -
  have "mode_inv (send b (s\<lparr>keyPair := k, myPub := mp, myCommit := mc, startingFor := None\<rparr>))"
    for b k mp mc
    using assms by (intro mode_inv_neutral [OF neutral_send] mode_inv_same [OF assms]) simp_all
  then show ?thesis
    using assms unfolding keys_ready_def Let_def
    by (intro mode_inv_neutral [OF neutral_resume_caller])
      (simp add: mode_inv_neutral [OF neutral_send])
qed

lemma mode_inv_attachSender: "mode_inv s \<Longrightarrow> mode_inv (fst (attachSender w s))"
proof -
  assume m: "mode_inv s"
  have "mode_inv (ensureWorker s)"
    and "mode_inv (announceNoCrypto (ensureWorker s\<lparr>transformFailed := True\<rparr>))"
    using m by (simp_all add: mode_inv_def worker_clear_def announceNoCrypto_def send_def
        ensureWorker_def split: option.split)
  then show ?thesis using m by (simp add: attachSender_def Let_def mode_inv_downgrade)
qed

lemma mode_inv_run_cont:
  assumes m: "mode_inv s"
  shows "mode_inv (run_cont W k s)"
proof (cases k)
  case (KAgree f)
  have "mode_inv (s\<lparr>secret := q\<rparr>)" for q using m by (rule mode_inv_same) simp_all
  then show ?thesis
    using m by (simp add: KAgree agree_ready_def Let_def mode_inv_neutral [OF neutral_await]
        split: option.split)
next
  case (KMedia f sec salt i)
  then show ?thesis
    using m by (simp add: media_ready_def mode_inv_def worker_clear_def prim_defs Let_def
        last_mode_append)
next
  case (KChat f sec salt)
  then show ?thesis
    using m by (auto simp: chat_ready_def mode_inv_def worker_clear_def prim_defs Let_def
        last_mode_append)
next
  case (KSas f sec salt)
  then show ?thesis
    using m by (auto simp: sas_ready_def mode_inv_def worker_clear_def prim_defs Let_def)
qed (use m in \<open>simp_all add: mode_inv_onMessage2 mode_inv_hash_ready transcript_ready_def
    mode_inv_neutral [OF neutral_await]\<close>)

lemma mode_inv_take_pending: "mode_inv s \<Longrightarrow> mode_inv (take_pending n s)"
  by (erule mode_inv_same) (simp_all add: take_pending_def)

lemma mode_inv_step: "mode_inv s \<Longrightarrow> mode_inv (step W s e)"
proof -
  assume m: "mode_inv s"
  have upd: "mode_inv (s\<lparr>require := r\<rparr>)" "mode_inv (s\<lparr>users := us\<rparr>)" for r us
    by (rule mode_inv_same [OF m]; simp)+
  show ?thesis
  proof (cases e)
    case (SetRequire r)
    then show ?thesis by (simp add: setRequire_def mode_inv_recompute upd)
  next
    case (AddUser i)
    then show ?thesis using m by (simp add: addUser_def mode_inv_recompute upd)
  next
    case (DelUser i)
    then show ?thesis
      using mode_inv_not_clear [OF not_clear_resetPeer, OF upd(2)]
      by (simp add: delUser_def Let_def mode_inv_recompute upd)
  next
    case ContinueInClear
    then show ?thesis
      using m by (auto simp: continueInClear_def mode_inv_def worker_clear_def prim_defs
          last_mode_append awaitsClearConsent_def)
  next
    case TimerFires
    then show ?thesis
      using m by (auto simp: timer_fires_def mode_inv_def worker_clear_def setState_def Let_def
          split: option.split)
  next
    case (KeysReady n priv pub)
    then show ?thesis
      using m by (auto intro: mode_inv_keys_ready mode_inv_take_pending split: cont.split)
  next
    case (Resume n)
    have "mode_inv (run_cont W k (take_pending n s))" for k
      using m by (intro mode_inv_run_cont mode_inv_take_pending)
    then show ?thesis using m Resume by (simp del: run_cont.simps split: cont.split)
  next
    case AttachReceiver
    then show ?thesis
      using m by (auto simp: attachReceiver_def ensureWorker_def mode_inv_def worker_clear_def)
  qed (use m in \<open>simp_all add: mode_inv_onMessage mode_inv_attachSender\<close>)
qed

interpretation controller_mode: machine "step W" mode_inv
  by unfold_locales (rule mode_inv_step)

lemma mode_inv_init: "mode_inv (e2ee_init i b)"
  by (simp add: mode_inv_def worker_clear_def e2ee_init_def)

end
