(* ===== verification/E2eeSession.thy ===== *)
theory E2eeSession
  imports E2eeSafety
begin

text \<open>
  What an established session is made of. The data a handshake collects belongs to one peer and one
  generation: once \<open>finalize\<close> has been able to read it, it cannot change before the generation
  does, so every continuation that survives its generation check works on the session the state
  still describes. The theorems are about every reachable state.
\<close>

section \<open>The session a state describes\<close>

text \<open>What \<open>finalize\<close> reads.\<close>

definition commit_in_use :: "('priv, 'key) e2ee \<Rightarrow> byte list option" where
  "commit_in_use s = (if my_role s = Some Initiator then peerCommit s else myCommit s)"

definition fin_of :: "('priv, 'key) e2ee \<Rightarrow> 'priv fin option" where
  "fin_of s =
     (if keyPair s = None \<or> myPub s = None \<or> peerPub s = None \<or> peer s = None \<or>
         commit_in_use s = None
      then None
      else Some \<lparr>f_gen = generation s, f_priv = the (keyPair s), f_myPub = the (myPub s),
             f_peerPub = the (peerPub s), f_peer = the (peer s),
             f_initiator = (my_role s = Some Initiator), f_commit = the (commit_in_use s)\<rparr>)"

lemma finalize_alt:
  "finalize s = (case fin_of s of None \<Rightarrow> s | Some f \<Rightarrow> await (KAgree f) s)"
  by (auto simp: finalize_def fin_of_def commit_in_use_def Let_def split: option.split)

lemma fin_of_Some_iff:
  "fin_of s = Some f \<longleftrightarrow>
     f_gen f = generation s \<and> keyPair s = Some (f_priv f) \<and> myPub s = Some (f_myPub f) \<and>
     peerPub s = Some (f_peerPub f) \<and> peer s = Some (f_peer f) \<and>
     f_initiator f = (my_role s = Some Initiator) \<and> commit_in_use s = Some (f_commit f)"
  by (cases f) (auto simp: fin_of_def)

definition secret_of :: "('priv, 'pub, 'key) webcrypto \<Rightarrow> 'priv fin \<Rightarrow> byte list option" where
  "secret_of W f = map_option (wc_ecdh W (f_priv f)) (wc_import_pub W (f_peerPub f))"

definition salt_of :: "('priv, 'pub, 'key) webcrypto \<Rightarrow> uid \<Rightarrow> 'priv fin \<Rightarrow> byte list" where
  "salt_of W me f = transcript W (fin_handshake me f)"

fun cont_fin :: "'priv cont \<Rightarrow> 'priv fin option" where
  "cont_fin (KAgree f) = Some f"
| "cont_fin (KTranscript f _) = Some f"
| "cont_fin (KMedia f _ _ _) = Some f"
| "cont_fin (KChat f _ _) = Some f"
| "cont_fin (KSas f _ _) = Some f"
| "cont_fin _ = None"

text \<open>The secret and the salt a continuation carries are those of its session.\<close>

fun cont_data :: "('priv, 'pub, 'key) webcrypto \<Rightarrow> uid \<Rightarrow> 'priv cont \<Rightarrow> bool" where
  "cont_data W me (KTranscript f sec) = (secret_of W f = Some sec)"
| "cont_data W me (KMedia f sec salt i) = (secret_of W f = Some sec \<and> salt = salt_of W me f)"
| "cont_data W me (KChat f sec salt) = (secret_of W f = Some sec \<and> salt = salt_of W me f)"
| "cont_data W me (KSas f sec salt) = (secret_of W f = Some sec \<and> salt = salt_of W me f)"
| "cont_data W me _ = True"

definition cont_ok :: "('priv, 'pub, 'key) webcrypto \<Rightarrow> ('priv, 'key) e2ee \<Rightarrow> 'priv cont \<Rightarrow> bool" where
  "cont_ok W s k \<longleftrightarrow>
     cont_data W (my_id s) k \<and>
     (\<forall>f. cont_fin k = Some f \<longrightarrow>
        f_gen f \<le> generation s \<and> (f_gen f = generation s \<longrightarrow> fin_of s = Some f)) \<and>
     (\<forall>p g c. k = KStart p g c \<longrightarrow> g \<le> generation s)"

definition starts :: "nat \<Rightarrow> 'priv cont list \<Rightarrow> 'priv cont list" where
  "starts g ks = filter (\<lambda>k. case k of KStart _ g' _ \<Rightarrow> g' = g | _ \<Rightarrow> False) ks"

lemma starts_simps [simp]:
  "starts g [] = []"
  "starts g (ks @ ls) = starts g ks @ starts g ls"
  "starts g (KStart p g' c # ks) = (if g' = g then [KStart p g' c] else []) @ starts g ks"
  "starts g (KMsg i m # ks) = starts g ks"
  "starts g (KHash b # ks) = starts g ks"
  "starts g (KAgree f # ks) = starts g ks"
  "starts g (KTranscript f sec # ks) = starts g ks"
  "starts g (KMedia f sec sl n # ks) = starts g ks"
  "starts g (KChat f sec sl # ks) = starts g ks"
  "starts g (KSas f sec sl # ks) = starts g ks"
  by (simp_all add: starts_def)

lemma starts_older:
  assumes "\<forall>p g' c. KStart p g' c \<in> set ks \<longrightarrow> g' \<le> g"
  shows "starts (Suc g) ks = []"
  using assms by (fastforce simp: starts_def filter_empty_conv split: cont.splits)

definition role_of :: "uid \<Rightarrow> uid \<Rightarrow> role" where
  "role_of me p = (if me < p then Initiator else Responder)"

definition derived ::
  "('priv, 'pub, 'key) webcrypto \<Rightarrow> ('priv, 'key) e2ee \<Rightarrow> (byte list \<Rightarrow> byte list \<Rightarrow> 'priv fin \<Rightarrow> 'a) \<Rightarrow>
     'a option \<Rightarrow> bool" where
  "derived W s g v \<longleftrightarrow>
     (\<forall>x. v = Some x \<longrightarrow>
        (\<exists>f sec. fin_of s = Some f \<and> secret_of W f = Some sec \<and>
           x = g sec (salt_of W (my_id s) f) f))"

text \<open>The data of the handshake, and how the continuations and the keys hang on it.\<close>

definition data_inv :: "('priv, 'pub, 'key) webcrypto \<Rightarrow> ('priv, 'key) e2ee \<Rightarrow> bool" where
  "data_inv W s \<longleftrightarrow>
     (peer s = None \<longrightarrow> keyPair s = None \<and> peerCommit s = None \<and> peerPub s = None \<and> my_role s = None) \<and>
     (\<forall>p. peer s = Some p \<longrightarrow> my_role s \<in> {None, Some (role_of (my_id s) p)}) \<and>
     (keyPair s \<noteq> None \<longrightarrow> my_role s \<noteq> None) \<and>
     (keyPair s = None \<longrightarrow> myPub s = None) \<and>
     myCommit s = map_option (commit W) (myPub s) \<and>
     (peerCommit s \<noteq> None \<longrightarrow> my_role s = Some Initiator) \<and>
     (\<forall>q. my_role s = Some Initiator \<longrightarrow> peerPub s = Some q \<longrightarrow> peerCommit s = Some (commit W q)) \<and>
     length (starts (generation s) (pending s)) \<le> (if keyPair s = None then 1 else 0) \<and>
     (starts (generation s) (pending s) \<noteq> [] \<longrightarrow> my_role s \<noteq> None)"

definition link_inv :: "('priv, 'pub, 'key) webcrypto \<Rightarrow> ('priv, 'key) e2ee \<Rightarrow> bool" where
  "link_inv W s \<longleftrightarrow>
     (\<forall>k\<in>set (pending s). cont_ok W s k) \<and>
     derived W s (\<lambda>sec salt f. deriveSAS W sec salt) (sas s) \<and>
     derived W s (\<lambda>sec salt f. deriveChatKey W sec salt (my_id s)) (chatSendKey s) \<and>
     derived W s (\<lambda>sec salt f. deriveChatKey W sec salt (f_peer f)) (chatRecvKey s)"

definition session_inv :: "('priv, 'pub, 'key) webcrypto \<Rightarrow> ('priv, 'key) e2ee \<Rightarrow> bool" where
  "session_inv W s \<longleftrightarrow> data_inv W s \<and> link_inv W s"

text \<open>Data may be added while \<open>finalize\<close> cannot run yet.\<close>

lemma link_grow:
  assumes "link_inv W s" and "fin_of s = None"
    and "my_id t = my_id s" "generation t = generation s" "pending t = pending s"
    and "sas t = sas s" "chatSendKey t = chatSendKey s" "chatRecvKey t = chatRecvKey s"
  shows "link_inv W t"
  using assms by (auto simp: link_inv_def cont_ok_def derived_def)

text \<open>A new generation leaves every earlier continuation without effect.\<close>

lemma link_newer:
  assumes "link_inv W s"
    and "my_id t = my_id s" "generation t = Suc (generation s)" "pending t = pending s"
    and "sas t = None" "chatSendKey t = None" "chatRecvKey t = None"
  shows "link_inv W t \<and> starts (generation t) (pending t) = []"
proof -
  have "starts (Suc (generation s)) (pending s) = []"
    by (rule starts_older) (use assms(1) in \<open>auto simp: link_inv_def cont_ok_def\<close>)
  moreover have "cont_ok W t k" if "k \<in> set (pending s)" for k
    using that assms(1-3) by (fastforce simp: link_inv_def cont_ok_def)
  ultimately show ?thesis
    using assms by (simp add: link_inv_def derived_def)
qed

text \<open>The fields the invariant reads.\<close>

definition same_session :: "('priv, 'key) e2ee \<Rightarrow> ('priv, 'key) e2ee \<Rightarrow> bool" where
  "same_session s t \<longleftrightarrow>
     my_id t = my_id s \<and> peer t = peer s \<and> my_role t = my_role s \<and> keyPair t = keyPair s \<and>
     myPub t = myPub s \<and> myCommit t = myCommit s \<and> peerPub t = peerPub s \<and>
     peerCommit t = peerCommit s \<and> generation t = generation s \<and> pending t = pending s \<and>
     sas t = sas s \<and> chatSendKey t = chatSendKey s \<and> chatRecvKey t = chatRecvKey s"

lemma derived_cong:
  "fin_of t = fin_of s \<Longrightarrow> my_id t = my_id s \<Longrightarrow> derived W t g v = derived W s g v"
  by (simp add: derived_def)

lemma session_inv_same:
  assumes "same_session s t" and i: "session_inv W s"
  shows "session_inv W t"
proof -
  have eqs: "my_id t = my_id s" "peer t = peer s" "my_role t = my_role s"
    "keyPair t = keyPair s" "myPub t = myPub s" "myCommit t = myCommit s"
    "peerPub t = peerPub s" "peerCommit t = peerCommit s" "generation t = generation s"
    "pending t = pending s" "sas t = sas s" "chatSendKey t = chatSendKey s"
    "chatRecvKey t = chatRecvKey s"
    using assms(1) by (simp_all add: same_session_def)
  have fin: "fin_of t = fin_of s" by (simp only: fin_of_def commit_in_use_def eqs)
  show ?thesis
    using i unfolding session_inv_def data_inv_def link_inv_def cont_ok_def eqs fin derived_cong [OF fin eqs(1)] by blast
qed

lemma same_session_trans [trans]:
  "same_session s t \<Longrightarrow> same_session t u \<Longrightarrow> same_session s u"
  by (simp add: same_session_def)

lemma same_session_send: "same_session s (send b s)"
  by (simp add: same_session_def send_def split: option.split)

lemma same_session_downgrade: "same_session s (downgrade r s)"
  by (simp add: same_session_def downgrade_def prim_defs)

lemma same_session_setState: "same_session s (setState st d s)"
  by (simp add: same_session_def setState_def)

lemma session_inv_send [simp]: "session_inv W s \<Longrightarrow> session_inv W (send b s)"
  by (rule session_inv_same [OF same_session_send])

lemma session_inv_downgrade [simp]: "session_inv W s \<Longrightarrow> session_inv W (downgrade r s)"
  by (rule session_inv_same [OF same_session_downgrade])

lemma session_inv_setState [simp]: "session_inv W s \<Longrightarrow> session_inv W (setState st d s)"
  by (rule session_inv_same [OF same_session_setState])

text \<open>Waiting for a continuation that is in order keeps it.\<close>

lemma session_inv_await:
  assumes "session_inv W s" and "cont_ok W s k" and "\<forall>p g c. k \<noteq> KStart p g c"
  shows "session_inv W (await k s)"
proof -
  have "starts (generation s) [k] = []" using assms(3) by (cases k) simp_all
  moreover have fin: "fin_of (await k s) = fin_of s" and id: "my_id (await k s) = my_id s"
    by (simp_all add: await_def fin_of_def commit_in_use_def)
  moreover have "cont_ok W (await k s) k' = cont_ok W s k'" for k'
    by (simp add: cont_ok_def fin) (simp add: await_def)
  ultimately show ?thesis
    using assms(1,2) by (simp add: session_inv_def data_inv_def link_inv_def derived_cong [OF fin id])
      (auto simp: await_def split: if_splits)
qed

lemma cont_ok_KMsg [simp]: "cont_ok W s (KMsg i m)"
  and cont_ok_KHash [simp]: "cont_ok W s (KHash b)"
  by (simp_all add: cont_ok_def)

lemma session_inv_resume_caller [simp]: "session_inv W s \<Longrightarrow> session_inv W (resume_caller c s)"
  by (simp add: resume_caller_def session_inv_await split: option.split prod.split)

lemma session_inv_finalize [simp]: "session_inv W s \<Longrightarrow> session_inv W (finalize s)"
proof -
  assume i: "session_inv W s"
  have "f_gen f = generation s" if "fin_of s = Some f" for f
    using that by (simp add: fin_of_Some_iff)
  then have "cont_ok W s (KAgree f)" if "fin_of s = Some f" for f
    using that by (simp add: cont_ok_def)
  then show ?thesis using i by (simp add: finalize_alt session_inv_await split: option.split)
qed

section \<open>Every method keeps it\<close>

lemma resetPeer_fields [simp]:
  "peer (resetPeer s) = None" "keyPair (resetPeer s) = None" "my_role (resetPeer s) = None"
  "myPub (resetPeer s) = None" "myCommit (resetPeer s) = None" "peerPub (resetPeer s) = None"
  "peerCommit (resetPeer s) = None" "sas (resetPeer s) = None" "chatSendKey (resetPeer s) = None"
  "chatRecvKey (resetPeer s) = None" "generation (resetPeer s) = Suc (generation s)"
  "pending (resetPeer s) = pending s" "my_id (resetPeer s) = my_id s"
  "users (resetPeer s) = users s" "supported (resetPeer s) = supported s"
  "state (resetPeer s) = state s" "transformFailed (resetPeer s) = transformFailed s"
  by (simp_all add: resetPeer_def prim_defs)

lemma fail_fields [simp]:
  "peer (fail d s) = peer s" "keyPair (fail d s) = keyPair s" "my_role (fail d s) = my_role s"
  "myPub (fail d s) = myPub s" "myCommit (fail d s) = myCommit s"
  "peerPub (fail d s) = peerPub s" "peerCommit (fail d s) = peerCommit s"
  "sas (fail d s) = None" "chatSendKey (fail d s) = None" "chatRecvKey (fail d s) = None"
  "generation (fail d s) = Suc (generation s)" "pending (fail d s) = pending s"
  "my_id (fail d s) = my_id s" "users (fail d s) = users s" "state (fail d s) = Failed"
  by (simp_all add: fail_def prim_defs)

lemma session_inv_resetPeer [simp]: "session_inv W s \<Longrightarrow> session_inv W (resetPeer s)"
  using link_newer [of W s "resetPeer s"] by (simp add: session_inv_def data_inv_def)

lemma session_inv_fail [simp]: "session_inv W s \<Longrightarrow> session_inv W (fail d s)"
  using link_newer [of W s "fail d s"] by (auto simp: session_inv_def data_inv_def)

lemma session_inv_peer:
  assumes "session_inv W s" and "peer s = None \<or> peer s = Some p"
  shows "session_inv W (s\<lparr>peer := Some p\<rparr>)"
proof (cases "peer s")
  case None
  then have "link_inv W (s\<lparr>peer := Some p\<rparr>)"
    using assms(1) by - (rule link_grow [of W s], simp_all add: session_inv_def fin_of_def)
  moreover have "data_inv W (s\<lparr>peer := Some p\<rparr>)"
    using assms(1) None unfolding session_inv_def data_inv_def by auto
  ultimately show ?thesis by (simp add: session_inv_def)
next
  case (Some q)
  then have "s\<lparr>peer := Some p\<rparr> = s" using assms(2) by simp
  then show ?thesis using assms(1) by simp
qed

lemma begin_session_fields:
  "peer (begin_session p c s) = Some p" "keyPair (begin_session p c s) = None"
  "my_role (begin_session p c s) = Some (role_of (my_id s) p)"
  "generation (begin_session p c s) = Suc (generation s)"
  "pending (begin_session p c s) = pending s @ [KStart p (Suc (generation s)) c]"
  "my_id (begin_session p c s) = my_id s" "users (begin_session p c s) = users s"
  "sas (begin_session p c s) = None" "chatSendKey (begin_session p c s) = None"
  "chatRecvKey (begin_session p c s) = None" "myPub (begin_session p c s) = None"
  "myCommit (begin_session p c s) = None" "peerPub (begin_session p c s) = None"
  "peerCommit (begin_session p c s) = None" "state (begin_session p c s) = Handshaking"
  by (simp_all add: begin_session_def Let_def prim_defs role_of_def resetPeer_def)

lemma session_inv_begin_session [simp]:
  assumes "session_inv W s"
  shows "session_inv W (begin_session p c s)"
proof -
  let ?t = "begin_session p c s"
  have l: "link_inv W (?t\<lparr>pending := pending s\<rparr>) \<and> starts (generation ?t) (pending s) = []"
    using link_newer [of W s "?t\<lparr>pending := pending s\<rparr>"] assms
    by (simp add: session_inv_def begin_session_fields)
  have "cont_ok W ?t (KStart p (Suc (generation s)) c)"
    by (simp add: cont_ok_def begin_session_fields)
  moreover have "cont_ok W (?t\<lparr>pending := ks\<rparr>) k = cont_ok W ?t k" for ks k
    by (simp add: cont_ok_def fin_of_def commit_in_use_def)
  ultimately have "link_inv W ?t"
    using l by (simp add: link_inv_def derived_def begin_session_fields)
  moreover have "data_inv W ?t"
    using l by (simp add: data_inv_def begin_session_fields)
  ultimately show ?thesis by (simp add: session_inv_def)
qed

lemma session_inv_startWith [simp]: "session_inv W s \<Longrightarrow> session_inv W (startWith p c s)"
  by (simp add: startWith_def)

lemma starts_take_pending:
  assumes "n < length (pending s)" and "pending s ! n = KStart p g c"
    and "length (starts g (pending s)) \<le> 1"
  shows "starts g (pending (take_pending n s)) = []"
proof -
  have "pending s = take n (pending s) @ KStart p g c # drop (Suc n) (pending s)"
    using assms(1,2) by (metis id_take_nth_drop)
  then have "length (starts g (pending s)) =
      length (starts g (take n (pending s) @ KStart p g c # drop (Suc n) (pending s)))" by simp
  then show ?thesis using assms(3) by (simp add: take_pending_def)
qed

lemma take_pending_fields [simp]:
  "peer (take_pending n s) = peer s" "keyPair (take_pending n s) = keyPair s"
  "my_role (take_pending n s) = my_role s" "generation (take_pending n s) = generation s"
  "my_id (take_pending n s) = my_id s" "users (take_pending n s) = users s"
  "sas (take_pending n s) = sas s" "chatSendKey (take_pending n s) = chatSendKey s"
  "chatRecvKey (take_pending n s) = chatRecvKey s" "myPub (take_pending n s) = myPub s"
  "myCommit (take_pending n s) = myCommit s" "peerPub (take_pending n s) = peerPub s"
  "peerCommit (take_pending n s) = peerCommit s" "state (take_pending n s) = state s"
  "fin_of (take_pending n s) = fin_of s"
  by (simp_all add: take_pending_def fin_of_def commit_in_use_def)

lemma length_starts_take:
  "length (starts g (pending (take_pending n s))) \<le> length (starts g (pending s))"
proof -
  have "starts g (pending s) = starts g (take n (pending s)) @ starts g (drop n (pending s))"
    using starts_simps(2) [of g "take n (pending s)" "drop n (pending s)"] by simp
  moreover have "length (starts g (drop (Suc n) ks)) \<le> length (starts g (drop n ks))" for ks
    by (cases "drop n ks") (simp_all add: starts_def drop_Suc flip: tl_drop)
  ultimately show ?thesis by (simp add: take_pending_def)
qed

lemma set_take_pending: "set (pending (take_pending n s)) \<subseteq> set (pending s)"
  by (auto simp: take_pending_def dest: in_set_takeD in_set_dropD)

lemma session_inv_take_pending [simp]:
  assumes "session_inv W s"
  shows "session_inv W (take_pending n s)"
proof -
  let ?t = "take_pending n s"
  have "cont_ok W ?t k = cont_ok W s k" for k by (simp add: cont_ok_def)
  then have "link_inv W ?t"
    using assms set_take_pending [of n s]
    by (auto simp: session_inv_def link_inv_def derived_cong [of ?t s])
  moreover have "starts (generation s) (pending ?t) \<noteq> [] \<Longrightarrow>
      starts (generation s) (pending s) \<noteq> []"
    using length_starts_take [of "generation s" n s] by auto
  then have "data_inv W ?t"
    using assms length_starts_take [of "generation s" n s]
    by (auto simp: session_inv_def data_inv_def split: if_splits)
  ultimately show ?thesis by (simp add: session_inv_def)
qed

lemma session_inv_keys_ready:
  assumes i: "session_inv W s" and n: "n < length (pending s)" "pending s ! n = KStart p g c"
  shows "session_inv W (keys_ready W p g c priv pub (take_pending n s))"
proof (cases "peer s = Some p \<and> g = generation s")
  case True
  let ?t = "take_pending n s"
  let ?u = "?t\<lparr>keyPair := Some priv, myPub := Some (wc_export_pub W pub),
      myCommit := Some (commit W (wc_export_pub W pub)), startingFor := None\<rparr>"
  have "KStart p g c \<in> set (starts g (pending s))"
    using n nth_mem [of n "pending s"] by (simp add: starts_def)
  then have "starts g (pending s) \<noteq> []" by auto
  then have none: "keyPair s = None" and some: "my_role s \<noteq> None"
    and one: "length (starts g (pending s)) \<le> 1"
    using i True by (auto simp: session_inv_def data_inv_def split: if_splits)
  have empty: "starts g (pending ?t) = []" by (rule starts_take_pending [OF n one])
  have "session_inv W ?t" using i by simp
  moreover have "fin_of ?t = None" using none by (simp add: fin_of_def)
  ultimately have "link_inv W ?u"
    by - (rule link_grow [of W ?t], simp_all add: session_inv_def)
  moreover have "data_inv W ?u"
    using i True none some empty by (auto simp: session_inv_def data_inv_def)
  ultimately have "session_inv W ?u" by (simp add: session_inv_def)
  then show ?thesis using True by (simp add: keys_ready_def Let_def)
next
  case False
  then show ?thesis using i by (auto simp: keys_ready_def)
qed

lemma session_inv_peerCommit:
  assumes "session_inv W s" and "peerCommit s = None" and "my_role s = Some Initiator"
  shows "session_inv W (s\<lparr>peerCommit := Some q\<rparr>)"
proof -
  have "fin_of s = None" using assms(2,3) by (simp add: fin_of_def commit_in_use_def)
  then have "link_inv W (s\<lparr>peerCommit := Some q\<rparr>)"
    using assms(1) by - (rule link_grow [of W s], simp_all add: session_inv_def)
  moreover have "data_inv W (s\<lparr>peerCommit := Some q\<rparr>)"
    using assms unfolding session_inv_def data_inv_def by auto
  ultimately show ?thesis by (simp add: session_inv_def)
qed

lemma session_inv_peerPub:
  assumes "session_inv W s" and "peerPub s = None"
    and "my_role s = Some Responder \<or> peerCommit s = Some (commit W q)"
  shows "session_inv W (s\<lparr>peerPub := Some q\<rparr>)"
proof -
  have "fin_of s = None" using assms(2) by (simp add: fin_of_def)
  then have "link_inv W (s\<lparr>peerPub := Some q\<rparr>)"
    using assms(1) by - (rule link_grow [of W s], simp_all add: session_inv_def)
  moreover have "data_inv W (s\<lparr>peerPub := Some q\<rparr>)"
    using assms unfolding session_inv_def data_inv_def by auto
  ultimately show ?thesis by (simp add: session_inv_def)
qed

lemma session_inv_on_commit [simp]: "session_inv W s \<Longrightarrow> session_inv W (on_commit c s)"
  by (simp add: on_commit_def Let_def session_inv_peerCommit split: option.split)

lemma session_inv_on_dh [simp]:
  assumes "session_inv W s"
  shows "session_inv W (on_dh c s)"
  using assms
  by (simp add: on_dh_def Let_def session_inv_peerPub session_inv_await split: option.split)

lemma session_inv_hash_ready [simp]: "session_inv W s \<Longrightarrow> session_inv W (hash_ready W q s)"
  by (simp add: hash_ready_def session_inv_peerPub bytesEqual_iff split: option.split)

lemma session_inv_onMessage2 [simp]: "session_inv W s \<Longrightarrow> session_inv W (onMessage2 from m s)"
  by (simp add: onMessage2_def split: body.split)

text \<open>The peer is the one other participant.\<close>

definition user_inv :: "('priv, 'key) e2ee \<Rightarrow> bool" where
  "user_inv s \<longleftrightarrow> (\<forall>p. peer s = Some p \<longrightarrow> users s = [p])"

definition full_inv :: "('priv, 'pub, 'key) webcrypto \<Rightarrow> ('priv, 'key) e2ee \<Rightarrow> bool" where
  "full_inv W s \<longleftrightarrow> session_inv W s \<and> user_inv s \<and> (state s = Established \<longrightarrow> sas s \<noteq> None)"

lemma peer_send [simp]:
  "peer (send b s) = peer s" "users (send b s) = users s" "state (send b s) = state s"
  "sas (send b s) = sas s"
  by (simp_all add: send_def split: option.split)

lemma peer_downgrade [simp]:
  "peer (downgrade r s) = peer s" "users (downgrade r s) = users s"
  "state (downgrade r s) \<noteq> Established"
  by (simp_all add: downgrade_def prim_defs)

lemma peer_setState [simp]:
  "peer (setState st d s) = peer s" "users (setState st d s) = users s"
  "state (setState st d s) = st"
  by (simp_all add: setState_def)

lemma peer_resume_caller [simp]:
  "peer (resume_caller c s) = peer s" "users (resume_caller c s) = users s"
  "state (resume_caller c s) = state s" "sas (resume_caller c s) = sas s"
  by (simp_all add: resume_caller_def await_def split: option.split prod.split)

definition calm :: "('priv, 'key) e2ee \<Rightarrow> ('priv, 'key) e2ee \<Rightarrow> bool" where
  "calm s t \<longleftrightarrow>
     peer t = peer s \<and> users t = users s \<and>
     (state t = Established \<longrightarrow> state s = Established \<and> sas t = sas s)"

lemma full_inv_calm:
  "full_inv W s \<Longrightarrow> session_inv W t \<Longrightarrow> calm s t \<Longrightarrow> full_inv W t"
  by (auto simp: full_inv_def user_inv_def calm_def)

lemma calm_refl [simp]: "calm s s"
  by (simp add: calm_def)

text \<open>
  \<open>recompute\<close> starts from a state whose list of users may just have changed: either the peer is
  still the only user, or there is no peer.
\<close>

lemma full_inv_recompute:
  assumes i: "session_inv W s"
    and u: "\<And>p q. peer s = Some p \<Longrightarrow> users s = [q] \<Longrightarrow> q = p"
    and e: "peer s = None \<or> (state s = Established \<longrightarrow> sas s \<noteq> None)"
  shows "full_inv W (recompute s)"
proof (cases "users s")
  case Nil
  then show ?thesis using i by (simp add: recompute_def Let_def full_inv_def user_inv_def)
next
  case (Cons p us)
  show ?thesis
  proof (cases us)
    case Nil
    have "session_inv W (s\<lparr>peer := Some p\<rparr>)"
      using u [of _ p] Cons Nil by (intro session_inv_peer i) (cases "peer s"; simp)
    then have "session_inv W (announceNoCrypto (s\<lparr>peer := Some p\<rparr>))"
      by (simp add: announceNoCrypto_def)
    then have a: "full_inv W (downgrade r (announceNoCrypto (s\<lparr>peer := Some p\<rparr>)))" for r
      using Cons Nil by (simp add: full_inv_def user_inv_def announceNoCrypto_def)
    have b: "full_inv W (startWith p None s)" if "canEncrypt s"
    proof (cases "peer s = Some p \<and> (keyPair s \<noteq> None \<or> startingFor s = Some p)")
      case True
      then show ?thesis using i e Cons Nil that
        by (auto simp: startWith_def full_inv_def user_inv_def resume_caller_def)
    next
      case False
      have "startWith p None s = begin_session p None s"
        using False that by (simp only: startWith_def canEncrypt_def if_False simp_thms)
      then show ?thesis using i Cons Nil
        by (simp add: full_inv_def user_inv_def begin_session_fields)
    qed
    show ?thesis using a b Cons Nil by (simp add: recompute_def Let_def)
  next
    case (Cons q r)
    then show ?thesis
      using i \<open>users s = p # us\<close>
      by (simp add: recompute_def Let_def full_inv_def user_inv_def)
  qed
qed

lemma calm_fail [simp]: "calm s (fail d s)"
  by (simp add: calm_def)

lemma calm_send [simp]: "calm s t \<Longrightarrow> calm s (send b t)"
  by (simp add: calm_def)

lemma calm_finalize [simp]: "calm s t \<Longrightarrow> calm s (finalize t)"
  by (simp add: calm_def finalize_alt await_def split: option.split)

lemma calm_await [simp]: "calm s (await k s)"
  by (simp add: calm_def await_def)

lemma calm_set [simp]: "calm s (s\<lparr>peerPub := q\<rparr>)" "calm s (s\<lparr>peerCommit := q\<rparr>)"
  by (simp_all add: calm_def)

lemma calm_on_commit [simp]: "calm s (on_commit c s)"
  by (simp add: on_commit_def Let_def split: option.split)

lemma calm_on_dh [simp]: "calm s (on_dh c s)"
  by (simp add: on_dh_def Let_def split: option.split)

lemma calm_hash_ready [simp]: "calm s (hash_ready W c s)"
  by (simp add: hash_ready_def split: option.split)

lemma calm_onMessage2 [simp]: "calm s (onMessage2 from m s)"
  by (simp add: onMessage2_def split: body.split)

lemma full_inv_session: "full_inv W s \<Longrightarrow> session_inv W s"
  by (simp add: full_inv_def)

lemma full_inv_onMessage2: "full_inv W s \<Longrightarrow> full_inv W (onMessage2 from m s)"
  using full_inv_calm [of W s "onMessage2 from m s"] by (simp add: full_inv_session)

lemma full_inv_hash_ready: "full_inv W s \<Longrightarrow> full_inv W (hash_ready W q s)"
  using full_inv_calm [of W s "hash_ready W q s"] by (simp add: full_inv_session)

lemma full_inv_startWith:
  assumes "full_inv W s" and "users s = [p]"
  shows "full_inv W (startWith p c s)"
proof -
  have "full_inv W (begin_session p c s)"
    using assms by (simp add: full_inv_def user_inv_def begin_session_fields)
  moreover have "full_inv W (resume_caller c s)"
    using assms(1) full_inv_calm [of W s "resume_caller c s"]
    by (simp add: full_inv_session calm_def)
  ultimately show ?thesis by (simp add: startWith_def)
qed

lemma full_inv_onMessage:
  assumes i: "full_inv W s"
  shows "full_inv W (onMessage from m s)"
proof (cases "users s = [from]")
  case True
  have p: "peer s = None \<or> peer s = Some from"
    using i True by (cases "peer s") (simp_all add: full_inv_def user_inv_def)
  have sp: "session_inv W (s\<lparr>peer := Some from\<rparr>)"
    using i p by (simp add: full_inv_def session_inv_peer)
  moreover have "same_session (s\<lparr>peer := Some from\<rparr>) (s\<lparr>peer := Some from, peerSupports := b\<rparr>)" for b
    by (simp add: same_session_def)
  ultimately have sn: "session_inv W (s\<lparr>peer := Some from, peerSupports := b\<rparr>)" for b
    by (blast intro: session_inv_same)
  show ?thesis
    using True i sp sn
    by (auto simp: onMessage_def announceNoCrypto_def full_inv_startWith full_inv_onMessage2)
      (simp_all add: full_inv_def user_inv_def)
next
  case False
  then show ?thesis using i by (simp add: onMessage_def)
qed

section \<open>The continuations of finalize\<close>

lemma cont_ok_next:
  assumes "cont_ok W s k" and "cont_fin k' = cont_fin k" and "cont_data W (my_id s) k'"
    and "\<forall>p g c. k' \<noteq> KStart p g c"
  shows "cont_ok W s k'"
  using assms by (simp add: cont_ok_def)

lemma full_inv_await:
  assumes "full_inv W s" and "cont_ok W s k" and "\<forall>p g c. k \<noteq> KStart p g c"
  shows "full_inv W (await k s)"
  by (rule full_inv_calm [OF assms(1)]) (use assms in \<open>simp_all add: session_inv_await full_inv_def\<close>)

lemma full_inv_agree_ready:
  assumes "full_inv W s" and "cont_ok W s (KAgree f)"
  shows "full_inv W (agree_ready W f s)"
proof -
  have "same_session s (s\<lparr>secret := q\<rparr>)" for q by (simp add: same_session_def)
  then have u: "full_inv W (s\<lparr>secret := q\<rparr>)" for q
    using assms(1) by (auto simp: full_inv_def user_inv_def intro: session_inv_same)
  have "cont_ok W (s\<lparr>secret := q\<rparr>) (KTranscript f sec)" if "secret_of W f = Some sec" for q sec
  proof -
    have "fin_of (s\<lparr>secret := q\<rparr>) = fin_of s" by (simp add: fin_of_def commit_in_use_def)
    then show ?thesis using assms(2) that by (simp add: cont_ok_def)
  qed
  then show ?thesis
    using u assms(1)
    by (simp add: agree_ready_def secret_of_def Let_def full_inv_await split: option.split)
qed

lemma full_inv_transcript_ready:
  assumes "full_inv W s" and "cont_ok W s (KTranscript f sec)"
  shows "full_inv W (transcript_ready W f sec s)"
  using assms by (auto simp: transcript_ready_def cont_ok_def salt_of_def intro!: full_inv_await)

lemma full_inv_media_ready:
  assumes "full_inv W s" and "cont_ok W s (KMedia f sec salt i)"
  shows "full_inv W (media_ready W f sec salt i s)"
proof -
  have "same_session s (postMessage m (ensureWorker s))" for m
    by (simp add: same_session_def prim_defs)
  then have "full_inv W (postMessage m (ensureWorker s))" for m
    by (intro full_inv_calm [OF assms(1)] session_inv_same [OF _ full_inv_session [OF assms(1)]])
      (simp_all add: calm_def prim_defs)
  moreover have "cont_ok W (postMessage m (ensureWorker s)) k" if "cont_ok W s k" for m k
  proof -
    have "fin_of (postMessage m (ensureWorker s)) = fin_of s"
      by (simp add: fin_of_def commit_in_use_def prim_defs)
    then show ?thesis using that by (simp add: cont_ok_def) (simp add: prim_defs)
  qed
  moreover have "cont_ok W s (KMedia f sec salt (i + 1))" "cont_ok W s (KChat f sec salt)"
    using assms(2) by (simp_all add: cont_ok_def)
  ultimately show ?thesis
    using assms(1) by (simp add: media_ready_def Let_def full_inv_await)
qed

lemma cont_ok_current:
  assumes "cont_ok W s k" and "cont_fin k = Some f" and "f_gen f = generation s"
  shows "fin_of s = Some f"
  using assms by (simp add: cont_ok_def)

lemma derived_Some_iff:
  "fin_of s = Some f \<Longrightarrow> secret_of W f = Some sec \<Longrightarrow>
   derived W s g (Some x) \<longleftrightarrow> x = g sec (salt_of W (my_id s) f) f"
  by (simp add: derived_def)

lemma full_inv_chat_ready:
  assumes i: "full_inv W s" and k: "cont_ok W s (KChat f sec salt)"
  shows "full_inv W (chat_ready W f sec salt s)"
proof (cases "f_gen f = generation s")
  case True
  let ?t = "setWorkerMode False (s\<lparr>chatSendKey := Some (deriveChatKey W sec salt (my_id s)),
    chatRecvKey := Some (deriveChatKey W sec salt (f_peer f)), chatSendSeq := 0, chatRecvSeq := -1\<rparr>)"
  have f: "fin_of s = Some f" using cont_ok_current [OF k _ True] by simp
  have sec: "secret_of W f = Some sec" "salt = salt_of W (my_id s) f" using k by (simp_all add: cont_ok_def)
  have fin: "fin_of ?t = fin_of s" and id: "my_id ?t = my_id s"
    by (simp_all add: fin_of_def commit_in_use_def prim_defs)
  have c: "cont_ok W ?t k' = cont_ok W s k'" for k'
    by (simp add: cont_ok_def fin) (simp add: prim_defs)
  have "data_inv W ?t"
    using i by (simp add: full_inv_def session_inv_def data_inv_def prim_defs)
  moreover have "link_inv W ?t"
    using i
    by (simp add: full_inv_def session_inv_def link_inv_def c derived_cong [OF fin id])
      (simp add: prim_defs sec(2) derived_Some_iff [OF f sec(1)])
  ultimately have "full_inv W ?t"
    using i by (simp add: full_inv_def session_inv_def user_inv_def) (simp add: prim_defs)
  moreover have "cont_ok W ?t (KSas f sec salt)"
    using k by (simp only: c) (simp add: cont_ok_def)
  ultimately show ?thesis using True by (simp add: chat_ready_def Let_def full_inv_await)
next
  case False
  then show ?thesis using i by (simp add: chat_ready_def)
qed

lemma full_inv_sas_ready:
  assumes i: "full_inv W s" and k: "cont_ok W s (KSas f sec salt)"
  shows "full_inv W (sas_ready W f sec salt s)"
proof (cases "f_gen f = generation s")
  case True
  let ?t = "sas_ready W f sec salt s"
  have f: "fin_of s = Some f" using cont_ok_current [OF k _ True] by simp
  have sec: "secret_of W f = Some sec" "salt = salt_of W (my_id s) f" using k by (simp_all add: cont_ok_def)
  have fin: "fin_of ?t = fin_of s" and id: "my_id ?t = my_id s"
    by (simp_all add: fin_of_def commit_in_use_def prim_defs sas_ready_def Let_def)
  have c: "cont_ok W ?t k' = cont_ok W s k'" for k'
    by (simp add: cont_ok_def fin) (simp add: prim_defs sas_ready_def Let_def)
  have "data_inv W ?t"
    using i by (simp add: full_inv_def session_inv_def data_inv_def prim_defs sas_ready_def Let_def)
  moreover have "link_inv W ?t"
    using i
    by (simp add: full_inv_def session_inv_def link_inv_def c derived_cong [OF fin id])
      (simp add: prim_defs sas_ready_def Let_def True sec(2) derived_Some_iff [OF f sec(1)])
  ultimately show ?thesis
    using i True by (simp add: full_inv_def session_inv_def user_inv_def)
      (simp add: prim_defs sas_ready_def Let_def)
next
  case False
  then show ?thesis using i by (simp add: sas_ready_def)
qed

lemma full_inv_run_cont: "full_inv W s \<Longrightarrow> cont_ok W s k \<Longrightarrow> full_inv W (run_cont W k s)"
  by (cases k) (simp_all add: full_inv_onMessage2 full_inv_hash_ready full_inv_agree_ready
      full_inv_transcript_ready full_inv_media_ready full_inv_chat_ready full_inv_sas_ready)

lemma full_inv_neutral_change:
  assumes "full_inv W s" and "same_session s t" and "users t = users s"
    and "state t = Established \<Longrightarrow> state s = Established"
  shows "full_inv W t"
  using assms session_inv_same [OF assms(2)]
  by (auto simp: full_inv_def user_inv_def same_session_def)

lemma full_inv_attachSender: "full_inv W s \<Longrightarrow> full_inv W (fst (attachSender w s))"
  by (erule full_inv_neutral_change)
    (auto simp: attachSender_def same_session_def downgrade_def prim_defs Let_def split: option.splits if_splits)

lemma full_inv_continueInClear: "full_inv W s \<Longrightarrow> full_inv W (continueInClear s)"
  by (erule full_inv_neutral_change)
    (auto simp: continueInClear_def same_session_def prim_defs split: if_splits)

lemma full_inv_timer_fires: "full_inv W s \<Longrightarrow> full_inv W (timer_fires s)"
  by (erule full_inv_neutral_change)
    (auto simp: timer_fires_def same_session_def prim_defs Let_def split: option.splits if_splits)

lemma full_inv_attachReceiver: "full_inv W s \<Longrightarrow> full_inv W (attachReceiver s)"
  by (erule full_inv_neutral_change)
    (auto simp: attachReceiver_def same_session_def prim_defs split: if_splits)

lemma full_inv_setRequire:
  assumes "full_inv W s"
  shows "full_inv W (setRequire r s)"
  unfolding setRequire_def
proof (rule full_inv_recompute)
  show "session_inv W (s\<lparr>require := r\<rparr>)"
    by (rule session_inv_same [OF _ full_inv_session [OF assms]]) (simp add: same_session_def)
qed (use assms in \<open>auto simp: full_inv_def user_inv_def\<close>)

lemma full_inv_addUser:
  assumes "full_inv W s"
  shows "full_inv W (addUser i s)"
proof -
  have "full_inv W (recompute (s\<lparr>users := us\<rparr>))" if "us = users s \<or> us = users s @ [i]" for us
  proof (rule full_inv_recompute)
    show "session_inv W (s\<lparr>users := us\<rparr>)"
      by (rule session_inv_same [OF _ full_inv_session [OF assms]]) (simp add: same_session_def)
  qed (use assms that in \<open>auto simp: full_inv_def user_inv_def\<close>)
  then show ?thesis using assms by (simp add: addUser_def)
qed

lemma full_inv_delUser:
  assumes i: "full_inv W s"
  shows "full_inv W (delUser i s)"
proof -
  let ?u = "s\<lparr>users := filter (\<lambda>u. u \<noteq> i) (users s)\<rparr>"
  have u: "session_inv W ?u"
    by (rule session_inv_same [OF _ full_inv_session [OF i]]) (simp add: same_session_def)
  have "full_inv W (recompute ?u)" if "peer s \<noteq> Some i"
    by (rule full_inv_recompute [OF u]) (use i that in \<open>auto simp: full_inv_def user_inv_def\<close>)
  moreover have "full_inv W (recompute (resetPeer ?u))"
    by (rule full_inv_recompute) (use u in simp_all)
  ultimately show ?thesis by (simp add: delUser_def Let_def)
qed

lemma full_inv_take_pending: "full_inv W s \<Longrightarrow> full_inv W (take_pending n s)"
  by (simp add: full_inv_def user_inv_def)

lemma cont_ok_take_pending: "cont_ok W (take_pending n s) k = cont_ok W s k"
  by (simp add: cont_ok_def)

lemma keys_ready_fields:
  "peer (keys_ready W p g c priv pub s) = peer s" "users (keys_ready W p g c priv pub s) = users s"
  "state (keys_ready W p g c priv pub s) = state s" "sas (keys_ready W p g c priv pub s) = sas s"
  by (simp_all add: keys_ready_def Let_def)

lemma full_inv_step: "full_inv W s \<Longrightarrow> full_inv W (step W s e)"
proof -
  assume i: "full_inv W s"
  show ?thesis
  proof (cases e)
    case (KeysReady n priv pub)
    have "full_inv W (keys_ready W p g c priv pub (take_pending n s))"
      if "n < length (pending s)" "pending s ! n = KStart p g c" for p g c
      using session_inv_keys_ready [OF full_inv_session [OF i] that]
        full_inv_take_pending [OF i, of n]
      by (simp add: full_inv_def user_inv_def keys_ready_fields)
    then show ?thesis using i KeysReady by (simp split: cont.split)
  next
    case (Resume n)
    have "full_inv W (run_cont W (pending s ! n) (take_pending n s))" if "n < length (pending s)"
    proof (rule full_inv_run_cont)
      show "cont_ok W (take_pending n s) (pending s ! n)"
        using i nth_mem [OF that]
        by (simp add: cont_ok_take_pending full_inv_def session_inv_def link_inv_def)
    qed (use i in \<open>simp add: full_inv_take_pending\<close>)
    then show ?thesis using i Resume by (auto simp del: run_cont.simps split: cont.split)
  qed (use i in \<open>simp_all add: full_inv_setRequire full_inv_addUser full_inv_delUser
      full_inv_onMessage full_inv_continueInClear full_inv_attachSender full_inv_attachReceiver
      full_inv_timer_fires\<close>)
qed

interpretation controller_session: machine "step W" "full_inv W"
  by unfold_locales (rule full_inv_step)

lemma full_inv_init: "full_inv W (e2ee_init i b)"
  by (simp add: full_inv_def session_inv_def data_inv_def link_inv_def derived_def user_inv_def
      e2ee_init_def)

section \<open>What is established\<close>

text \<open>The handshake as the two sides have to see it: the initiator has the smaller id, and the
  commitment is that of the responder's key.\<close>

definition session_handshake ::
  "('priv, 'pub, 'key) webcrypto \<Rightarrow> uid \<Rightarrow> uid \<Rightarrow> byte list \<Rightarrow> byte list \<Rightarrow> handshake" where
  "session_handshake W me p mine theirs =
     (if me < p
      then \<lparr>initiatorId = me, responderId = p, hs_commit = commit W theirs,
            initiatorPub = mine, responderPub = theirs\<rparr>
      else \<lparr>initiatorId = p, responderId = me, hs_commit = commit W mine,
            initiatorPub = theirs, responderPub = mine\<rparr>)"

lemma fin_handshake_session:
  assumes "data_inv W s" and "fin_of s = Some f"
  shows "fin_handshake (my_id s) f =
    session_handshake W (my_id s) (f_peer f) (f_myPub f) (f_peerPub f)"
  using assms
  by (auto simp: fin_of_Some_iff data_inv_def fin_handshake_def session_handshake_def role_of_def
      commit_in_use_def)

lemma established_data:
  assumes "full_inv W s" and "state s = Established"
  obtains p priv mine theirs sec where "users s = [p]" "peer s = Some p" "keyPair s = Some priv"
    "myPub s = Some mine" "peerPub s = Some theirs"
    "map_option (wc_ecdh W priv) (wc_import_pub W theirs) = Some sec"
    "sas s = Some (deriveSAS W sec (transcript W (session_handshake W (my_id s) p mine theirs)))"
proof -
  obtain x where "sas s = Some x" using assms by (auto simp: full_inv_def)
  then obtain f sec where f: "fin_of s = Some f" and sec: "secret_of W f = Some sec"
    and x: "sas s = Some (deriveSAS W sec (salt_of W (my_id s) f))"
    using assms(1) by (auto simp: full_inv_def session_inv_def link_inv_def derived_def)
  have "fin_handshake (my_id s) f =
      session_handshake W (my_id s) (f_peer f) (f_myPub f) (f_peerPub f)"
    using assms(1) f by (intro fin_handshake_session) (simp_all add: full_inv_def session_inv_def)
  then show ?thesis
    using that [of "f_peer f" "f_priv f" "f_myPub f" "f_peerPub f" sec] f sec x assms(1)
    by (simp add: fin_of_Some_iff secret_of_def salt_of_def full_inv_def user_inv_def)
qed

text \<open>A run of each side against the other, with the sample cryptography.\<close>

definition msg :: "body \<Rightarrow> payload" where
  "msg b = \<lparr>p_v = Some PROTOCOL_VERSION, p_t = b\<rparr>"

definition initiator_run :: "(byte list, byte list) event list" where
  "initiator_run =
     [AddUser (js ''b''), KeysReady 0 [1] [1], Incoming (js ''b'') (msg (CommitMsg (b64 [2]))),
      Incoming (js ''b'') (msg (DhMsg (b64 [2])))] @ replicate 9 (Resume 0)"

definition responder_run :: "(byte list, byte list) event list" where
  "responder_run =
     [AddUser (js ''a''), KeysReady 0 [2] [2], Incoming (js ''a'') (msg Hello),
      Incoming (js ''a'') (msg (DhMsg (b64 [1])))] @ replicate 8 (Resume 0)"

abbreviation initiator_state :: "(byte list, byte list) e2ee" where
  "initiator_state \<equiv> run sample_crypto (e2ee_init (js ''a'') True) initiator_run"

abbreviation responder_state :: "(byte list, byte list) e2ee" where
  "responder_state \<equiv> run sample_crypto (e2ee_init (js ''b'') True) responder_run"

lemmas method_defs =
  prim_defs e2ee_init_def addUser_def delUser_def recompute_def startWith_def begin_session_def
  resetPeer_def resume_caller_def keys_ready_def take_pending_def onMessage_def onMessage2_def
  on_commit_def on_dh_def hash_ready_def finalize_def agree_ready_def transcript_ready_def
  media_ready_def chat_ready_def sas_ready_def canEncrypt_def downgrade_def Let_def fail_def
  unb64_b64 bytesEqual_iff msg_def setRequire_def

lemma sample_ids: "js ''a'' < js ''b''" "\<not> js ''b'' < js ''a''" "js ''a'' \<noteq> js ''b''" "js ''b'' \<noteq> js ''a''"
  by (simp_all add: js_def)

lemma sample_simps:
  "wc_import_pub sample_crypto q = Some q" "wc_export_pub sample_crypto r = r"
  "commit sample_crypto c = c" "wc_ecdh sample_crypto p q = map2 (+) p q"
  by (simp_all add: sample_crypto_def commit_def)

lemma initiator_run_state:
  "state initiator_state = Established \<and> peer initiator_state = Some (js ''b'') \<and>
   myPub initiator_state = Some [1] \<and> peerPub initiator_state = Some [2] \<and>
   keyPair initiator_state = Some [1] \<and> my_id initiator_state = js ''a''"
  by (simp add: initiator_run_def method_defs sample_ids sample_simps eval_nat_numeral)

lemma responder_run_state:
  "state responder_state = Established \<and> peer responder_state = Some (js ''a'') \<and>
   myPub responder_state = Some [2] \<and> peerPub responder_state = Some [1] \<and>
   keyPair responder_state = Some [2] \<and> my_id responder_state = js ''b''"
  by (simp add: responder_run_def method_defs sample_ids sample_simps eval_nat_numeral)

text \<open>
  C3: in every reachable state that says \<open>established\<close> there is exactly one other participant, the
  keys in use belong to the session with that participant, and the authentication string is
  derived from the agreed secret over a handshake whose commitment opens to the responder's key.
\<close>

theorem established_session:
  assumes "s = run W (e2ee_init i can) es" and "state s = Established"
  shows "\<exists>p priv mine theirs sec.
    users s = [p] \<and> peer s = Some p \<and> keyPair s = Some priv \<and> myPub s = Some mine \<and>
    peerPub s = Some theirs \<and>
    map_option (wc_ecdh W priv) (wc_import_pub W theirs) = Some sec \<and>
    sas s = Some (deriveSAS W sec (transcript W (session_handshake W (my_id s) p mine theirs)))"
proof -
  have "full_inv W s"
    unfolding assms(1) by (rule controller_session.run_inv) (rule full_inv_init)
  then show ?thesis using assms(2) by (rule established_data) blast
qed

theorem established_session_witness:
  "\<exists>p priv mine theirs sec.
    users initiator_state = [p] \<and> peer initiator_state = Some p \<and>
    keyPair initiator_state = Some priv \<and> myPub initiator_state = Some mine \<and>
    peerPub initiator_state = Some theirs \<and>
    map_option (wc_ecdh sample_crypto priv) (wc_import_pub sample_crypto theirs) = Some sec \<and>
    sas initiator_state = Some (deriveSAS sample_crypto sec
      (transcript sample_crypto (session_handshake sample_crypto (my_id initiator_state) p mine theirs)))"
  by (rule established_session [OF refl]) (simp only: initiator_run_state)

text \<open>
  C9: two reachable controllers that are established with each other, each holding the other's
  public key, show the same authentication string, and what one seals the chat with is what the
  other opens it with.
\<close>

theorem sas_agreement:
  assumes "s = run W (e2ee_init i b) es" and "t = run W (e2ee_init j c) ds"
    and "state s = Established" and "state t = Established"
    and "peer s = Some (my_id t)" and "peer t = Some (my_id s)" and "my_id s \<noteq> my_id t"
    and "peerPub s = myPub t" and "peerPub t = myPub s"
    and dh: "\<And>p q a b. keyPair s = Some p \<Longrightarrow> keyPair t = Some q \<Longrightarrow> myPub s = Some a \<Longrightarrow>
      myPub t = Some b \<Longrightarrow>
      map_option (wc_ecdh W p) (wc_import_pub W b) = map_option (wc_ecdh W q) (wc_import_pub W a)"
  shows "sas s = sas t"
proof -
  have fs: "full_inv W s" unfolding assms(1) by (rule controller_session.run_inv) (rule full_inv_init)
  have ft: "full_inv W t" unfolding assms(2) by (rule controller_session.run_inv) (rule full_inv_init)
  obtain p where s: "peer s = Some p"
    and "\<exists>priv mine theirs sec. keyPair s = Some priv \<and> myPub s = Some mine \<and> peerPub s = Some theirs \<and>
      map_option (wc_ecdh W priv) (wc_import_pub W theirs) = Some sec \<and>
      sas s = Some (deriveSAS W sec (transcript W (session_handshake W (my_id s) p mine theirs)))"
    by (rule established_data [OF fs assms(3)]) blast
  then obtain priv mine theirs sec where s': "keyPair s = Some priv" "myPub s = Some mine"
    "peerPub s = Some theirs" "map_option (wc_ecdh W priv) (wc_import_pub W theirs) = Some sec"
    "sas s = Some (deriveSAS W sec (transcript W (session_handshake W (my_id s) p mine theirs)))"
    by blast
  obtain q where t: "peer t = Some q"
    and "\<exists>priv mine theirs sec. keyPair t = Some priv \<and> myPub t = Some mine \<and> peerPub t = Some theirs \<and>
      map_option (wc_ecdh W priv) (wc_import_pub W theirs) = Some sec \<and>
      sas t = Some (deriveSAS W sec (transcript W (session_handshake W (my_id t) q mine theirs)))"
    by (rule established_data [OF ft assms(4)]) blast
  then obtain priv' mine' theirs' sec' where t': "keyPair t = Some priv'" "myPub t = Some mine'"
    "peerPub t = Some theirs'" "map_option (wc_ecdh W priv') (wc_import_pub W theirs') = Some sec'"
    "sas t = Some (deriveSAS W sec' (transcript W (session_handshake W (my_id t) q mine' theirs')))"
    by blast
  have eqs: "p = my_id t" "q = my_id s" "mine' = theirs" "theirs' = mine"
    using s s' t t' assms(5,6,8,9) by simp_all
  have "Some sec' = Some sec"
    using dh [OF s'(1) t'(1) s'(2) t'(2)] s'(4) t'(4) unfolding eqs by simp
  then have "sec' = sec" by simp
  moreover have "session_handshake W (my_id t) q mine' theirs' = session_handshake W (my_id s) p mine theirs"
    using assms(7) by (auto simp: session_handshake_def eqs)
  ultimately show ?thesis using s' t' by simp
qed

theorem sas_agreement_witness: "sas initiator_state = sas responder_state"
proof (rule sas_agreement [OF refl refl])
  show "state initiator_state = Established" "state responder_state = Established"
    "peer initiator_state = Some (my_id responder_state)"
    "peer responder_state = Some (my_id initiator_state)"
    "my_id initiator_state \<noteq> my_id responder_state"
    "peerPub initiator_state = myPub responder_state"
    "peerPub responder_state = myPub initiator_state"
    by (simp_all only: initiator_run_state responder_run_state sample_ids not_False_eq_True)
  fix p q a b
  assume "keyPair initiator_state = Some p" "keyPair responder_state = Some q"
    "myPub initiator_state = Some a" "myPub responder_state = Some b"
  then have "p = [1]" "q = [2]" "a = [1]" "b = [2]"
    by (simp_all only: initiator_run_state responder_run_state option.inject)
  then show "map_option (wc_ecdh sample_crypto p) (wc_import_pub sample_crypto b) =
      map_option (wc_ecdh sample_crypto q) (wc_import_pub sample_crypto a)"
    by (simp add: sample_simps)
qed

text \<open>
  When the two sides hold different keys, what they hash differs, so an attacker between them
  has to make two different texts meet in the comparison of the strings.
\<close>

theorem tampered_keys_show:
  assumes "short_fields (session_handshake W i j a b')" "short_fields (session_handshake W j i b a')"
    and "ascii i" "ascii j" and "i \<noteq> j" and "a \<noteq> a' \<or> b \<noteq> b'"
  shows "transcript_bytes (session_handshake W i j a b') \<noteq>
    transcript_bytes (session_handshake W j i b a')"
proof
  assume "transcript_bytes (session_handshake W i j a b') =
    transcript_bytes (session_handshake W j i b a')"
  then have "session_handshake W i j a b' = session_handshake W j i b a'"
    by (rule transcript_bytes_inject)
      (use assms in \<open>auto simp: ascii_ids_def session_handshake_def\<close>)
  then show False using assms(5,6) by (auto simp: session_handshake_def split: if_splits)
qed

theorem tampered_keys_show_witness:
  "transcript_bytes (session_handshake sample_crypto (js ''a'') (js ''b'') [1] [3]) \<noteq>
   transcript_bytes (session_handshake sample_crypto (js ''b'') (js ''a'') [2] [4])"
proof (rule tampered_keys_show)
  show a: "ascii (js ''a'')" and b: "ascii (js ''b'')" by (simp_all add: ascii_def js_def)
  show "short_fields (session_handshake sample_crypto (js ''a'') (js ''b'') [1] [3])"
    "short_fields (session_handshake sample_crypto (js ''b'') (js ''a'') [2] [4])"
    by (simp_all add: session_handshake_def sample_ids sample_simps short_fields_def field_list_def
        short_def utf8_ascii [OF a] utf8_ascii [OF b]) (simp_all add: js_def)
qed (simp_all add: sample_ids)

section \<open>What the mode of the worker says\<close>

text \<open>C24: the worker passes frames in the clear only while the page says the call is not encrypted, or
  in the window described next.\<close>

theorem clear_mode_is_shown:
  assumes "worker_clear (run W (e2ee_init i can) es)"
  shows "state (run W (e2ee_init i can) es) \<in> {Unencrypted, Established}"
  using controller_mode.run_inv [OF mode_inv_init, of W i can es] assms
  by (simp add: mode_inv_def)

text \<open>
  The window: a message that says the peer does not encrypt arrives while the last derivation of
  \<open>finalize\<close> is under way. It puts the worker in clear mode without ending the session, and
  the rest of \<open>finalize\<close> then shows the call as established.
\<close>

definition late_refusal_run :: "(byte list, byte list) event list" where
  "late_refusal_run =
     take 12 initiator_run @
     [Incoming (js ''b'') \<lparr>p_v = None, p_t = NoCrypto\<rparr>, Resume 0]"

text \<open>A refusal that arrives during the last derivation leaves an established call whose
  worker forwards frames in the clear.\<close>

theorem established_in_clear:
  "state (run sample_crypto (e2ee_init (js ''a'') True) late_refusal_run) = Established \<and>
   worker_clear (run sample_crypto (e2ee_init (js ''a'') True) late_refusal_run)"
  by (simp add: late_refusal_run_def initiator_run_def method_defs sample_ids sample_simps
      eval_nat_numeral worker_clear_def)

text \<open>
  A group that starts to require encryption while the peer has refused it: the page goes on showing
  \<open>unencrypted\<close>, and the worker goes on passing frames in the clear.
\<close>

definition late_require_run :: "(byte list, byte list) event list" where
  "late_require_run =
     [AddUser (js ''b''), KeysReady 0 [1] [1],
      Incoming (js ''b'') \<lparr>p_v = None, p_t = NoCrypto\<rparr>, SetRequire True]"

text \<open>Requiring encryption after the peer refused it leaves the call unencrypted and in the
  clear.\<close>

theorem required_in_clear:
  "require (run sample_crypto (e2ee_init (js ''a'') True) late_require_run) \<and>
   state (run sample_crypto (e2ee_init (js ''a'') True) late_require_run) = Unencrypted \<and>
   worker_clear (run sample_crypto (e2ee_init (js ''a'') True) late_require_run)"
  by (simp add: late_require_run_def method_defs sample_ids sample_simps eval_nat_numeral
      worker_clear_def)

theorem clear_mode_is_shown_witness:
  "state (run sample_crypto (e2ee_init (js ''a'') True) late_require_run) \<in> {Unencrypted, Established}"
  by (rule clear_mode_is_shown)
    (simp add: late_require_run_def method_defs sample_ids sample_simps eval_nat_numeral
      worker_clear_def)

text \<open>The policy theorems of E2eeSafety at concrete states.\<close>

lemma initiator_policy: "wasEncrypted initiator_state \<and> \<not> clearAgreed initiator_state"
  by (simp add: initiator_run_def method_defs sample_ids sample_simps eval_nat_numeral)

theorem no_clear_without_consent_witness:
  "\<exists>ps. posted (run sample_crypto initiator_state
            [DelUser (js ''b''), AddUser (js ''b''), Incoming (js ''b'') \<lparr>p_v = None, p_t = NoCrypto\<rparr>]) =
          posted initiator_state @ ps \<and> WMode True \<notin> set ps"
  by (rule no_clear_without_consent) (simp_all only: initiator_policy, simp_all)

theorem no_clear_while_required_witness:
  "\<exists>ps. posted (run sample_crypto
            ((e2ee_init (js ''a'') True :: (byte list, byte list) e2ee)\<lparr>require := True\<rparr>)
            [AddUser (js ''b''), Incoming (js ''b'') \<lparr>p_v = None, p_t = NoCrypto\<rparr>, ContinueInClear]) =
          posted ((e2ee_init (js ''a'') True :: (byte list, byte list) e2ee)\<lparr>require := True\<rparr>) @ ps \<and>
          WMode True \<notin> set ps"
  by (rule no_clear_while_required) simp_all

end
