(* ===== verification/Chat.thy ===== *)
theory Chat
  imports E2eeSession
begin

text \<open>
  The chat half of static/e2ee.js. Sending and receiving each go through a queue that runs one job
  at a time; a job awaits the cryptography once, and the state is checked again after that. The
  rest of the controller may run at any point between.
\<close>

section \<open>One completion per session\<close>

text \<open>
  A session is completed by one run of \<open>finalize\<close>, and once it has set the chat keys only its last
  part is left. Otherwise a second completion would set the sequence numbers back.
\<close>

definition chain_of :: "nat \<Rightarrow> 'priv cont list \<Rightarrow> 'priv cont list" where
  "chain_of g ks = filter (\<lambda>k. case cont_fin k of None \<Rightarrow> False | Some f \<Rightarrow> f_gen f = g) ks"

fun is_last :: "'priv cont \<Rightarrow> bool" where
  "is_last (KSas _ _ _) = True"
| "is_last _ = False"

lemma chain_of_simps [simp]:
  "chain_of g [] = []"
  "chain_of g (ks @ ls) = chain_of g ks @ chain_of g ls"
  "chain_of g (k # ks) =
     (case cont_fin k of None \<Rightarrow> [] | Some f \<Rightarrow> if f_gen f = g then [k] else []) @ chain_of g ks"
  by (simp_all add: chain_of_def split: option.split)

definition chat_fields :: "('priv, 'key) e2ee \<Rightarrow> 'key option \<times> 'key option \<times> nat \<times> int" where
  "chat_fields s = (chatSendKey s, chatRecvKey s, chatSendSeq s, chatRecvSeq s)"

definition chain_inv :: "('priv, 'key) e2ee \<Rightarrow> bool" where
  "chain_inv s \<longleftrightarrow>
     length (chain_of (generation s) (pending s)) \<le> 1 \<and>
     (chatSendKey s = None \<longleftrightarrow> chatRecvKey s = None) \<and>
     (chatSendKey s = None \<longrightarrow> chatSendSeq s = 0 \<and> chatRecvSeq s = -1) \<and>
     (chatSendKey s \<noteq> None \<longrightarrow> list_all is_last (chain_of (generation s) (pending s)))"

text \<open>A change that neither completes a session nor brings one nearer to completion.\<close>

definition aside :: "('priv, 'key) e2ee \<Rightarrow> ('priv, 'key) e2ee \<Rightarrow> bool" where
  "aside s t \<longleftrightarrow>
     generation s \<le> generation t \<and>
     (\<forall>g. chain_of g (pending t) = chain_of g (pending s)) \<and>
     (generation t = generation s \<longrightarrow> chat_fields t = chat_fields s) \<and>
     (generation s < generation t \<longrightarrow> chat_fields t = (None, None, 0, -1))"

lemma aside_refl [simp]: "aside s s"
  by (simp add: aside_def)

lemma aside_trans: "aside s t \<Longrightarrow> aside t u \<Longrightarrow> aside s u"
  by (auto simp: aside_def)

lemma chain_newer:
  assumes "full_inv W s" and "generation s < g"
  shows "chain_of g (pending s) = []"
proof -
  have "f_gen f \<noteq> g" if "k \<in> set (pending s)" "cont_fin k = Some f" for k f
    using assms that by (fastforce simp: full_inv_def session_inv_def link_inv_def cont_ok_def)
  then show ?thesis by (auto simp: chain_of_def filter_empty_conv split: option.split)
qed

lemma chain_none:
  assumes "full_inv W s" and "fin_of s = None"
  shows "chain_of (generation s) (pending s) = [] \<and> chatSendKey s = None \<and> chatRecvKey s = None"
proof -
  have "f_gen f \<noteq> generation s" if "k \<in> set (pending s)" "cont_fin k = Some f" for k f
    using assms that by (fastforce simp: full_inv_def session_inv_def link_inv_def cont_ok_def)
  then have "chain_of (generation s) (pending s) = []"
    by (auto simp: chain_of_def filter_empty_conv split: option.split)
  moreover have "chatSendKey s = None" "chatRecvKey s = None"
    using assms by (auto simp: full_inv_def session_inv_def link_inv_def derived_def)
  ultimately show ?thesis by simp
qed

lemma chain_inv_aside:
  assumes "full_inv W s" and "chain_inv s" and "aside s t"
  shows "chain_inv t"
proof (cases "generation t = generation s")
  case True
  then show ?thesis using assms(2,3) by (auto simp: chain_inv_def aside_def chat_fields_def)
next
  case False
  then have "generation s < generation t" using assms(3) by (simp add: aside_def)
  then show ?thesis
    using assms(3) chain_newer [OF assms(1)] by (simp add: chain_inv_def aside_def chat_fields_def)
qed

lemma aside_same:
  "generation t = generation s \<Longrightarrow> pending t = pending s \<Longrightarrow> chat_fields t = chat_fields s \<Longrightarrow> aside s t"
  by (simp add: aside_def)

lemma aside_send: "aside s t \<Longrightarrow> aside s (send b t)"
  by (rule aside_trans, assumption, rule aside_same)
    (simp_all add: send_def chat_fields_def split: option.split)

lemma aside_downgrade: "aside s t \<Longrightarrow> aside s (downgrade r t)"
  by (rule aside_trans, assumption, rule aside_same)
    (simp_all add: downgrade_def chat_fields_def prim_defs)

lemma aside_setState: "aside s t \<Longrightarrow> aside s (setState st d t)"
  by (rule aside_trans, assumption, rule aside_same)
    (simp_all add: chat_fields_def prim_defs)

lemma aside_resetPeer: "aside s (resetPeer s)"
  by (simp add: aside_def resetPeer_def prim_defs chat_fields_def)

lemma aside_fail: "aside s (fail d s)"
  by (simp add: aside_def fail_def prim_defs chat_fields_def)

lemma aside_await: "cont_fin k = None \<Longrightarrow> aside s (await k s)"
  by (simp add: aside_def await_def chat_fields_def)

lemma aside_resume_caller: "aside s t \<Longrightarrow> aside s (resume_caller c t)"
  by (rule aside_trans, assumption) (simp add: resume_caller_def aside_await split: option.split prod.split)

lemma aside_begin_session: "aside s (begin_session p c s)"
proof -
  have "chatSendSeq (begin_session p c s) = 0" "chatRecvSeq (begin_session p c s) = -1"
    by (simp_all add: begin_session_def resetPeer_def prim_defs Let_def)
  then show ?thesis by (simp add: aside_def begin_session_fields chat_fields_def)
qed

lemma aside_startWith: "aside s (startWith p c s)"
  by (simp add: startWith_def aside_begin_session aside_resume_caller)

lemma aside_set: "aside s (s\<lparr>peer := q\<rparr>)" "aside s (s\<lparr>peer := q, peerSupports := b\<rparr>)"
  "aside s (s\<lparr>users := us\<rparr>)" "aside s (s\<lparr>require := r\<rparr>)" "aside s (s\<lparr>peerCommit := c\<rparr>)"
  "aside s (s\<lparr>peerPub := c\<rparr>)" "aside s (s\<lparr>secret := c\<rparr>)"
  by (rule aside_same; simp add: chat_fields_def)+

lemmas aside_intros =
  aside_send aside_downgrade aside_setState aside_resetPeer aside_fail aside_await
  aside_resume_caller aside_begin_session aside_startWith aside_set aside_refl

lemma aside_recompute: "aside s (recompute s)"
  unfolding recompute_def Let_def announceNoCrypto_def
  by (simp add: aside_intros split: list.split)

lemma aside_setRequire: "aside s (setRequire r s)"
  unfolding setRequire_def by (rule aside_trans [OF aside_set(4) aside_recompute])

lemma aside_addUser: "aside s (addUser i s)"
  unfolding addUser_def by (simp add: aside_trans [OF aside_set(3) aside_recompute])

lemma aside_delUser: "aside s (delUser i s)"
  unfolding delUser_def Let_def
  by (simp add: aside_trans [OF aside_set(3) aside_recompute]
      aside_trans [OF aside_trans [OF aside_set(3) aside_resetPeer] aside_recompute])

lemma aside_on_commit: "aside s (on_commit c s)"
  by (simp add: on_commit_def Let_def aside_intros split: option.split)

lemma aside_keys_ready: "aside s (keys_ready W p g c priv pub s)"
proof -
  have "aside s (s\<lparr>keyPair := k, myPub := m, myCommit := d, startingFor := None\<rparr>)" for k m d
    by (rule aside_same) (simp_all add: chat_fields_def)
  then show ?thesis by (simp add: keys_ready_def Let_def aside_intros)
qed

text \<open>\<open>finalize\<close> starts a completion only from a session that has none.\<close>

lemma chain_inv_finalize:
  assumes i: "full_inv W s" "chain_inv s" and "fin_of s = None"
    and t: "aside s t" "generation t = generation s"
  shows "chain_inv (finalize t)"
proof -
  have "chain_of (generation t) (pending t) = []" "chatSendKey t = None" "chatRecvKey t = None"
    "chatSendSeq t = 0" "chatRecvSeq t = -1"
    using chain_none [OF i(1) assms(3)] t i(2) by (simp_all add: aside_def chat_fields_def chain_inv_def)
  then show ?thesis
    by (simp add: finalize_alt chain_inv_def await_def split: option.split)
qed

lemma chain_inv_on_dh:
  assumes i: "full_inv W s" "chain_inv s"
  shows "chain_inv (on_dh c s)"
proof -
  have a: "aside s (s\<lparr>peerPub := q\<rparr>)" "aside s (send b (s\<lparr>peerPub := q\<rparr>))"
    "generation (send b (s\<lparr>peerPub := q\<rparr>)) = generation s" for q b
    by (simp_all add: aside_intros) (simp add: send_def split: option.split)
  have "chain_inv (finalize (case myPub s of None \<Rightarrow> s\<lparr>peerPub := q\<rparr>
      | Some mp \<Rightarrow> send (DhMsg (b64 mp)) (s\<lparr>peerPub := q\<rparr>)))" if "peerPub s = None" for q
    using that by (intro chain_inv_finalize [OF i]) (simp_all add: fin_of_def a split: option.split)
  then show ?thesis
    using i chain_inv_aside [OF i aside_fail] chain_inv_aside [OF i aside_await]
    by (simp add: on_dh_def Let_def split: option.split)
qed

lemma chain_inv_hash_ready:
  assumes i: "full_inv W s" "chain_inv s"
  shows "chain_inv (hash_ready W q s)"
proof -
  have "chain_inv (finalize (s\<lparr>peerPub := Some q\<rparr>))" if "peerPub s = None"
    using that by (intro chain_inv_finalize [OF i]) (simp_all add: fin_of_def aside_intros)
  then show ?thesis
    using i chain_inv_aside [OF i aside_fail] by (auto simp: hash_ready_def split: option.split)
qed

lemma chain_inv_onMessage2:
  assumes i: "full_inv W s" "chain_inv s"
  shows "chain_inv (onMessage2 from m s)"
  using i chain_inv_aside [OF i aside_fail] chain_inv_aside [OF i aside_on_commit]
    chain_inv_aside [OF i aside_send [OF aside_refl]] chain_inv_on_dh [OF i]
  by (simp add: onMessage2_def split: body.split)

lemma chain_inv_onMessage:
  assumes i: "full_inv W s" "chain_inv s"
  shows "chain_inv (onMessage from m s)"
proof -
  have "aside s (downgrade r (announceNoCrypto (s\<lparr>peer := q\<rparr>)))" for r q
    by (simp add: announceNoCrypto_def aside_intros)
  moreover have "aside s (downgrade r (s\<lparr>peer := q, peerSupports := b\<rparr>))" for r q b
    by (simp add: aside_intros)
  ultimately show ?thesis
    using i chain_inv_aside [OF i] chain_inv_onMessage2 [OF i]
    by (simp add: onMessage_def aside_startWith)
qed

section \<open>Every event keeps it\<close>

lemma chain_of_take_pending:
  assumes "n < length (pending s)" and "length (chain_of g (pending s)) \<le> 1"
    and "cont_fin (pending s ! n) = Some f" and "f_gen f = g"
  shows "chain_of g (pending (take_pending n s)) = []"
proof -
  have "pending s = take n (pending s) @ pending s ! n # drop (Suc n) (pending s)"
    using assms(1) by (rule id_take_nth_drop)
  then have "length (chain_of g (pending s)) =
      length (chain_of g (take n (pending s) @ pending s ! n # drop (Suc n) (pending s)))" by simp
  then show ?thesis using assms(2-4) by (simp add: take_pending_def)
qed

lemma take_pending_chat [simp]:
  "chatSendSeq (take_pending n s) = chatSendSeq s" "chatRecvSeq (take_pending n s) = chatRecvSeq s"
  by (simp_all add: take_pending_def)

lemma chain_inv_take_pending:
  assumes "chain_inv s" and "n < length (pending s)"
  shows "chain_inv (take_pending n s)"
proof -
  have "pending s = take n (pending s) @ pending s ! n # drop (Suc n) (pending s)"
    using assms(2) by (rule id_take_nth_drop)
  then have "chain_of g (pending s) =
      chain_of g (take n (pending s) @ pending s ! n # drop (Suc n) (pending s))" for g by simp
  then show ?thesis
    using assms(1) by (auto simp: chain_inv_def take_pending_def split: option.splits if_splits)
qed

text \<open>A continuation of \<open>finalize\<close> runs with no other of its session left.\<close>

lemma chain_inv_next:
  assumes "chain_inv t" and "chain_of (generation t) (pending t) = []"
    and "chatSendKey t = None \<or> is_last k"
  shows "chain_inv (await k t)"
  using assms by (auto simp: chain_inv_def await_def split: option.split)

lemma chain_inv_same_chat:
  "chain_inv s \<Longrightarrow> generation t = generation s \<Longrightarrow> pending t = pending s \<Longrightarrow>
   chat_fields t = chat_fields s \<Longrightarrow> chain_inv t"
  by (auto simp: chain_inv_def chat_fields_def)

lemma chain_inv_run_fin:
  assumes i: "full_inv W s" "chain_inv s" and n: "n < length (pending s)"
    and f: "cont_fin (pending s ! n) = Some f"
  shows "chain_inv (run_cont W (pending s ! n) (take_pending n s))"
proof (cases "f_gen f = generation s")
  case True
  let ?t = "take_pending n s"
  have t: "chain_inv ?t" by (rule chain_inv_take_pending [OF i(2) n])
  have one: "length (chain_of (generation s) (pending s)) \<le> 1" using i(2) by (simp add: chain_inv_def)
  have e: "chain_of (generation ?t) (pending ?t) = []"
    using chain_of_take_pending [OF n one f True] by simp
  have "pending s ! n \<in> set (chain_of (generation s) (pending s))"
    using n f True by (simp add: chain_of_def)
  then have key: "chatSendKey ?t = None \<or> is_last (pending s ! n)"
    using i(2) by (auto simp: chain_inv_def list_all_iff)
  have next': "chain_inv (await k u)"
    if "generation u = generation ?t" "pending u = pending ?t" "chat_fields u = chat_fields ?t"
      "chatSendKey ?t = None \<or> is_last k" for k u
    using chain_inv_next [of u k] chain_inv_same_chat [OF t that(1-3)] that e
    by (simp add: chat_fields_def)
  show ?thesis
  proof (cases "pending s ! n")
    case (KAgree g)
    then show ?thesis
      using t key by (auto simp: agree_ready_def Let_def chat_fields_def intro!: next' split: option.split)
  next
    case (KTranscript g sec)
    then show ?thesis using t key by (auto simp: transcript_ready_def intro!: next')
  next
    case (KMedia g sec salt j)
    then show ?thesis
      using t key by (auto simp: media_ready_def Let_def chat_fields_def prim_defs(1,2) intro!: next')
  next
    case (KChat g sec salt)
    then show ?thesis
      using t e f True
      by (auto simp: chat_ready_def Let_def prim_defs chain_inv_def list_all_iff split: option.splits)
  next
    case (KSas g sec salt)
    then show ?thesis
      using t f True by (auto simp: sas_ready_def Let_def prim_defs chat_fields_def
          intro!: chain_inv_same_chat [OF t])
  qed (use f in simp_all)
next
  case False
  then have "run_cont W (pending s ! n) (take_pending n s) \<in> {take_pending n s}"
    using f by (cases "pending s ! n")
      (auto simp: agree_ready_def transcript_ready_def media_ready_def chat_ready_def sas_ready_def
        Let_def split: option.split)
  then show ?thesis using chain_inv_take_pending [OF i(2) n] by simp
qed

lemma chain_inv_step:
  assumes i: "full_inv W s" "chain_inv s"
  shows "chain_inv (step W s e)"
proof (cases e)
  case (KeysReady n priv pub)
  show ?thesis
  proof (cases "n < length (pending s)")
    case True
    have "chain_inv (keys_ready W p g c priv pub (take_pending n s))" for p g c
      by (rule chain_inv_aside [OF full_inv_take_pending [OF i(1)]
            chain_inv_take_pending [OF i(2) True] aside_keys_ready])
    then show ?thesis using i(2) True KeysReady by (simp split: cont.split)
  next
    case False
    then show ?thesis using i(2) KeysReady by simp
  qed
next
  case (Resume n)
  show ?thesis
  proof (cases "n < length (pending s)")
    case True
    note t = full_inv_take_pending [OF i(1), of n] chain_inv_take_pending [OF i(2) True]
    show ?thesis
    proof (cases "cont_fin (pending s ! n)")
      case None
      then show ?thesis
        using Resume True i(2) chain_inv_onMessage2 [OF t] chain_inv_hash_ready [OF t]
        by (cases "pending s ! n") simp_all
    next
      case (Some f)
      then have "step W s e = run_cont W (pending s ! n) (take_pending n s)"
        using Resume True by (cases "pending s ! n") simp_all
      then show ?thesis using chain_inv_run_fin [OF i True Some] by simp
    qed
  next
    case False
    then show ?thesis using i(2) Resume by simp
  qed
next
  case (Incoming sender m)
  then show ?thesis using chain_inv_onMessage [OF i] by simp
next
  case ContinueInClear
  have "aside s (continueInClear s)"
    by (rule aside_same) (simp_all add: continueInClear_def prim_defs chat_fields_def)
  then show ?thesis using ContinueInClear chain_inv_aside [OF i] by simp
next
  case (AttachSender w)
  have "aside s (fst (attachSender w s))"
    by (rule aside_same)
      (simp_all add: attachSender_def downgrade_def prim_defs chat_fields_def Let_def split: option.split)
  then show ?thesis using AttachSender chain_inv_aside [OF i] by simp
next
  case AttachReceiver
  have "aside s (attachReceiver s)"
    by (rule aside_same) (simp_all add: attachReceiver_def prim_defs chat_fields_def)
  then show ?thesis using AttachReceiver chain_inv_aside [OF i] by simp
next
  case TimerFires
  have "aside s (timer_fires s)"
    by (rule aside_same) (simp_all add: timer_fires_def prim_defs chat_fields_def Let_def split: option.split)
  then show ?thesis using TimerFires chain_inv_aside [OF i] by simp
qed (simp_all add: chain_inv_aside [OF i] aside_setRequire aside_addUser aside_delUser)

text \<open>
  What an event does to the two sequence numbers: nothing while the chat keys stay, and back to
  the start with a new session.
\<close>

definition seq_effect :: "('priv, 'key) e2ee \<Rightarrow> ('priv, 'key) e2ee \<Rightarrow> bool" where
  "seq_effect s t \<longleftrightarrow>
     generation s \<le> generation t \<and>
     (generation t = generation s \<longrightarrow> chatSendKey s \<noteq> None \<longrightarrow> chat_fields t = chat_fields s) \<and>
     (generation s < generation t \<or> chatSendKey s = None \<longrightarrow> chatSendSeq t = 0 \<and> chatRecvSeq t = -1)"

lemma effect_aside: "chain_inv s \<Longrightarrow> aside s t \<Longrightarrow> seq_effect s t"
  by (auto simp: seq_effect_def aside_def chain_inv_def chat_fields_def)

lemma effect_same:
  "chain_inv s \<Longrightarrow> generation t = generation s \<Longrightarrow> chat_fields t = chat_fields s \<Longrightarrow> seq_effect s t"
  by (auto simp: seq_effect_def chain_inv_def chat_fields_def)

lemma finalize_chat [simp]:
  "generation (finalize s) = generation s" "chat_fields (finalize s) = chat_fields s"
  by (simp_all add: finalize_alt await_def chat_fields_def split: option.split)

lemma send_chat [simp]:
  "generation (send b s) = generation s" "chat_fields (send b s) = chat_fields s"
  by (simp_all add: send_def chat_fields_def split: option.split)

lemma effect_on_dh: "chain_inv s \<Longrightarrow> seq_effect s (on_dh c s)"
proof -
  assume c: "chain_inv s"
  have "chat_fields (s\<lparr>peerPub := q\<rparr>) = chat_fields s" for q by (simp add: chat_fields_def)
  then have "seq_effect s (finalize (s\<lparr>peerPub := q\<rparr>))"
    "seq_effect s (finalize (send b (s\<lparr>peerPub := q\<rparr>)))" for q b
    using c by (simp_all add: effect_same)
  then show ?thesis
    using c effect_aside [OF c aside_refl] effect_aside [OF c aside_fail]
      effect_aside [OF c aside_await]
    by (simp add: on_dh_def Let_def split: option.split)
qed

lemma effect_hash_ready: "chain_inv s \<Longrightarrow> seq_effect s (hash_ready W q s)"
proof -
  assume c: "chain_inv s"
  have "chat_fields (s\<lparr>peerPub := r\<rparr>) = chat_fields s" for r by (simp add: chat_fields_def)
  then have "seq_effect s (finalize (s\<lparr>peerPub := r\<rparr>))" for r
    using c by (simp add: effect_same)
  then show ?thesis
    using effect_aside [OF c aside_refl] effect_aside [OF c aside_fail]
    by (simp add: hash_ready_def split: option.split)
qed

lemma effect_onMessage2: "chain_inv s \<Longrightarrow> seq_effect s (onMessage2 i m s)"
  using effect_aside [of s, OF _ aside_refl] effect_aside [of s, OF _ aside_fail]
    effect_aside [of s, OF _ aside_on_commit] effect_aside [of s, OF _ aside_send [OF aside_refl]]
    effect_on_dh [of s]
  by (simp add: onMessage2_def split: body.split)

lemma effect_onMessage: "chain_inv s \<Longrightarrow> seq_effect s (onMessage i m s)"
proof -
  assume c: "chain_inv s"
  have "aside s (downgrade r (announceNoCrypto (s\<lparr>peer := q\<rparr>)))"
    "aside s (downgrade r (s\<lparr>peer := q, peerSupports := b\<rparr>))" for r q b
    by (simp_all add: announceNoCrypto_def aside_intros)
  then show ?thesis
    using effect_onMessage2 [OF c] effect_aside [OF c]
    by (simp add: onMessage_def aside_startWith)
qed

lemma effect_run_fin:
  assumes i: "full_inv W s" "chain_inv s" and n: "n < length (pending s)"
    and f: "cont_fin (pending s ! n) = Some f"
  shows "seq_effect s (run_cont W (pending s ! n) (take_pending n s))"
proof -
  have key: "chatSendKey s = None" if "pending s ! n = KChat g sec salt" "f_gen g = generation s" for g sec salt
  proof -
    have "pending s ! n \<in> set (chain_of (generation s) (pending s))"
      using nth_mem [OF n] that by (simp add: chain_of_def)
    then show ?thesis using i(2) that(1) by (auto simp: chain_inv_def list_all_iff)
  qed
  have "chat_fields (take_pending n s) = chat_fields s" by (simp add: chat_fields_def)
  then show ?thesis
    using i(2) f key
    by (cases "pending s ! n")
      (auto simp: agree_ready_def transcript_ready_def media_ready_def chat_ready_def sas_ready_def
        Let_def prim_defs chat_fields_def seq_effect_def chain_inv_def split: option.split)
qed

lemma seq_effect_step:
  assumes i: "full_inv W s" "chain_inv s"
  shows "seq_effect s (step W s e)"
proof -
  note a = effect_aside [OF i(2)]
  have tp: "seq_effect s u" if "seq_effect (take_pending n s) u" for n u
    using that by (simp add: seq_effect_def chat_fields_def)
  show ?thesis
  proof (cases e)
    case (KeysReady n priv pub)
    have "seq_effect s (keys_ready W p g c priv pub (take_pending n s))" if "n < length (pending s)" for p g c
      by (rule tp, rule effect_aside [OF chain_inv_take_pending [OF i(2) that] aside_keys_ready])
    then show ?thesis using KeysReady a [OF aside_refl] by (simp split: cont.split)
  next
    case (Resume n)
    show ?thesis
    proof (cases "n < length (pending s)")
      case True
      note t = chain_inv_take_pending [OF i(2) True]
      show ?thesis
        using Resume True a [OF aside_refl] tp [OF effect_onMessage2 [OF t]]
          tp [OF effect_hash_ready [OF t]] effect_run_fin [OF i True]
        by (cases "pending s ! n") simp_all
    next
      case False
      then show ?thesis using Resume a [OF aside_refl] by simp
    qed
  next
    case (Incoming sender m)
    then show ?thesis using effect_onMessage [OF i(2)] by simp
  next
    case ContinueInClear
    then show ?thesis
      using i(2) by (simp add: effect_same continueInClear_def prim_defs chat_fields_def)
  next
    case (AttachSender w)
    then show ?thesis
      using i(2) by (simp add: effect_same attachSender_def downgrade_def prim_defs chat_fields_def
          Let_def split: option.split)
  next
    case AttachReceiver
    then show ?thesis
      using i(2) by (simp add: effect_same attachReceiver_def prim_defs chat_fields_def)
  next
    case TimerFires
    then show ?thesis
      using i(2) by (simp add: effect_same timer_fires_def prim_defs chat_fields_def Let_def
          split: option.split)
  qed (simp_all add: a aside_setRequire aside_addUser aside_delUser)
qed

section \<open>Sending and receiving\<close>

text \<open>What a chat message carries, as the page parses it; a missing field is \<open>Undefined\<close>.\<close>

record chat_payload =
  pl_kind :: jsval
  pl_seq :: jsval
  pl_iv :: jsval
  pl_ct :: jsval

record 'key send_job =
  sj_gen :: nat
  sj_kind :: jstr
  sj_text :: jstr
  sj_peer :: uid
  sj_key :: 'key
  sj_seq :: nat

text \<open>A message being opened; the result of the decryption is already determined.\<close>

record recv_job =
  rj_gen :: nat
  rj_kind :: jstr
  rj_seq :: int
  rj_text :: "jstr option"

record chat_out =
  co_gen :: nat
  co_peer :: uid
  co_kind :: jstr
  co_seq :: nat
  co_sealed :: sealed_chat

record chat_in =
  ci_gen :: nat
  ci_seq :: int
  ci_kind :: jstr
  ci_text :: jstr
  ci_missed :: int

record ('priv, 'key) chat =
  ctl :: "('priv, 'key) e2ee"
  sendQueue :: "(nat \<times> jstr \<times> jstr) list"
  sealing_job :: "'key send_job option"
  recvQueue :: "(uid \<times> chat_payload) list"
  opening_job :: "recv_job option"
  outgoing :: "chat_out list"
  accepted :: "chat_in list"

definition chat_init :: "uid \<Rightarrow> bool \<Rightarrow> ('priv, 'key) chat" where
  "chat_init i can =
     \<lparr>ctl = e2ee_init i can, sendQueue = [], sealing_job = None, recvQueue = [], opening_job = None,
      outgoing = [], accepted = []\<rparr>"

definition canChat :: "('priv, 'key) e2ee \<Rightarrow> bool" where
  "canChat s \<longleftrightarrow> state s = Established \<and> chatSendKey s \<noteq> None \<and> peer s \<noteq> None"

text \<open>False: not encrypted, so the caller may send it as ordinary chat.\<close>

definition sendChat :: "jstr \<Rightarrow> jstr \<Rightarrow> ('priv, 'key) chat \<Rightarrow> ('priv, 'key) chat \<times> bool" where
  "sendChat kind txt c =
     (if \<not> canChat (ctl c) then (c, False)
      else (c\<lparr>sendQueue := sendQueue c @ [(generation (ctl c), kind, txt)]\<rparr>, True))"

text \<open>The head of the queue, up to the await; the rest waits for it.\<close>

definition sendChatNow :: "('priv, 'key) chat \<Rightarrow> ('priv, 'key) chat" where
  "sendChatNow c =
     (case (sealing_job c, sendQueue c) of
        (None, (gen, kind, txt) # rest) \<Rightarrow>
          let c = c\<lparr>sendQueue := rest\<rparr>; s = ctl c
          in if gen \<noteq> generation s \<or> \<not> canChat s then c
             else c\<lparr>sealing_job := Some \<lparr>sj_gen = gen, sj_kind = kind, sj_text = txt,
                     sj_peer = the (peer s), sj_key = the (chatSendKey s),
                     sj_seq = chatSendSeq s\<rparr>\<rparr>
      | _ \<Rightarrow> c)"

text \<open>After the await; a failure to seal ends the job.\<close>

definition sealed ::
  "('priv, 'pub, 'key) webcrypto \<Rightarrow> byte list \<Rightarrow> ('priv, 'key) chat \<Rightarrow> ('priv, 'key) chat" where
  "sealed W iv c =
     (case sealing_job c of
        None \<Rightarrow> c
      | Some j \<Rightarrow>
          let c = c\<lparr>sealing_job := None\<rparr>; s = ctl c
          in case encryptChat W iv (sj_key j) (sj_text j)
                    (chatAAD (my_id s) (sj_peer j) (sj_seq j) (sj_kind j)) of
               None \<Rightarrow> c
             | Some enc \<Rightarrow>
                 if sj_gen j \<noteq> generation s \<or> \<not> canChat s then c
                 else c\<lparr>ctl := s\<lparr>chatSendSeq := sj_seq j + 1\<rparr>,
                        outgoing := outgoing c @ [\<lparr>co_gen = sj_gen j, co_peer = sj_peer j,
                          co_kind = sj_kind j, co_seq = sj_seq j, co_sealed = enc\<rparr>]\<rparr>)"

text \<open>\<open>Number.isSafeInteger\<close>.\<close>

fun safe_integer :: "jsval \<Rightarrow> int option" where
  "safe_integer (JNum (Fin r)) =
     (if r = of_int \<lfloor>r\<rfloor> \<and> \<bar>\<lfloor>r\<rfloor>\<bar> \<le> 2 ^ 53 - 1 then Some \<lfloor>r\<rfloor> else None)"
| "safe_integer _ = None"

fun string_or_empty :: "jsval \<Rightarrow> jstr" where
  "string_or_empty (JStr t) = t"
| "string_or_empty _ = []"

definition decryptChatStart ::
  "('priv, 'pub, 'key) webcrypto \<Rightarrow> uid \<Rightarrow> chat_payload \<Rightarrow> ('priv, 'key) e2ee \<Rightarrow> recv_job option" where
  "decryptChatStart W sender m s =
     (case (chatRecvKey s, pl_iv m, pl_ct m, safe_integer (pl_seq m)) of
        (Some key, JStr iv, JStr ct, Some sq) \<Rightarrow>
          if state s \<noteq> Established \<or> peer s \<noteq> Some sender \<or> sq \<le> chatRecvSeq s \<or> 2 ^ 48 \<le> sq
          then None
          else let kind = string_or_empty (pl_kind m)
               in Some \<lparr>rj_gen = generation s, rj_kind = kind, rj_seq = sq,
                        rj_text = decryptChat W key iv ct (chatAAD sender (my_id s) (nat sq) kind)\<rparr>
      | _ \<Rightarrow> None)"

definition receive :: "uid \<Rightarrow> chat_payload \<Rightarrow> ('priv, 'key) chat \<Rightarrow> ('priv, 'key) chat" where
  "receive sender m c = c\<lparr>recvQueue := recvQueue c @ [(sender, m)]\<rparr>"

definition decryptChatNow ::
  "('priv, 'pub, 'key) webcrypto \<Rightarrow> ('priv, 'key) chat \<Rightarrow> ('priv, 'key) chat" where
  "decryptChatNow W c =
     (case (opening_job c, recvQueue c) of
        (None, (sender, m) # rest) \<Rightarrow>
          c\<lparr>recvQueue := rest, opening_job := decryptChatStart W sender m (ctl c)\<rparr>
      | _ \<Rightarrow> c)"

definition opened :: "('priv, 'key) chat \<Rightarrow> ('priv, 'key) chat" where
  "opened c =
     (case opening_job c of
        None \<Rightarrow> c
      | Some j \<Rightarrow>
          let c = c\<lparr>opening_job := None\<rparr>; s = ctl c
          in case rj_text j of
               None \<Rightarrow> c
             | Some txt \<Rightarrow>
                 if rj_gen j \<noteq> generation s then c
                 else c\<lparr>ctl := s\<lparr>chatRecvSeq := rj_seq j\<rparr>,
                        accepted := accepted c @ [\<lparr>ci_gen = rj_gen j, ci_seq = rj_seq j,
                          ci_kind = rj_kind j, ci_text = txt,
                          ci_missed = rj_seq j - chatRecvSeq s - 1\<rparr>]\<rparr>)"

datatype ('priv, 'pub) chat_event =
    Ctl "('priv, 'pub) event"
  | SendChat jstr jstr
  | SendTurn
  | Sealed "byte list"
  | Receive uid chat_payload
  | RecvTurn
  | Opened

fun chat_step ::
  "('priv, 'pub, 'key) webcrypto \<Rightarrow> ('priv, 'key) chat \<Rightarrow> ('priv, 'pub) chat_event \<Rightarrow>
     ('priv, 'key) chat" where
  "chat_step W c (Ctl e) = c\<lparr>ctl := step W (ctl c) e\<rparr>"
| "chat_step W c (SendChat kind txt) = fst (sendChat kind txt c)"
| "chat_step W c SendTurn = sendChatNow c"
| "chat_step W c (Sealed iv) = sealed W iv c"
| "chat_step W c (Receive sender m) = receive sender m c"
| "chat_step W c RecvTurn = decryptChatNow W c"
| "chat_step W c Opened = opened c"

section \<open>Numbers in order\<close>

text \<open>A list of accepted messages with strictly rising numbers and the right gaps.\<close>

fun in_order :: "int \<Rightarrow> chat_in list \<Rightarrow> bool" where
  "in_order l [] = True"
| "in_order l (a # as) =
     (l < ci_seq a \<and> ci_seq a < 2 ^ 48 \<and> ci_missed a = ci_seq a - l - 1 \<and> in_order (ci_seq a) as)"

definition last_seq :: "int \<Rightarrow> chat_in list \<Rightarrow> int" where
  "last_seq l as = (if as = [] then l else ci_seq (last as))"

lemma in_order_append:
  "in_order l (as @ bs) \<longleftrightarrow> in_order l as \<and> in_order (last_seq l as) bs"
  by (induction l as rule: in_order.induct) (auto simp: last_seq_def)

definition sent_in :: "nat \<Rightarrow> ('priv, 'key) chat \<Rightarrow> chat_out list" where
  "sent_in g c = filter (\<lambda>m. co_gen m = g) (outgoing c)"

definition accepted_in :: "nat \<Rightarrow> ('priv, 'key) chat \<Rightarrow> chat_in list" where
  "accepted_in g c = filter (\<lambda>m. ci_gen m = g) (accepted c)"

definition chat_inv :: "('priv, 'pub, 'key) webcrypto \<Rightarrow> ('priv, 'key) chat \<Rightarrow> bool" where
  "chat_inv W c \<longleftrightarrow>
     full_inv W (ctl c) \<and> chain_inv (ctl c) \<and>
     (\<forall>m\<in>set (outgoing c). co_gen m \<le> generation (ctl c)) \<and>
     (\<forall>m\<in>set (accepted c). ci_gen m \<le> generation (ctl c)) \<and>
     (\<forall>g. \<exists>n. map co_seq (sent_in g c) = [0..<n]) \<and>
     map co_seq (sent_in (generation (ctl c)) c) = [0..<chatSendSeq (ctl c)] \<and>
     (\<forall>g. in_order (-1) (accepted_in g c)) \<and>
     last_seq (-1) (accepted_in (generation (ctl c)) c) = chatRecvSeq (ctl c) \<and>
     (\<forall>j. sealing_job c = Some j \<longrightarrow> sj_gen j \<le> generation (ctl c) \<and>
        (sj_gen j = generation (ctl c) \<longrightarrow> sj_seq j = chatSendSeq (ctl c) \<and> chatSendKey (ctl c) \<noteq> None)) \<and>
     (\<forall>j. opening_job c = Some j \<longrightarrow> rj_gen j \<le> generation (ctl c) \<and>
        (rj_gen j = generation (ctl c) \<longrightarrow>
           chatRecvSeq (ctl c) < rj_seq j \<and> rj_seq j < 2 ^ 48 \<and> chatSendKey (ctl c) \<noteq> None))"

lemma chat_invD:
  assumes "chat_inv W c"
  shows "full_inv W (ctl c)" "chain_inv (ctl c)"
    "\<And>m. m \<in> set (outgoing c) \<Longrightarrow> co_gen m \<le> generation (ctl c)"
    "\<And>m. m \<in> set (accepted c) \<Longrightarrow> ci_gen m \<le> generation (ctl c)"
    "\<And>g. \<exists>n. map co_seq (sent_in g c) = [0..<n]"
    "map co_seq (sent_in (generation (ctl c)) c) = [0..<chatSendSeq (ctl c)]"
    "\<And>g. in_order (-1) (accepted_in g c)"
    "last_seq (-1) (accepted_in (generation (ctl c)) c) = chatRecvSeq (ctl c)"
    "\<And>j. sealing_job c = Some j \<Longrightarrow> sj_gen j \<le> generation (ctl c)"
    "\<And>j. sealing_job c = Some j \<Longrightarrow> sj_gen j = generation (ctl c) \<Longrightarrow>
       sj_seq j = chatSendSeq (ctl c) \<and> chatSendKey (ctl c) \<noteq> None"
    "\<And>j. opening_job c = Some j \<Longrightarrow> rj_gen j \<le> generation (ctl c)"
    "\<And>j. opening_job c = Some j \<Longrightarrow> rj_gen j = generation (ctl c) \<Longrightarrow>
       chatRecvSeq (ctl c) < rj_seq j \<and> rj_seq j < 2 ^ 48 \<and> chatSendKey (ctl c) \<noteq> None"
  using assms by (simp_all add: chat_inv_def)

lemma sent_in_upd [simp]:
  "sent_in g (c\<lparr>ctl := s\<rparr>) = sent_in g c" "accepted_in g (c\<lparr>ctl := s\<rparr>) = accepted_in g c"
  by (simp_all add: sent_in_def accepted_in_def)

lemma chat_inv_ctl:
  assumes i: "chat_inv W c"
  shows "chat_inv W (c\<lparr>ctl := step W (ctl c) e\<rparr>)"
proof -
  let ?s = "ctl c" let ?t = "step W (ctl c) e"
  note d = chat_invD [OF i]
  have f: "full_inv W ?t" and c: "chain_inv ?t" and q: "seq_effect ?s ?t"
    using d(1,2) by (simp_all add: full_inv_step chain_inv_step seq_effect_step del: step.simps)
  have le: "generation ?s \<le> generation ?t" using q by (simp add: seq_effect_def)
  have new: "sent_in g c = []" "accepted_in g c = []" if "generation ?s < g" for g
    using that by (auto simp: sent_in_def accepted_in_def filter_empty_conv dest!: d(3) d(4))
  have seqs: "map co_seq (sent_in (generation ?t) c) = [0..<chatSendSeq ?t] \<and>
      last_seq (-1) (accepted_in (generation ?t) c) = chatRecvSeq ?t"
  proof (cases "generation ?t = generation ?s \<and> chatSendKey ?s \<noteq> None")
    case True
    then show ?thesis using q d(6,8) by (simp add: seq_effect_def chat_fields_def)
  next
    case False
    then have z: "chatSendSeq ?t = 0" "chatRecvSeq ?t = -1"
      using q le by (auto simp: seq_effect_def)
    show ?thesis
    proof (cases "generation ?t = generation ?s")
      case True
      then have "chatSendSeq ?s = 0" "chatRecvSeq ?s = -1"
        using False d(2) by (simp_all add: chain_inv_def)
      then show ?thesis using True d(6,8) z by simp
    next
      case False
      then have "generation ?s < generation ?t" using le by simp
      then show ?thesis using new z by (simp add: last_seq_def)
    qed
  qed
  have kept: "chat_fields ?t = chat_fields ?s"
    if "generation ?t = generation ?s" "chatSendKey ?s \<noteq> None"
    using q that by (simp add: seq_effect_def)
  have s: "sj_gen j \<le> generation ?t \<and> (sj_gen j = generation ?t \<longrightarrow>
      sj_seq j = chatSendSeq ?t \<and> chatSendKey ?t \<noteq> None)" if "sealing_job c = Some j" for j
    using d(9,10) [OF that] le kept by (auto simp: chat_fields_def)
  have r: "rj_gen j \<le> generation ?t \<and> (rj_gen j = generation ?t \<longrightarrow>
      chatRecvSeq ?t < rj_seq j \<and> rj_seq j < 2 ^ 48 \<and> chatSendKey ?t \<noteq> None)"
    if "opening_job c = Some j" for j
    using d(11,12) [OF that] le kept by (auto simp: chat_fields_def)
  show ?thesis
    unfolding chat_inv_def
    using f c d(5,7) seqs s r order_trans [OF d(3) le] order_trans [OF d(4) le]
    by (simp del: step.simps)
qed

lemma full_inv_seqs:
  "full_inv W s \<Longrightarrow> full_inv W (s\<lparr>chatSendSeq := n\<rparr>)" "full_inv W s \<Longrightarrow> full_inv W (s\<lparr>chatRecvSeq := m\<rparr>)"
  by (erule full_inv_neutral_change; simp add: same_session_def)+

lemma chain_inv_seqs:
  "chain_inv s \<Longrightarrow> chatSendKey s \<noteq> None \<Longrightarrow> chain_inv (s\<lparr>chatSendSeq := n\<rparr>)"
  "chain_inv s \<Longrightarrow> chatSendKey s \<noteq> None \<Longrightarrow> chain_inv (s\<lparr>chatRecvSeq := m\<rparr>)"
  by (auto simp: chain_inv_def)

lemma chat_inv_queues:
  "chat_inv W c \<Longrightarrow> chat_inv W (c\<lparr>sendQueue := q\<rparr>)"
  "chat_inv W c \<Longrightarrow> chat_inv W (c\<lparr>recvQueue := r\<rparr>)"
  "chat_inv W c \<Longrightarrow> chat_inv W (c\<lparr>sealing_job := None\<rparr>)"
  "chat_inv W c \<Longrightarrow> chat_inv W (c\<lparr>opening_job := None\<rparr>)"
  by (simp_all add: chat_inv_def sent_in_def accepted_in_def)

lemma chat_inv_sendChatNow:
  assumes "chat_inv W c"
  shows "chat_inv W (sendChatNow c)"
proof -
  have "chat_inv W (c\<lparr>sendQueue := q, sealing_job := Some j\<rparr>)"
    if "sj_gen j = generation (ctl c)" "sj_seq j = chatSendSeq (ctl c)" "canChat (ctl c)" for q j
    using chat_inv_queues(1) [OF assms, of q] that
    by (simp add: chat_inv_def sent_in_def accepted_in_def canChat_def)
  then show ?thesis
    using assms by (auto simp: sendChatNow_def Let_def chat_inv_queues split: option.split list.split)
qed

lemma chat_inv_sealed:
  assumes i: "chat_inv W c"
  shows "chat_inv W (sealed W iv c)"
proof (cases "sealing_job c")
  case None
  then show ?thesis using i by (simp add: sealed_def)
next
  case (Some j)
  let ?s = "ctl c" let ?c = "c\<lparr>sealing_job := None\<rparr>"
  note d = chat_invD [OF i]
  have "chat_inv W (?c\<lparr>ctl := ?s\<lparr>chatSendSeq := sj_seq j + 1\<rparr>, outgoing := outgoing ?c @ [m]\<rparr>)"
    (is "chat_inv W ?d") if g: "sj_gen j = generation ?s" "co_gen m = sj_gen j" "co_seq m = sj_seq j" for m
  proof -
    have sq: "sj_seq j = chatSendSeq ?s" and key: "chatSendKey ?s \<noteq> None"
      using d(10) [OF Some g(1)] by simp_all
    have out: "sent_in h ?d = sent_in h c @ (if h = generation ?s then [m] else [])"
      "accepted_in h ?d = accepted_in h c" for h
      using g by (simp_all add: sent_in_def accepted_in_def)
    have "\<exists>n. map co_seq (sent_in h ?d) = [0..<n]" for h
      unfolding out using d(5) [of h] d(6) g sq
      by (cases "h = generation ?s") (auto intro: exI [of _ "Suc (chatSendSeq ?s)"])
    moreover have "map co_seq (sent_in (generation ?s) ?d) = [0..<sj_seq j + 1]"
      unfolding out using d(6) g sq by simp
    moreover have "in_order (-1) (accepted_in h ?d)" for h
      unfolding out by (rule d(7))
    moreover have "last_seq (-1) (accepted_in (generation ?s) ?d) = chatRecvSeq ?s"
      unfolding out by (rule d(8))
    moreover have "full_inv W (ctl ?d) \<and> chain_inv (ctl ?d)"
      using d(1,2) key by (simp add: full_inv_seqs chain_inv_seqs)
    ultimately show ?thesis
      using d(3,4,11,12) g unfolding chat_inv_def by simp
  qed
  then show ?thesis
    using Some i by (simp add: sealed_def Let_def chat_inv_queues split: option.split)
qed

lemma chat_inv_decryptChatNow:
  assumes i: "chat_inv W c"
  shows "chat_inv W (decryptChatNow W c)"
proof -
  note d = chat_invD [OF i]
  have "chat_inv W (c\<lparr>recvQueue := q, opening_job := decryptChatStart W u m (ctl c)\<rparr>)" for q u m
  proof -
    have "rj_gen j = generation (ctl c) \<and> chatRecvSeq (ctl c) < rj_seq j \<and> rj_seq j < 2 ^ 48 \<and>
        chatSendKey (ctl c) \<noteq> None" if "decryptChatStart W u m (ctl c) = Some j" for j
      using that d(2)
      by (auto simp: decryptChatStart_def Let_def chain_inv_def split: option.splits jsval.splits if_splits)
    then show ?thesis using i by (simp add: chat_inv_def sent_in_def accepted_in_def)
  qed
  then show ?thesis using i by (simp add: decryptChatNow_def split: option.split list.split)
qed

lemma chat_inv_opened:
  assumes i: "chat_inv W c"
  shows "chat_inv W (opened c)"
proof (cases "opening_job c")
  case None
  then show ?thesis using i by (simp add: opened_def)
next
  case (Some j)
  let ?s = "ctl c" let ?c = "c\<lparr>opening_job := None\<rparr>"
  note d = chat_invD [OF i]
  have "chat_inv W (?c\<lparr>ctl := ?s\<lparr>chatRecvSeq := rj_seq j\<rparr>, accepted := accepted ?c @ [m]\<rparr>)"
    (is "chat_inv W ?d")
    if g: "rj_gen j = generation ?s" "ci_gen m = rj_gen j" "ci_seq m = rj_seq j"
      "ci_missed m = rj_seq j - chatRecvSeq ?s - 1" for m
  proof -
    have sq: "chatRecvSeq ?s < rj_seq j" "rj_seq j < 2 ^ 48" and key: "chatSendKey ?s \<noteq> None"
      using d(12) [OF Some g(1)] by simp_all
    have out: "accepted_in h ?d = accepted_in h c @ (if h = generation ?s then [m] else [])"
      "sent_in h ?d = sent_in h c" for h
      using g by (simp_all add: sent_in_def accepted_in_def)
    have "in_order (-1) (accepted_in h ?d)" for h
      unfolding out using d(7) [of h] d(8) g sq by (auto simp: in_order_append)
    moreover have "last_seq (-1) (accepted_in (generation ?s) ?d) = rj_seq j"
      unfolding out using g by (simp add: last_seq_def)
    moreover have "full_inv W (ctl ?d) \<and> chain_inv (ctl ?d)"
      using d(1,2) key by (simp add: full_inv_seqs chain_inv_seqs)
    moreover have "\<exists>n. map co_seq (sent_in h ?d) = [0..<n]" for h
      unfolding out by (rule d(5))
    moreover have "map co_seq (sent_in (generation ?s) ?d) = [0..<chatSendSeq ?s]"
      unfolding out by (rule d(6))
    ultimately show ?thesis
      using d(3,4,9,10) g unfolding chat_inv_def by simp
  qed
  then show ?thesis
    using Some i by (simp add: opened_def Let_def chat_inv_queues split: option.split)
qed

lemma chat_inv_step: "chat_inv W c \<Longrightarrow> chat_inv W (chat_step W c e)"
  by (cases e) (simp_all add: chat_inv_ctl sendChat_def receive_def chat_inv_queues
      chat_inv_sendChatNow chat_inv_sealed chat_inv_decryptChatNow chat_inv_opened del: step.simps)

interpretation chat_room: machine "chat_step W" "chat_inv W"
  by unfold_locales (rule chat_inv_step)

lemma chain_inv_init: "chain_inv (e2ee_init i can)"
  by (simp add: chain_inv_def e2ee_init_def)

lemma init_seqs: "chatSendSeq (e2ee_init i can) = 0" "chatRecvSeq (e2ee_init i can) = -1"
  by (simp_all add: e2ee_init_def)

lemma chat_inv_init: "chat_inv W (chat_init i can)"
  by (simp add: chat_inv_def chat_init_def sent_in_def accepted_in_def last_seq_def full_inv_init
      chain_inv_init init_seqs exI [of _ 0])

text \<open>The messages sent in one session are numbered 0, 1, 2 and so on, in the order they go out,
  whatever happens between the steps of a send; so no two are sealed with the same associated data.\<close>

theorem chat_sent_numbers:
  "\<exists>n. map co_seq (sent_in g (foldl (chat_step W) (chat_init i can) es)) = [0..<n]"
  by (rule chat_invD(5) [OF chat_room.run_inv [OF chat_inv_init]])

text \<open>C22: the messages accepted in one session have strictly rising numbers below \<open>2 ^ 48\<close>, so none is
  accepted twice or out of order, and the gaps before them are what is reported as missed.\<close>

theorem chat_accepted_in_order:
  "in_order (-1) (accepted_in g (foldl (chat_step W) (chat_init i can) es))"
  by (rule chat_invD(7) [OF chat_room.run_inv [OF chat_inv_init]])


definition sample_receiver :: "(byte list, byte list) e2ee" where
  "sample_receiver =
     (e2ee_init (js ''b'') True)\<lparr>state := Established, peer := Some (js ''a''), chatRecvKey := Some [3]\<rparr>"


end
