(* ===== verification/PageE2ee.thy ===== *)
theory PageE2ee
  imports E2eeSafety Chat
begin

text \<open>
  What the page (static/galene.js) does about end-to-end encryption: the group's status and how a join
  may change it, the controller of each connection and what outlives it, whether media may be published
  and what is taken down, and where a typed message goes. The controller is that of E2ee; a track's
  place under the encryptor is what \<open>attachSender\<close> answered for it. What is handed to
  \<open>serverConnection.chat\<close> is kept in \<open>pg_clear\<close> with whether the connection was in the group.
\<close>

section \<open>State\<close>

text \<open>The fields of the group's status that matter here, as \<open>!!\<close> reads them; those that a join's
  status leaves out are \<open>None\<close>.\<close>

record group_status =
  gs_e2ee :: bool
  gs_requireE2ee :: bool
  gs_operatorRoom :: bool

record status_update =
  su_e2ee :: "bool option"
  su_requireE2ee :: "bool option"
  su_operatorRoom :: "bool option"

record up_media =
  um_id :: nat
  um_label :: jstr
  um_encrypted :: "bool list"

text \<open>\<open>pg_conn\<close> counts the connections made; \<open>pg_opening\<close> has the connection each camera that is
  being opened was asked for on, and \<open>pg_choosing\<close> counts those that are open and wait for the lists of
  devices; \<open>pg_setting\<close> has the streams whose filter is being set, before their tracks are added;
  \<open>pg_mics\<close> those a microphone is being opened for; \<open>pg_typed\<close> the messages handed to
  \<open>sendChat\<close> whose promise is not settled.\<close>

record ('priv, 'key) page =
  pg_status :: group_status
  pg_was :: bool
  pg_conn :: nat
  pg_joined :: bool
  pg_ctl :: "('priv, 'key) e2ee"
  pg_up :: "up_media list"
  pg_next :: nat
  pg_opening :: "nat list"
  pg_choosing :: nat
  pg_setting :: "nat list"
  pg_mics :: "nat list"
  pg_typed :: "(jstr \<times> jstr) list"
  pg_clear :: "(bool \<times> jstr) list"

section \<open>The group's status\<close>

definition given_or :: "'a option \<Rightarrow> 'a \<Rightarrow> 'a" where
  "given_or u v = (case u of None \<Rightarrow> v | Some w \<Rightarrow> w)"

definition merge_status :: "status_update \<Rightarrow> group_status \<Rightarrow> group_status" where
  "merge_status u s =
     \<lparr>gs_e2ee = given_or (su_e2ee u) (gs_e2ee s), gs_requireE2ee = given_or (su_requireE2ee u) (gs_requireE2ee s),
      gs_operatorRoom = given_or (su_operatorRoom u) (gs_operatorRoom s)\<rparr>"

definition keepE2EEStatus :: "group_status \<Rightarrow> group_status \<Rightarrow> group_status \<times> bool" where
  "keepE2EEStatus before now =
     (if \<not> gs_e2ee before \<or> gs_operatorRoom before then (now, False)
      else
        let dropped = \<not> gs_e2ee now \<or> gs_operatorRoom now \<or> (gs_requireE2ee before \<and> \<not> gs_requireE2ee now);
            now = now\<lparr>gs_e2ee := True, gs_operatorRoom := False\<rparr>
        in (if gs_requireE2ee before then now\<lparr>gs_requireE2ee := True\<rparr> else now, dropped))"

definition encrypting :: "group_status \<Rightarrow> bool" where
  "encrypting s \<longleftrightarrow> gs_e2ee s \<and> \<not> gs_operatorRoom s"

definition e2eeActive :: "('priv, 'key) page \<Rightarrow> bool" where
  "e2eeActive p = encrypting (pg_status p)"

definition e2eeEnabled :: "('priv, 'key) page \<Rightarrow> bool" where
  "e2eeEnabled p \<longleftrightarrow> e2eeActive p \<and> supported (pg_ctl p)"

section \<open>Media\<close>

definition mayPublishLocalMedia :: "('priv, 'key) page \<Rightarrow> bool" where
  "mayPublishLocalMedia p \<longleftrightarrow> state (pg_ctl p) \<noteq> Blocked \<or> mayPublishWhileAsking (pg_ctl p)"

definition closeUpMedia :: "jstr \<Rightarrow> ('priv, 'key) page \<Rightarrow> ('priv, 'key) page" where
  "closeUpMedia label p = p\<lparr>pg_up := filter (\<lambda>c. um_label c \<noteq> label) (pg_up p)\<rparr>"

definition camera :: jstr where "camera = js ''camera''"
definition screenshare :: jstr where "screenshare = js ''screenshare''"
definition video :: jstr where "video = js ''video''"

definition enforceE2EEMediaPolicy :: "('priv, 'key) page \<Rightarrow> ('priv, 'key) page" where
  "enforceE2EEMediaPolicy p =
     (if state (pg_ctl p) = Blocked \<and> \<not> mayPublishLocalMedia p
      then closeUpMedia screenshare (closeUpMedia camera p) else p)"

definition gotE2EEState :: "('priv, 'key) page \<Rightarrow> ('priv, 'key) page" where
  "gotE2EEState p =
     enforceE2EEMediaPolicy (if state (pg_ctl p) = Established then p\<lparr>pg_was := True\<rparr> else p)"

text \<open>The controller after one of its methods; \<open>onstate\<close> runs the page's handler if it was called.\<close>

definition controlled :: "('priv, 'key) e2ee \<Rightarrow> ('priv, 'key) page \<Rightarrow> ('priv, 'key) page" where
  "controlled c p =
     (let q = p\<lparr>pg_ctl := c\<rparr> in if announced c \<noteq> announced (pg_ctl p) then gotE2EEState q else q)"

definition still_up :: "nat \<Rightarrow> ('priv, 'key) page \<Rightarrow> bool" where
  "still_up i p \<longleftrightarrow> i \<in> um_id ` set (pg_up p)"

definition encrypted_track :: "nat \<Rightarrow> bool \<Rightarrow> ('priv, 'key) page \<Rightarrow> ('priv, 'key) page" where
  "encrypted_track i b p =
     p\<lparr>pg_up := map (\<lambda>c. if um_id c = i then c\<lparr>um_encrypted := um_encrypted c @ [b]\<rparr> else c) (pg_up p)\<rparr>"

text \<open>\<open>addUpTrack\<close>: \<open>works\<close> is whether the browser takes the encryptor for this track.\<close>

definition addUpTrack :: "nat \<Rightarrow> bool \<Rightarrow> ('priv, 'key) page \<Rightarrow> ('priv, 'key) page" where
  "addUpTrack i works p =
     (if \<not> still_up i p then p
      else if e2eeEnabled p
      then case attachSender works (pg_ctl p) of (c, b) \<Rightarrow> controlled c (encrypted_track i b p)
      else encrypted_track i False p)"

text \<open>\<open>newUpStream\<close> and \<open>setUpStream\<close> up to its await, and \<open>setUpStream\<close> from there on, with
  what the browser says to the encryptor of each track.\<close>

definition without :: "nat \<Rightarrow> 'a list \<Rightarrow> 'a list" where
  "without n xs = take n xs @ drop (Suc n) xs"

definition publish :: "jstr \<Rightarrow> ('priv, 'key) page \<Rightarrow> ('priv, 'key) page" where
  "publish label p =
     p\<lparr>pg_next := pg_next p + 1, pg_up := pg_up p @ [\<lparr>um_id = pg_next p, um_label = label, um_encrypted = []\<rparr>],
       pg_setting := pg_setting p @ [pg_next p]\<rparr>"

definition filter_set :: "nat \<Rightarrow> bool list \<Rightarrow> ('priv, 'key) page \<Rightarrow> ('priv, 'key) page" where
  "filter_set n works p =
     (if n < length (pg_setting p)
      then fold (addUpTrack (pg_setting p ! n)) works (p\<lparr>pg_setting := without n (pg_setting p)\<rparr>)
      else p)"

text \<open>\<open>addLocalMediaNow\<close> up to the opening of the devices, from there to the listing of the devices, and
  from there on, where the new camera stream replaces the one that is up; \<open>addShareMedia\<close> and
  \<open>addFileMedia\<close> once they have a stream; \<open>replaceUpStream\<close>, which sends the same stream anew.\<close>

definition addLocalMediaNow :: "('priv, 'key) page \<Rightarrow> ('priv, 'key) page" where
  "addLocalMediaNow p =
     (if \<not> mayPublishLocalMedia p then p else p\<lparr>pg_opening := pg_opening p @ [pg_conn p]\<rparr>)"

definition media_opened :: "nat \<Rightarrow> ('priv, 'key) page \<Rightarrow> ('priv, 'key) page" where
  "media_opened n p =
     (if n < length (pg_opening p)
      then let p' = p\<lparr>pg_opening := without n (pg_opening p)\<rparr>
           in if pg_opening p ! n \<noteq> pg_conn p \<or> \<not> pg_joined p then p' else p'\<lparr>pg_choosing := pg_choosing p + 1\<rparr>
      else p)"

definition publish_camera :: "('priv, 'key) page \<Rightarrow> ('priv, 'key) page" where
  "publish_camera p =
     (if pg_choosing p = 0 then p
      else publish camera (closeUpMedia camera (p\<lparr>pg_choosing := pg_choosing p - 1\<rparr>)))"

definition addShareMedia :: "('priv, 'key) page \<Rightarrow> ('priv, 'key) page" where
  "addShareMedia p = publish screenshare p"

definition addFileMedia :: "('priv, 'key) page \<Rightarrow> ('priv, 'key) page" where
  "addFileMedia p = publish video p"

definition replaceUpStream :: "nat \<Rightarrow> ('priv, 'key) page \<Rightarrow> ('priv, 'key) page" where
  "replaceUpStream i p =
     (case find (\<lambda>c. um_id c = i) (pg_up p) of
        None \<Rightarrow> p
      | Some c \<Rightarrow> publish (um_label c) (p\<lparr>pg_up := filter (\<lambda>c. um_id c \<noteq> i) (pg_up p)\<rparr>))"

text \<open>\<open>addMicrophoneNow\<close> for a stream with a picture, up to the opening of the microphone and from there
  on: \<open>silent\<close> is whether the stream has no sound, \<open>idle\<close> whether a sender without a track is
  there, with its encryptor.\<close>

definition addMicrophoneNow :: "nat \<Rightarrow> bool \<Rightarrow> ('priv, 'key) page \<Rightarrow> ('priv, 'key) page" where
  "addMicrophoneNow i silent p =
     (if \<not> (still_up i p \<and> silent) then addLocalMediaNow p
      else if \<not> mayPublishLocalMedia p then p else p\<lparr>pg_mics := pg_mics p @ [i]\<rparr>)"

definition mic_opened :: "nat \<Rightarrow> bool \<Rightarrow> bool \<Rightarrow> bool \<Rightarrow> ('priv, 'key) page \<Rightarrow> ('priv, 'key) page" where
  "mic_opened n silent idle works p =
     (if n < length (pg_mics p)
      then let i = pg_mics p ! n; p' = p\<lparr>pg_mics := without n (pg_mics p)\<rparr>
           in if \<not> (still_up i p \<and> silent) \<or> idle then p' else addUpTrack i works p'
      else p)"

section \<open>Chat\<close>

definition mayChatInClear :: "('priv, 'key) page \<Rightarrow> bool" where
  "mayChatInClear p \<longleftrightarrow>
     \<not> e2eeActive p \<or> \<not> require (pg_ctl p) \<and> \<not> awaitsClearConsent (pg_ctl p)"

definition chat_clear :: "jstr \<Rightarrow> ('priv, 'key) page \<Rightarrow> ('priv, 'key) page" where
  "chat_clear txt p = p\<lparr>pg_clear := pg_clear p @ [(pg_joined p, txt)]\<rparr>"

definition sendCleartext :: "jstr \<Rightarrow> ('priv, 'key) page \<Rightarrow> ('priv, 'key) page" where
  "sendCleartext txt p = (if \<not> mayChatInClear p then p else chat_clear txt p)"

datatype input = Nothing | Command jstr jstr | Message bool jstr

definition split_space :: "jstr \<Rightarrow> jstr \<times> jstr" where
  "split_space s = (takeWhile (\<lambda>c. c \<noteq> 32) s, drop 1 (dropWhile (\<lambda>c. c \<noteq> 32) s))"

fun parse_input :: "jstr \<Rightarrow> input" where
  "parse_input [] = Nothing"
| "parse_input (c # s) =
     (if c = 47
      then case s of
             d # r \<Rightarrow> if d = 47 then Message False s
                      else (case split_space s of (cmd, rest) \<Rightarrow>
                              if cmd = js ''me'' then Message True rest else Command cmd rest)
           | [] \<Rightarrow> Command [] []
      else Message False (c # s))"

text \<open>\<open>parseCommand\<close>: a first word, perhaps quoted, with escapes, and the rest.\<close>

definition skip_spaces :: "jstr \<Rightarrow> jstr" where
  "skip_spaces s = dropWhile (\<lambda>c. c = 32) s"

fun first_word :: "16 word \<Rightarrow> jstr \<Rightarrow> jstr \<times> jstr" where
  "first_word q [] = ([], [])"
| "first_word q [c] =
     (if c = q then ([], if q \<noteq> 32 then [] else [c]) else ([c], []))"
| "first_word q (c # d # s) =
     (if c = q then ([], if q \<noteq> 32 then d # s else c # d # s)
      else if c = 92 then (case first_word q s of (w, r) \<Rightarrow> (d # w, r))
      else case first_word q (d # s) of (w, r) \<Rightarrow> (c # w, r))"

definition parseCommand :: "jstr \<Rightarrow> jstr \<times> jstr" where
  "parseCommand line =
     (let s = skip_spaces line;
          (w, r) = (case s of
             c # t \<Rightarrow> if c = 34 \<or> c = 39 then first_word c t else first_word 32 s
           | [] \<Rightarrow> ([], []))
      in (w, skip_spaces r))"

text \<open>\<open>commands.msg.f\<close>; \<open>findUser\<close> is \<open>findUserId\<close>. The other commands send no chat.\<close>

definition private_message :: "(jstr \<Rightarrow> jstr option) \<Rightarrow> jstr \<Rightarrow> ('priv, 'key) page \<Rightarrow> ('priv, 'key) page" where
  "private_message findUser r p =
     (case parseCommand r of (who, txt) \<Rightarrow>
        if who = [] \<or> findUser who = None \<or> \<not> mayChatInClear p then p else chat_clear txt p)"

definition handleInput :: "(jstr \<Rightarrow> jstr option) \<Rightarrow> jstr \<Rightarrow> ('priv, 'key) page \<Rightarrow> ('priv, 'key) page" where
  "handleInput findUser data p =
     (case parse_input data of
        Nothing \<Rightarrow> p
      | Command cmd rest \<Rightarrow> if cmd = js ''msg'' then private_message findUser rest p else p
      | Message me txt \<Rightarrow>
          if e2eeActive p \<and> canChat (pg_ctl p)
          then p\<lparr>pg_typed := pg_typed p @ [(if me then js ''me'' else [], txt)]\<rparr>
          else sendCleartext txt p)"

text \<open>The promise of \<open>sendChat\<close>: sent, not sent because the call it was written in is over, to be
  sent in clear, or an exception.\<close>

datatype settled = Sent | Lost | Refused | Threw

definition chat_settled :: "nat \<Rightarrow> settled \<Rightarrow> ('priv, 'key) page \<Rightarrow> ('priv, 'key) page" where
  "chat_settled n r p =
     (if n < length (pg_typed p)
      then let p' = p\<lparr>pg_typed := without n (pg_typed p)\<rparr>
           in if r = Sent \<or> r = Lost then p' else sendCleartext (snd (pg_typed p ! n)) p'
      else p)"

section \<open>Connections\<close>

text \<open>\<open>serverConnect\<close>: a new connection with a controller of its own; the old one's streams have been
  closed, and its join is over.\<close>

definition new_connection :: "uid \<Rightarrow> bool \<Rightarrow> ('priv, 'key) page \<Rightarrow> ('priv, 'key) page" where
  "new_connection i can p =
     p\<lparr>pg_conn := pg_conn p + 1, pg_joined := False, pg_up := [],
       pg_ctl := (e2ee_init i can)\<lparr>wasEncrypted := pg_was p\<rparr>\<rparr>"

definition joined :: "status_update \<Rightarrow> ('priv, 'key) page \<Rightarrow> ('priv, 'key) page" where
  "joined u p =
     (let s = fst (keepE2EEStatus (pg_status p) (merge_status u (pg_status p)));
          p = p\<lparr>pg_status := s, pg_joined := True\<rparr>
      in controlled (setRequire (gs_requireE2ee s) (pg_ctl p)) p)"

definition left_group :: "('priv, 'key) page \<Rightarrow> ('priv, 'key) page" where
  "left_group p = p\<lparr>pg_joined := False, pg_up := []\<rparr>"

datatype ('priv, 'pub) page_event =
    NewConnection uid bool
  | JoinedGroup status_update
  | LeftGroup
  | Controller "('priv, 'pub) event"
  | AskMedia
  | MediaOpened nat
  | DevicesListed
  | Share
  | PlayFile
  | Replace nat
  | FilterSet nat "bool list"
  | AskMicrophone nat bool
  | MicrophoneOpened nat bool bool bool
  | Typed "jstr \<Rightarrow> jstr option" jstr
  | ChatSettled nat settled

text \<open>\<open>SetRequire\<close> and \<open>AttachSender\<close> reach the controller through the page alone, and users are
  handed to it only where the group encrypts.\<close>

fun page_step ::
  "('priv, 'pub, 'key) webcrypto \<Rightarrow> ('priv, 'key) page \<Rightarrow> ('priv, 'pub) page_event \<Rightarrow> ('priv, 'key) page" where
  "page_step W p (NewConnection i can) = new_connection i can p"
| "page_step W p (JoinedGroup u) = joined u p"
| "page_step W p LeftGroup = left_group p"
| "page_step W p (Controller e) =
     (case e of
        SetRequire r \<Rightarrow> p
      | AttachSender w \<Rightarrow> p
      | AddUser i \<Rightarrow> if e2eeActive p then controlled (addUser i (pg_ctl p)) p else p
      | DelUser i \<Rightarrow> if e2eeActive p then controlled (delUser i (pg_ctl p)) p else p
      | Incoming from m \<Rightarrow> if e2eeActive p then controlled (onMessage from m (pg_ctl p)) p else p
      | AttachReceiver \<Rightarrow> if e2eeEnabled p then controlled (attachReceiver (pg_ctl p)) p else p
      | _ \<Rightarrow> controlled (step W (pg_ctl p) e) p)"
| "page_step W p AskMedia = addLocalMediaNow p"
| "page_step W p (MediaOpened n) = media_opened n p"
| "page_step W p DevicesListed = publish_camera p"
| "page_step W p Share = addShareMedia p"
| "page_step W p PlayFile = addFileMedia p"
| "page_step W p (Replace i) = replaceUpStream i p"
| "page_step W p (FilterSet n works) = filter_set n works p"
| "page_step W p (AskMicrophone i silent) = addMicrophoneNow i silent p"
| "page_step W p (MicrophoneOpened n silent idle works) = mic_opened n silent idle works p"
| "page_step W p (Typed findUser data) = handleInput findUser data p"
| "page_step W p (ChatSettled n r) = chat_settled n r p"

definition page_init :: "uid \<Rightarrow> bool \<Rightarrow> group_status \<Rightarrow> ('priv, 'key) page" where
  "page_init i can s =
     \<lparr>pg_status = s, pg_was = False, pg_conn = 0, pg_joined = False, pg_ctl = e2ee_init i can, pg_up = [],
      pg_next = 0, pg_opening = [], pg_choosing = 0, pg_setting = [], pg_mics = [], pg_typed = [], pg_clear = []\<rparr>"

end
