(* ===== verification/PageE2eeProps.thy ===== *)
theory PageE2eeProps
  imports PageE2ee E2eeSession
begin

text \<open>
  What the page keeps to whatever the server answers: a group that has been seen to require encryption
  goes on requiring it, typed messages stay out of the clear while the connection is in the group, and
  what the camera and the screen send goes through an encryptor. And where it does not keep to it.
\<close>

section \<open>What the handlers leave alone\<close>

text \<open>What a page looks like but for its streams and its controller.\<close>

lemma controlled_ctl [simp]: "pg_ctl (controlled c p) = c"
  by (simp add: controlled_def gotE2EEState_def enforceE2EEMediaPolicy_def closeUpMedia_def Let_def)

lemma controlled_frame [simp]:
  "pg_status (controlled c p) = pg_status p" "pg_joined (controlled c p) = pg_joined p"
  "pg_clear (controlled c p) = pg_clear p" "pg_conn (controlled c p) = pg_conn p"
  by (simp_all add: controlled_def gotE2EEState_def enforceE2EEMediaPolicy_def closeUpMedia_def Let_def)

lemma controlled_up: "set (pg_up (controlled c p)) \<subseteq> set (pg_up p)"
  by (auto simp: controlled_def gotE2EEState_def enforceE2EEMediaPolicy_def closeUpMedia_def Let_def)

lemma controlled_blocked:
  assumes "announced c \<noteq> announced (pg_ctl p)" and "state c = Blocked" and "\<not> mayPublishWhileAsking c"
    and "x \<in> set (pg_up (controlled c p))"
  shows "um_label x \<noteq> camera \<and> um_label x \<noteq> screenshare"
  using assms
  by (auto simp: controlled_def gotE2EEState_def enforceE2EEMediaPolicy_def closeUpMedia_def mayPublishLocalMedia_def
      Let_def split: if_splits)

lemma encrypted_track_frame [simp]:
  "pg_ctl (encrypted_track i b p) = pg_ctl p" "pg_status (encrypted_track i b p) = pg_status p"
  "pg_joined (encrypted_track i b p) = pg_joined p" "pg_clear (encrypted_track i b p) = pg_clear p"
  by (simp_all add: encrypted_track_def)

definition kept_policy :: "('priv, 'key) page \<Rightarrow> ('priv, 'key) page \<Rightarrow> bool" where
  "kept_policy p q \<longleftrightarrow>
     pg_status q = pg_status p \<and> pg_joined q = pg_joined p \<and> pg_clear q = pg_clear p \<and>
     same_policy (pg_ctl p) (pg_ctl q) \<and> supported (pg_ctl q) = supported (pg_ctl p)"

lemma kept_policy_refl: "kept_policy p p"
  by (simp add: kept_policy_def)

lemma kept_policy_trans: "kept_policy p q \<Longrightarrow> kept_policy q r \<Longrightarrow> kept_policy p r"
  by (auto simp: kept_policy_def intro: same_policy_trans)

lemma attachSender_supported: "supported (fst (attachSender w s)) = supported s"
  by (simp add: attachSender_def prim_defs downgrade_def Let_def split: option.split)

lemma kept_policy_addUpTrack: "kept_policy p (addUpTrack i w p)"
  using policy_attachSender [of "pg_ctl p" w] attachSender_supported [of w "pg_ctl p"]
  by (auto simp: kept_policy_def addUpTrack_def split: prod.split)

lemma kept_policy_tracks: "kept_policy p (fold (addUpTrack i) ws p)"
proof (induction ws arbitrary: p)
  case (Cons w ws)
  then show ?case using kept_policy_addUpTrack kept_policy_trans by (simp add: comp_def) blast
qed (simp add: kept_policy_refl)

lemma kept_policy_same:
  "pg_status q = pg_status p \<Longrightarrow> pg_joined q = pg_joined p \<Longrightarrow> pg_clear q = pg_clear p \<Longrightarrow> pg_ctl q = pg_ctl p \<Longrightarrow>
     kept_policy p q"
  by (simp add: kept_policy_def)

text \<open>The ways to put media up.\<close>

definition media_event :: "('priv, 'pub) page_event \<Rightarrow> bool" where
  "media_event e \<longleftrightarrow>
     (case e of
        AskMedia \<Rightarrow> True | MediaOpened n \<Rightarrow> True | DevicesListed \<Rightarrow> True | Share \<Rightarrow> True | PlayFile \<Rightarrow> True | Replace i \<Rightarrow> True
      | FilterSet n ws \<Rightarrow> True | AskMicrophone i b \<Rightarrow> True | MicrophoneOpened n b c w \<Rightarrow> True | _ \<Rightarrow> False)"

lemma publish_frame [simp]:
  "pg_status (publish l p) = pg_status p" "pg_joined (publish l p) = pg_joined p" "pg_clear (publish l p) = pg_clear p"
  "pg_ctl (publish l p) = pg_ctl p"
  by (simp_all add: publish_def)

lemma closeUpMedia_frame [simp]:
  "pg_status (closeUpMedia l p) = pg_status p" "pg_joined (closeUpMedia l p) = pg_joined p"
  "pg_clear (closeUpMedia l p) = pg_clear p" "pg_ctl (closeUpMedia l p) = pg_ctl p"
  by (simp_all add: closeUpMedia_def)

lemma kept_policy_filter_set: "kept_policy p (filter_set n ws p)"
proof -
  have "kept_policy p (p\<lparr>pg_setting := u\<rparr>)" for u by (simp add: kept_policy_same)
  then show ?thesis
    by (auto simp: filter_set_def intro: kept_policy_refl kept_policy_trans [OF _ kept_policy_tracks])
qed

lemma kept_policy_mic_opened: "kept_policy p (mic_opened n b c w p)"
proof -
  have "kept_policy p (p\<lparr>pg_mics := u\<rparr>)" for u by (simp add: kept_policy_same)
  then show ?thesis
    by (auto simp: mic_opened_def Let_def intro: kept_policy_refl kept_policy_trans [OF _ kept_policy_addUpTrack])
qed

lemma kept_policy_media: "media_event e \<Longrightarrow> kept_policy p (page_step W p e)"
  by (cases e)
    (auto intro!: kept_policy_filter_set kept_policy_mic_opened kept_policy_same simp: media_event_def addLocalMediaNow_def media_opened_def publish_camera_def addShareMedia_def
      addFileMedia_def replaceUpStream_def addMicrophoneNow_def Let_def split: option.split)

section \<open>A group that requires encryption\<close>

definition requiring :: "group_status \<Rightarrow> bool" where
  "requiring s \<longleftrightarrow> encrypting s \<and> gs_requireE2ee s"

lemma keepE2EEStatus_keeps:
  "encrypting s \<Longrightarrow> encrypting (fst (keepE2EEStatus s t))"
  "requiring s \<Longrightarrow> requiring (fst (keepE2EEStatus s t))"
  by (simp_all add: encrypting_def requiring_def keepE2EEStatus_def Let_def)

text \<open>While it is in the group, the controller knows that it must encrypt.\<close>

definition told :: "('priv, 'key) page \<Rightarrow> bool" where
  "told p \<longleftrightarrow> (pg_joined p \<longrightarrow> require (pg_ctl p) = gs_requireE2ee (pg_status p))"

lemma told_kept: "told p \<Longrightarrow> kept_policy p q \<Longrightarrow> told q"
  by (simp add: told_def kept_policy_def same_policy_def)

lemma setRequire_require [simp]: "require (setRequire r s) = r"
  using policy_recompute [of "s\<lparr>require := r\<rparr>"] by (simp add: setRequire_def same_policy_def)

lemma chat_clear_frame [simp]:
  "pg_status (chat_clear x p) = pg_status p" "pg_joined (chat_clear x p) = pg_joined p" "pg_ctl (chat_clear x p) = pg_ctl p"
  by (simp_all add: chat_clear_def)

lemma handleInput_frame [simp]:
  "pg_status (handleInput f d p) = pg_status p" "pg_joined (handleInput f d p) = pg_joined p"
  "pg_ctl (handleInput f d p) = pg_ctl p"
  by (simp_all add: handleInput_def private_message_def sendCleartext_def split: input.split prod.split)

lemma chat_settled_frame [simp]:
  "pg_status (chat_settled n r p) = pg_status p" "pg_joined (chat_settled n r p) = pg_joined p"
  "pg_ctl (chat_settled n r p) = pg_ctl p"
  by (simp_all add: chat_settled_def sendCleartext_def Let_def)

text \<open>The controller's own step, as the page lets it happen.\<close>

lemma controller_step:
  "page_step W p (Controller ev) = p \<or>
   page_step W p (Controller ev) = controlled (step W (pg_ctl p) ev) p \<and> (\<forall>r. ev \<noteq> SetRequire r) \<and> (\<forall>w. ev \<noteq> AttachSender w)"
  by (cases ev) auto

lemma require_kept_step:
  assumes "\<forall>r. ev \<noteq> SetRequire r"
  shows "require (step W s ev) = require s"
proof (cases "ev = ContinueInClear")
  case False
  then show ?thesis using policy_step [of s W ev] assms by (auto simp: same_policy_def)
qed (simp add: continueInClear_def prim_defs)

lemma supported_kept_step: "\<forall>w. ev \<noteq> AttachSender w \<Longrightarrow> supported (step W s ev) = supported s"
  using browser_step [of ev W s] by (simp add: browser_of_def)

text \<open>What every event but a new connection and a join keeps.\<close>

definition kept :: "('priv, 'key) page \<Rightarrow> ('priv, 'key) page \<Rightarrow> bool" where
  "kept p q \<longleftrightarrow>
     pg_status q = pg_status p \<and> (pg_joined q \<longrightarrow> pg_joined p) \<and> require (pg_ctl q) = require (pg_ctl p) \<and>
     supported (pg_ctl q) = supported (pg_ctl p)"

lemma kept_policy_kept: "kept_policy p q \<Longrightarrow> kept p q"
  by (simp add: kept_def kept_policy_def same_policy_def)

lemma kept_step:
  assumes "\<And>i c. e \<noteq> NewConnection i c" and "\<And>u. e \<noteq> JoinedGroup u"
  shows "kept p (page_step W p e)"
proof (cases "media_event e")
  case True
  then show ?thesis by (intro kept_policy_kept kept_policy_media)
next
  case False
  show ?thesis
  proof (cases "\<exists>ev. e = Controller ev")
    case True
    then obtain ev where "e = Controller ev" ..
    then show ?thesis
      using controller_step [of W p ev] require_kept_step [of ev W "pg_ctl p"] supported_kept_step [of ev W "pg_ctl p"]
      by (auto simp: kept_def simp del: page_step.simps)
  next
    case False
    then show ?thesis
      using assms \<open>\<not> media_event e\<close> by (cases e) (auto simp: kept_def left_group_def media_event_def)
  qed
qed

lemma told_step: "told p \<Longrightarrow> told (page_step W p e)"
proof (cases "(\<exists>i c. e = NewConnection i c) \<or> (\<exists>u. e = JoinedGroup u)")
  case True
  then show "told (page_step W p e)" by (auto simp: told_def new_connection_def joined_def Let_def)
next
  case False
  moreover assume "told p"
  ultimately show "told (page_step W p e)" using kept_step [of e p W] by (auto simp: told_def kept_def)
qed

interpretation told: machine "page_step W" told
  by unfold_locales (rule told_step)

lemma requiring_step: "requiring (pg_status p) \<Longrightarrow> requiring (pg_status (page_step W p e))"
proof (cases "(\<exists>i c. e = NewConnection i c) \<or> (\<exists>u. e = JoinedGroup u)")
  case True
  moreover assume "requiring (pg_status p)"
  ultimately show "requiring (pg_status (page_step W p e))"
    by (auto simp: new_connection_def joined_def Let_def keepE2EEStatus_keeps)
next
  case False
  moreover assume "requiring (pg_status p)"
  ultimately show "requiring (pg_status (page_step W p e))" using kept_step [of e p W] by (auto simp: kept_def)
qed

text \<open>A message in clear needs leave, at the moment it goes.\<close>

lemma clear_step:
  "pg_clear (page_step W p e) = pg_clear p \<or>
   mayChatInClear p \<and> (\<exists>x. pg_clear (page_step W p e) = pg_clear p @ [(pg_joined p, x)])"
proof (cases "media_event e")
  case True
  then show ?thesis using kept_policy_media [OF True, of p W] by (simp add: kept_policy_def)
next
  case other: False
  show ?thesis
  proof (cases e)
    case (Controller ev)
    then show ?thesis using controller_step [of W p ev] by (auto simp del: page_step.simps)
  next
    case (Typed f d)
    then show ?thesis
      by (auto simp: handleInput_def private_message_def sendCleartext_def chat_clear_def split: input.split prod.split)
  next
    case (ChatSettled n r)
    have "mayChatInClear (p\<lparr>pg_typed := u\<rparr>) = mayChatInClear p" for u
      by (simp add: mayChatInClear_def e2eeActive_def)
    then show ?thesis using ChatSettled by (simp add: chat_settled_def sendCleartext_def chat_clear_def Let_def)
  qed (use other in \<open>auto simp: media_event_def new_connection_def joined_def left_group_def Let_def\<close>)
qed

lemma no_leave: "told p \<Longrightarrow> requiring (pg_status p) \<Longrightarrow> pg_joined p \<Longrightarrow> \<not> mayChatInClear p"
  by (simp add: told_def requiring_def mayChatInClear_def e2eeActive_def)

lemma requiring_run:
  "told p \<Longrightarrow> requiring (pg_status p) \<Longrightarrow>
     requiring (pg_status (foldl (page_step W) p es)) \<and>
     (\<exists>xs. pg_clear (foldl (page_step W) p es) = pg_clear p @ xs \<and> (\<forall>x \<in> set xs. \<not> fst x))"
proof (induction es arbitrary: p)
  case (Cons e es)
  let ?q = "page_step W p e"
  obtain xs where xs: "pg_clear (foldl (page_step W) ?q es) = pg_clear ?q @ xs" "\<forall>x \<in> set xs. \<not> fst x"
    "requiring (pg_status (foldl (page_step W) ?q es))"
    using Cons.IH [of ?q] told_step Cons.prems(1) requiring_step [OF Cons.prems(2)] by blast
  from clear_step [of W p e] show ?case
  proof
    assume "pg_clear ?q = pg_clear p"
    then show ?case using xs by auto
  next
    assume "mayChatInClear p \<and> (\<exists>x. pg_clear ?q = pg_clear p @ [(pg_joined p, x)])"
    then obtain x where "pg_clear ?q = pg_clear p @ [(pg_joined p, x)]" "\<not> pg_joined p"
      using no_leave [OF Cons.prems] by blast
    then show ?case using xs by (intro conjI exI [of _ "(pg_joined p, x) # xs"]) auto
  qed
qed simp

text \<open>Sample runs, of a page in a group that requires encryption.\<close>

definition required_room :: group_status where
  "required_room = \<lparr>gs_e2ee = True, gs_requireE2ee = True, gs_operatorRoom = False\<rparr>"

definition encrypted_room :: group_status where
  "encrypted_room = \<lparr>gs_e2ee = True, gs_requireE2ee = False, gs_operatorRoom = False\<rparr>"

definition no_change :: status_update where
  "no_change = \<lparr>su_e2ee = None, su_requireE2ee = None, su_operatorRoom = None\<rparr>"

definition taken_back :: status_update where
  "taken_back = \<lparr>su_e2ee = Some False, su_requireE2ee = Some False, su_operatorRoom = Some True\<rparr>"

abbreviation page_run :: "bool \<Rightarrow> group_status \<Rightarrow> (byte list, byte list) page_event list \<Rightarrow> (byte list, byte list) page" where
  "page_run can s es \<equiv> foldl (page_step sample_crypto) (page_init (js ''a'') can s) es"

lemma parse_hi [simp]: "parse_input (js ''hi'') = Message False (js ''hi'')"
  by (simp add: js_def)

lemmas status_defs = required_room_def encrypted_room_def no_change_def taken_back_def page_init_def requiring_def
  encrypting_def joined_def new_connection_def keepE2EEStatus_def merge_status_def given_or_def

lemmas page_defs = status_defs e2eeActive_def e2eeEnabled_def controlled_def gotE2EEState_def
  enforceE2EEMediaPolicy_def mayPublishLocalMedia_def mayPublishWhileAsking_def awaitsClearConsent_def
  closeUpMedia_def camera_def screenshare_def video_def addUpTrack_def publish_def attachSender_def
  encrypted_track_def still_up_def ensureWorker_def addLocalMediaNow_def media_opened_def publish_camera_def filter_set_def without_def addShareMedia_def
  addFileMedia_def mayChatInClear_def canChat_def handleInput_def sendCleartext_def chat_clear_def



section \<open>What the camera and the screen send\<close>

definition all_encrypted :: "('priv, 'key) page \<Rightarrow> bool" where
  "all_encrypted p \<longleftrightarrow>
     (\<forall>x \<in> set (pg_up p). um_label x \<in> {camera, screenshare} \<longrightarrow> False \<notin> set (um_encrypted x))"

definition sealed_ok :: "('priv, 'key) page \<Rightarrow> bool" where
  "sealed_ok p \<longleftrightarrow>
     encrypting (pg_status p) \<and>
     (supported (pg_ctl p) \<and> (require (pg_ctl p) \<or> \<not> transformFailed (pg_ctl p)) \<longrightarrow> all_encrypted p)"

lemma all_encrypted_fewer: "set (pg_up q) \<subseteq> set (pg_up p) \<Longrightarrow> all_encrypted p \<Longrightarrow> all_encrypted q"
  by (auto simp: all_encrypted_def)

lemma all_encrypted_blocked:
  assumes "announced c \<noteq> announced (pg_ctl p)" and "state c = Blocked" and "require c"
  shows "all_encrypted (controlled c p)"
proof -
  have "\<not> mayPublishWhileAsking c" using assms(3) by (simp add: mayPublishWhileAsking_def awaitsClearConsent_def)
  from controlled_blocked [OF assms(1,2) this] show ?thesis by (auto simp: all_encrypted_def)
qed

lemma recompute_blocked:
  assumes "require s" and "\<not> canEncrypt s"
  shows "state (recompute s) = Blocked \<and> announced (recompute s) = announced s + 1"
proof -
  have "canEncrypt (resetPeer s) = canEncrypt s" "require (resetPeer s) = require s"
    using browser.kept_resetPeer [of s] policy_resetPeer [of s]
    by (simp_all add: canEncrypt_def browser_of_def same_policy_def)
  moreover have "announced (resetPeer s) = announced s" by (simp add: resetPeer_def prim_defs)
  ultimately show ?thesis
    using assms by (simp add: recompute_def Let_def downgrade_def prim_defs split: list.split option.split)
qed

lemma sealed_addUpTrack:
  assumes "sealed_ok p"
  shows "sealed_ok (addUpTrack i w p)"
proof (cases "still_up i p \<and> e2eeEnabled p")
  case False
  moreover have "\<not> supported (pg_ctl p)" if "\<not> e2eeEnabled p"
    using that assms by (simp add: e2eeEnabled_def e2eeActive_def sealed_ok_def)
  ultimately show ?thesis using assms by (auto simp: addUpTrack_def sealed_ok_def)
next
  case True
  let ?c = "fst (attachSender w (pg_ctl p))"
  have sup: "supported (pg_ctl p)" using True by (simp add: e2eeEnabled_def)
  show ?thesis
  proof (cases w)
    case True
    then have "attachSender w (pg_ctl p) = (ensureWorker (pg_ctl p), True)" using sup by (simp add: attachSender_def Let_def)
    moreover have "all_encrypted (controlled (ensureWorker (pg_ctl p)) (encrypted_track i True p))" if "all_encrypted p"
      using that
      by (auto simp: all_encrypted_def controlled_def ensureWorker_def encrypted_track_def)
    ultimately show ?thesis
      using \<open>still_up i p \<and> e2eeEnabled p\<close> assms by (simp add: addUpTrack_def sealed_ok_def) (simp add: ensureWorker_def)
  next
    case False
    then have a: "attachSender w (pg_ctl p) =
        (downgrade Transform (announceNoCrypto ((ensureWorker (pg_ctl p))\<lparr>transformFailed := True\<rparr>)), False)"
      using sup by (simp add: attachSender_def Let_def)
    then have "transformFailed ?c" by (simp add: downgrade_def prim_defs split: option.split)
    moreover have "all_encrypted (controlled ?c (encrypted_track i False p))" if "require ?c"
      using that a
      by (intro all_encrypted_blocked) (auto simp: downgrade_def prim_defs split: option.splits if_splits)
    ultimately show ?thesis
      using \<open>still_up i p \<and> e2eeEnabled p\<close> assms a by (simp add: addUpTrack_def sealed_ok_def)
  qed
qed

lemma sealed_tracks: "sealed_ok p \<Longrightarrow> sealed_ok (fold (addUpTrack i) ws p)"
  by (induction ws arbitrary: p) (simp_all add: sealed_addUpTrack)

lemma sealed_fewer:
  assumes "sealed_ok p" and "pg_status q = pg_status p" and "set (pg_up q) \<subseteq> set (pg_up p)"
    and "browser_of (pg_ctl q) = browser_of (pg_ctl p)" and "require (pg_ctl q) \<longrightarrow> require (pg_ctl p)"
  shows "sealed_ok q"
  using assms all_encrypted_fewer [of q p] by (auto simp: sealed_ok_def browser_of_def)

lemma sealed_publish: "sealed_ok p \<Longrightarrow> sealed_ok (publish l p)"
  by (auto simp: sealed_ok_def all_encrypted_def publish_def)

lemma sealed_same_up:
  "sealed_ok p \<Longrightarrow> pg_status q = pg_status p \<Longrightarrow> set (pg_up q) \<subseteq> set (pg_up p) \<Longrightarrow> pg_ctl q = pg_ctl p \<Longrightarrow> sealed_ok q"
  by (rule sealed_fewer) auto

lemma closeUpMedia_up: "set (pg_up (closeUpMedia l p)) \<subseteq> set (pg_up p)"
  by (auto simp: closeUpMedia_def)

lemma sealed_media:
  assumes s: "sealed_ok p" and "media_event e"
  shows "sealed_ok (page_step W p e)"
proof (cases e)
  case (FilterSet n ws)
  have "sealed_ok (p\<lparr>pg_setting := u\<rparr>)" for u by (rule sealed_same_up [OF s]) simp_all
  then show ?thesis using FilterSet s by (simp add: filter_set_def sealed_tracks)
next
  case (MicrophoneOpened n b c w)
  have "sealed_ok (p\<lparr>pg_mics := u\<rparr>)" for u by (rule sealed_same_up [OF s]) simp_all
  then show ?thesis using MicrophoneOpened s by (simp add: mic_opened_def Let_def sealed_addUpTrack)
next
  case (Replace i)
  have "sealed_ok (p\<lparr>pg_up := filter (\<lambda>c. um_id c \<noteq> i) (pg_up p)\<rparr>)" by (rule sealed_same_up [OF s]) auto
  then show ?thesis using Replace s by (simp add: replaceUpStream_def sealed_publish split: option.split)
next
  case DevicesListed
  have "sealed_ok (closeUpMedia camera (p\<lparr>pg_choosing := u\<rparr>))" for u
    using closeUpMedia_up [of camera "p\<lparr>pg_choosing := u\<rparr>"] by (intro sealed_same_up [OF s]) simp_all
  then show ?thesis using DevicesListed s by (simp add: publish_camera_def sealed_publish)
next
  case (MediaOpened n)
  then show ?thesis by (auto intro!: sealed_same_up [OF s] simp: media_opened_def Let_def)
next
  case AskMedia
  then show ?thesis by (auto intro!: sealed_same_up [OF s] simp: addLocalMediaNow_def)
next
  case (AskMicrophone i b)
  then show ?thesis by (auto intro!: sealed_same_up [OF s] simp: addMicrophoneNow_def addLocalMediaNow_def)
qed (use assms in \<open>simp_all add: media_event_def addShareMedia_def addFileMedia_def sealed_publish\<close>)

lemma sealed_joined:
  assumes "sealed_ok p"
  shows "sealed_ok (joined u p)"
proof -
  let ?s = "fst (keepE2EEStatus (pg_status p) (merge_status u (pg_status p)))"
  let ?p = "p\<lparr>pg_status := ?s, pg_joined := True\<rparr>" and ?c = "setRequire (gs_requireE2ee ?s) (pg_ctl p)"
  have b: "browser_of ?c = browser_of (pg_ctl p)" by (simp add: setRequire_def)
  have j: "joined u p = controlled ?c ?p" by (simp add: joined_def Let_def)
  have e: "encrypting ?s" using assms keepE2EEStatus_keeps(1) by (simp add: sealed_ok_def)
  have "all_encrypted (controlled ?c ?p)" if "supported ?c" "require ?c \<or> \<not> transformFailed ?c"
  proof (cases "transformFailed ?c")
    case True
    then have "require ?c" and n: "\<not> canEncrypt ((pg_ctl p)\<lparr>require := True\<rparr>)"
      using that b by (auto simp: canEncrypt_def browser_of_def)
    then have "gs_requireE2ee ?s" by simp
    then have "state ?c = Blocked \<and> announced ?c = announced (pg_ctl p) + 1"
      using recompute_blocked [OF _ n] by (simp add: setRequire_def)
    then show ?thesis using \<open>require ?c\<close> by (intro all_encrypted_blocked) simp_all
  next
    case False
    then have "all_encrypted p" using assms b that(1) by (simp add: sealed_ok_def browser_of_def)
    moreover have "set (pg_up (controlled ?c ?p)) \<subseteq> set (pg_up p)" using controlled_up [of ?c ?p] by simp
    ultimately show ?thesis by (rule all_encrypted_fewer [rotated])
  qed
  then show ?thesis using e by (simp add: j sealed_ok_def)
qed

lemma sealed_step: "sealed_ok p \<Longrightarrow> sealed_ok (page_step W p e)"
proof (cases e)
  case (Controller ev)
  assume s: "sealed_ok p"
  show ?thesis
    using controller_step [of W p ev]
  proof
    assume c: "page_step W p (Controller ev) = controlled (step W (pg_ctl p) ev) p \<and>
      (\<forall>r. ev \<noteq> SetRequire r) \<and> (\<forall>w. ev \<noteq> AttachSender w)"
    have "browser_of (step W (pg_ctl p) ev) = browser_of (pg_ctl p)" using browser_step c by blast
    moreover have "require (step W (pg_ctl p) ev) = require (pg_ctl p)" using require_kept_step c by blast
    ultimately show ?thesis
      unfolding Controller c [THEN conjunct1] using controlled_up by (intro sealed_fewer [OF s]) simp_all
  qed (simp add: Controller s del: page_step.simps)
next
  case (Typed f d)
  assume s: "sealed_ok p"
  have "pg_up (handleInput f d p) = pg_up p"
    by (simp add: handleInput_def private_message_def sendCleartext_def chat_clear_def split: input.split prod.split)
  then show ?thesis using Typed by (auto intro: sealed_fewer [OF s])
next
  case (ChatSettled n r)
  assume s: "sealed_ok p"
  have "pg_up (chat_settled n r p) = pg_up p"
    by (simp add: chat_settled_def sendCleartext_def chat_clear_def Let_def)
  then show ?thesis using ChatSettled by (auto intro: sealed_fewer [OF s])
next
  case (JoinedGroup u)
  then show "sealed_ok p \<Longrightarrow> ?thesis" by (simp add: sealed_joined)
next
  case (NewConnection i c)
  then show "sealed_ok p \<Longrightarrow> ?thesis" by (simp add: new_connection_def sealed_ok_def all_encrypted_def)
next
  case LeftGroup
  then show "sealed_ok p \<Longrightarrow> ?thesis" by (simp add: left_group_def sealed_ok_def all_encrypted_def)
qed (auto intro!: sealed_media simp: media_event_def simp del: page_step.simps)

interpretation sealed: machine "page_step W" sealed_ok
  by unfold_locales (rule sealed_step)


definition share_run :: "(byte list, byte list) page_event list" where
  "share_run = [JoinedGroup no_change, Share, FilterSet 0 [True]]"

lemma share_run_state:
  "pg_up (page_run True required_room share_run) =
     [\<lparr>um_id = 0, um_label = screenshare, um_encrypted = [True]\<rparr>] \<and>
   pg_joined (page_run True required_room share_run) \<and>
   gs_requireE2ee (pg_status (page_run True required_room share_run)) \<and>
   supported (pg_ctl (page_run True required_room share_run))"
  by (simp add: share_run_def page_defs method_defs)


section \<open>Where the page does not keep to it\<close>

definition blocked_in_clear :: "jstr \<Rightarrow> (byte list, byte list) page \<Rightarrow> bool" where
  "blocked_in_clear label p \<longleftrightarrow>
     state (pg_ctl p) = Blocked \<and> \<not> mayPublishLocalMedia p \<and> pg_joined p \<and> requiring (pg_status p) \<and>
     map (\<lambda>x. (um_label x, um_encrypted x)) (pg_up p) = [(label, [False])]"



definition called_again :: "(byte list, byte list) page_event list" where
  "called_again = [JoinedGroup no_change] @ map Controller (initiator_run @ [DelUser (js ''b''), AddUser (js ''b'')])"

text \<open>After an encrypted call, with the next participant not yet through the handshake, a message goes
  out in clear though the user never agreed to go on in clear.\<close>

theorem chat_in_clear_without_consent:
  "let p = page_run True encrypted_room called_again
   in wasEncrypted (pg_ctl p) \<and> \<not> clearAgreed (pg_ctl p) \<and> state (pg_ctl p) \<noteq> Established \<and>
      pg_clear (page_step sample_crypto p (Typed (\<lambda>u. None) (js ''hi''))) = [(True, js ''hi'')]"
  by (simp add: called_again_def initiator_run_def page_defs method_defs sample_ids sample_simps eval_nat_numeral)

end
