(* ===== verification/Resume.thy ===== *)
theory Resume
  imports Prelude
begin

text \<open>
  static/signalling-resume.js: the client's half of carrying a session over to a new websocket. The
  sent messages are numbered and the last ones kept; \<open>replay_log\<close> states what such a log promises,
  and the section on delivery proves, from that alone, that a resumed session loses, repeats and
  reorders nothing. The log of the code is one such log.
\<close>

section \<open>The module\<close>

definition PING_AFTER :: rat where "PING_AFTER = 8000"
definition STALL_AFTER :: rat where "STALL_AFTER = 20000"
definition ATTEMPT_TIMEOUT :: rat where "ATTEMPT_TIMEOUT = 8000"
definition RETRY_DELAY :: rat where "RETRY_DELAY = 2000"
definition GIVE_UP_AFTER :: rat where "GIVE_UP_AFTER = 110000"
definition MAX_MESSAGES :: nat where "MAX_MESSAGES = 512"
definition MAX_BYTES :: int where "MAX_BYTES = push_bit 20 2"
definition CLOSE_NO_RESUME :: int where "CLOSE_NO_RESUME = 4001"

definition counted :: "jstr \<Rightarrow> bool" where
  "counted ty \<longleftrightarrow>
     ty \<noteq> js ''handshake'' \<and> ty \<noteq> js ''sozvon-session'' \<and>
     ty \<noteq> js ''sozvon-resumed'' \<and> ty \<noteq> js ''sozvon-network''"

record 'm sent_log =
  msgs :: "'m list"
  log_bytes :: int
  log_count :: int

definition SentLog :: "'m sent_log" where
  "SentLog = \<lparr>msgs = [], log_bytes = 0, log_count = 0\<rparr>"

text \<open>The loop that drops the oldest messages; \<open>sz\<close> is the \<open>length\<close> of a message.\<close>

fun trim :: "('m \<Rightarrow> nat) \<Rightarrow> 'm list \<Rightarrow> int \<Rightarrow> 'm list \<times> int" where
  "trim sz [] b = ([], b)"
| "trim sz (m # ms) b =
     (if length (m # ms) > MAX_MESSAGES \<or> length (m # ms) > 1 \<and> b > MAX_BYTES
      then trim sz ms (b - int (sz m)) else (m # ms, b))"

definition push :: "('m \<Rightarrow> nat) \<Rightarrow> 'm \<Rightarrow> 'm sent_log \<Rightarrow> 'm sent_log" where
  "push sz m s =
     (let (ms, b) = trim sz (msgs s @ [m]) (log_bytes s + int (sz m))
      in \<lparr>msgs = ms, log_bytes = b, log_count = log_count s + 1\<rparr>)"

text \<open>\<open>n\<close> comes from the server's message, so it may be anything.\<close>

fun js_integer :: "jsval \<Rightarrow> int option" where
  "js_integer (JNum (Fin r)) = (if r = of_int \<lfloor>r\<rfloor> then Some \<lfloor>r\<rfloor> else None)"
| "js_integer _ = None"

definition after :: "'m sent_log \<Rightarrow> jsval \<Rightarrow> 'm list option" where
  "after s v =
     (let first = log_count s - int (length (msgs s)) + 1
      in case js_integer v of
           None \<Rightarrow> None
         | Some n \<Rightarrow>
             if n + 1 < first \<or> n > log_count s then None
             else Some (drop (nat (n + 1 - first)) (msgs s)))"

datatype verdict = End | ResumeIt

definition onClose :: "int \<Rightarrow> bool \<Rightarrow> bool \<Rightarrow> verdict" where
  "onClose code resumable leaving =
     (if leaving \<or> \<not> resumable then End
      else if code = 1000 \<or> code = CLOSE_NO_RESUME then End
      else ResumeIt)"

datatype tick = TOk | TPing | TResume

definition onTick :: "rat \<Rightarrow> tick" where
  "onTick silent = (if silent > STALL_AFTER then TResume else if silent \<ge> PING_AFTER then TPing else TOk)"

section \<open>What a replay log promises\<close>

text \<open>
  \<open>rep s h\<close> says that \<open>s\<close> is the log after the history \<open>h\<close>. What it gives back is the end of the
  history from the number asked for, and it gives nothing back rather than something else. It always
  has the last message.
\<close>

locale replay_log =
  fixes empty_log :: "'s"
    and add :: "'m \<Rightarrow> 's \<Rightarrow> 's"
    and since :: "'s \<Rightarrow> nat \<Rightarrow> 'm list option"
    and rep :: "'s \<Rightarrow> 'm list \<Rightarrow> bool"
  assumes rep_empty: "rep empty_log []"
    and rep_add: "rep s h \<Longrightarrow> rep (add m s) (h @ [m])"
    and since_sound: "rep s h \<Longrightarrow> since s n = Some ms \<Longrightarrow> n \<le> length h \<and> ms = drop n h"
    and since_last: "rep s h \<Longrightarrow> since s (length h) = Some []"
begin

lemma since_all_or_end: "rep s h \<Longrightarrow> since s n = Some ms \<Longrightarrow> take n h @ ms = h"
  using since_sound by fastforce

lemma since_future: "rep s h \<Longrightarrow> length h < n \<Longrightarrow> since s n = None"
  using since_sound by (cases "since s n") fastforce+

end

text \<open>
  One direction of a session: the sender's log, what is on its way on the current websocket, what
  the receiver has taken, and whether the session is still there. A message sent while there is no
  websocket goes to the log alone. A new websocket starts with the receiver's count: the sender
  replays what is after it, or the session is over.
\<close>

datatype phase = Up | Down | Over

record ('s, 'm) link =
  lk_log :: 's
  lk_sent :: "'m list"
  lk_wire :: "'m list"
  lk_got :: "'m list"
  lk_phase :: phase

datatype 'm link_event = Send 'm | Deliver | Cut | Reconnect

fun link_step ::
  "('m \<Rightarrow> 's \<Rightarrow> 's) \<Rightarrow> ('s \<Rightarrow> nat \<Rightarrow> 'm list option) \<Rightarrow> ('s, 'm) link \<Rightarrow> 'm link_event \<Rightarrow> ('s, 'm) link" where
  "link_step add since k (Send m) =
     (if lk_phase k = Over then k
      else k\<lparr>lk_log := add m (lk_log k), lk_sent := lk_sent k @ [m],
             lk_wire := (if lk_phase k = Up then lk_wire k @ [m] else lk_wire k)\<rparr>)"
| "link_step add since k Deliver =
     (case lk_wire k of [] \<Rightarrow> k | m # ms \<Rightarrow> k\<lparr>lk_wire := ms, lk_got := lk_got k @ [m]\<rparr>)"
| "link_step add since k Cut = (if lk_phase k = Up then k\<lparr>lk_wire := [], lk_phase := Down\<rparr> else k)"
| "link_step add since k Reconnect =
     (if lk_phase k \<noteq> Down then k
      else case since (lk_log k) (length (lk_got k)) of
             None \<Rightarrow> k\<lparr>lk_phase := Over\<rparr>
           | Some ms \<Rightarrow> k\<lparr>lk_wire := ms, lk_phase := Up\<rparr>)"

definition link_init :: "'s \<Rightarrow> ('s, 'm) link" where
  "link_init s = \<lparr>lk_log = s, lk_sent = [], lk_wire = [], lk_got = [], lk_phase = Up\<rparr>"

context replay_log begin

definition link_ok :: "('s, 'm) link \<Rightarrow> bool" where
  "link_ok k \<longleftrightarrow>
     rep (lk_log k) (lk_sent k) \<and>
     (if lk_phase k = Up then lk_got k @ lk_wire k = lk_sent k
      else lk_wire k = [] \<and> (\<exists>r. lk_sent k = lk_got k @ r))"

lemma link_ok_init: "link_ok (link_init empty_log)"
  by (simp add: link_ok_def link_init_def rep_empty)

lemma link_ok_step: "link_ok k \<Longrightarrow> link_ok (link_step add since k e)"
proof (cases e)
  case (Send m)
  assume i: "link_ok k"
  show ?thesis
  proof (cases "lk_phase k")
    case Up
    then show ?thesis using i Send rep_add [of "lk_log k" "lk_sent k" m] by (auto simp: link_ok_def)
  next
    case Down
    then show ?thesis using i Send rep_add [of "lk_log k" "lk_sent k" m] by (auto simp: link_ok_def)
  next
    case Over
    then show ?thesis using i Send by simp
  qed
next
  case Deliver
  assume "link_ok k"
  then show ?thesis using Deliver by (auto simp: link_ok_def split: list.split)
next
  case Cut
  assume "link_ok k"
  then show ?thesis using Cut by (auto simp: link_ok_def intro: exI [of _ "lk_wire k"])
next
  case Reconnect
  assume i: "link_ok k"
  have "take (length (lk_got k)) (lk_sent k) = lk_got k" if "lk_phase k = Down"
    using i that by (auto simp: link_ok_def)
  then show ?thesis
    using i Reconnect since_all_or_end [of "lk_log k" "lk_sent k" "length (lk_got k)"]
    by (auto simp: link_ok_def split: option.split)
qed

lemma link_run: "link_ok (foldl (link_step add since) (link_init empty_log) es)"
proof -
  have "link_ok k \<Longrightarrow> link_ok (foldl (link_step add since) k es)" for k
    by (induction es arbitrary: k) (auto intro: link_ok_step simp del: link_step.simps)
  then show ?thesis using link_ok_init by simp
qed

lemma got_prefix: "\<exists>r. lk_sent (foldl (link_step add since) (link_init empty_log) es) = lk_got (foldl (link_step add since) (link_init empty_log) es) @ r"
  using link_run [of es] by (auto simp: link_ok_def split: if_splits) metis

lemma up_complete:
  "lk_phase (foldl (link_step add since) (link_init empty_log) es) = Up \<Longrightarrow>
   lk_got (foldl (link_step add since) (link_init empty_log) es) @ lk_wire (foldl (link_step add since) (link_init empty_log) es) =
   lk_sent (foldl (link_step add since) (link_init empty_log) es)"
  using link_run [of es] by (simp add: link_ok_def)

end

section \<open>The log of the code\<close>

definition log_rep :: "('m \<Rightarrow> nat) \<Rightarrow> 'm sent_log \<Rightarrow> 'm list \<Rightarrow> bool" where
  "log_rep sz s h \<longleftrightarrow>
     (\<exists>old. h = old @ msgs s) \<and> (h \<noteq> [] \<longrightarrow> msgs s \<noteq> []) \<and> log_count s = int (length h) \<and>
     log_bytes s = int (sum_list (map sz (msgs s))) \<and> length (msgs s) \<le> MAX_MESSAGES \<and>
     (log_bytes s \<le> MAX_BYTES \<or> length (msgs s) \<le> 1)"

lemma trim_suffix:
  assumes "trim sz ms b = (ms', b')" and "b = int (sum_list (map sz ms))"
  shows "\<exists>old. ms = old @ ms'" and "ms \<noteq> [] \<Longrightarrow> ms' \<noteq> []" and "b' = int (sum_list (map sz ms'))"
    and "length ms' \<le> MAX_MESSAGES" and "b' \<le> MAX_BYTES \<or> length ms' \<le> 1"
  using assms
proof (induction sz ms b rule: trim.induct)
  case (2 sz m ms b)
  let ?more = "length (m # ms) > MAX_MESSAGES \<or> length (m # ms) > 1 \<and> b > MAX_BYTES"
  {
    case 1
    then show ?case using "2.IH"(1) by (cases ?more) (fastforce intro: exI [of _ "m # old" for old])+
  next
    case 2
    have "ms \<noteq> []" if ?more using that by (auto simp: MAX_MESSAGES_def)
    then show ?case using 2 "2.IH"(2) by (cases ?more) auto
  next
    case 3
    then show ?case using "2.IH"(3) by (cases ?more) auto
  next
    case 4
    then show ?case using "2.IH"(4) by (cases ?more) auto
  next
    case 5
    then show ?case using "2.IH"(5) by (cases ?more) auto
  }
qed (simp_all add: MAX_MESSAGES_def)

lemma log_rep_push: "log_rep sz s h \<Longrightarrow> log_rep sz (push sz m s) (h @ [m])"
proof -
  assume r: "log_rep sz s h"
  obtain ms b where t: "trim sz (msgs s @ [m]) (log_bytes s + int (sz m)) = (ms, b)"
    by (cases "trim sz (msgs s @ [m]) (log_bytes s + int (sz m))")
  have b: "log_bytes s + int (sz m) = int (sum_list (map sz (msgs s @ [m])))"
    using r by (simp add: log_rep_def)
  obtain o1 where "h = o1 @ msgs s" using r by (auto simp: log_rep_def)
  moreover obtain o2 where "msgs s @ [m] = o2 @ ms" using trim_suffix(1) [OF t b] by blast
  ultimately have "\<exists>old. h @ [m] = old @ ms" by (intro exI [of _ "o1 @ o2"]) simp
  moreover have "push sz m s = \<lparr>msgs = ms, log_bytes = b, log_count = log_count s + 1\<rparr>"
    unfolding push_def t by simp
  ultimately show ?thesis
    using r trim_suffix(2-5) [OF t b] by (simp add: log_rep_def)
qed

definition since_count :: "'m sent_log \<Rightarrow> nat \<Rightarrow> 'm list option" where
  "since_count s n = after s (JNum (Fin (of_nat n)))"

lemma since_count_eq:
  assumes "log_rep sz s h"
  shows "since_count s n =
    (if n < length h - length (msgs s) \<or> length h < n then None else Some (drop n h))"
proof -
  obtain old where h: "h = old @ msgs s" using assms by (auto simp: log_rep_def)
  have c: "log_count s = int (length old) + int (length (msgs s))" using assms h by (simp add: log_rep_def)
  have "js_integer (JNum (Fin (of_nat n))) = Some (int n)" by simp
  then show ?thesis
    using c by (auto simp: since_count_def after_def Let_def h nat_minus_as_int)
qed

interpretation sent: replay_log SentLog "push sz" since_count "log_rep sz"
proof
  show "log_rep sz SentLog []"
    by (simp add: log_rep_def SentLog_def MAX_MESSAGES_def MAX_BYTES_def)
  show "log_rep sz (push sz m s) (h @ [m])" if "log_rep sz s h" for s h m
    using that by (rule log_rep_push)
  show "n \<le> length h \<and> ms = drop n h" if "log_rep sz s h" "since_count s n = Some ms" for s h n ms
    using that by (simp add: since_count_eq split: if_splits)
  show "since_count s (length h) = Some []" if "log_rep sz s h" for s h
    using that by (simp add: since_count_eq)
qed

text \<open>What the log drops it has to drop.\<close>

definition over :: "('m \<Rightarrow> nat) \<Rightarrow> 'm list \<Rightarrow> bool" where
  "over sz l \<longleftrightarrow> length l > MAX_MESSAGES \<or> int (sum_list (map sz l)) > MAX_BYTES"

lemma over_append: "over sz l \<Longrightarrow> over sz (l @ r)"
  by (auto simp: over_def)

lemma trim_over:
  assumes "trim sz ms b = (ms', b')" and "b = int (sum_list (map sz ms))" and "n < length ms - length ms'"
  shows "over sz (drop n ms)"
  using assms
proof (induction sz ms b arbitrary: n rule: trim.induct)
  case (2 sz m ms b)
  let ?more = "length (m # ms) > MAX_MESSAGES \<or> length (m # ms) > 1 \<and> b > MAX_BYTES"
  show ?case
  proof (cases ?more)
    case True
    have t: "trim sz ms (b - int (sz m)) = (ms', b')" and s: "b - int (sz m) = int (sum_list (map sz ms))"
      using "2.prems"(1,2) True by auto
    show ?thesis
    proof (cases n)
      case 0
      then show ?thesis using True "2.prems"(2) by (auto simp: over_def)
    next
      case (Suc k)
      have "length ms' \<le> length ms" using trim_suffix(1) [OF t s] by auto
      then have "over sz (drop k ms)" using "2.IH" [OF True t s, of k] "2.prems"(3) Suc by simp
      then show ?thesis using Suc by simp
    qed
  next
    case False
    then show ?thesis using "2.prems" by auto
  qed
qed simp

definition tight :: "('m \<Rightarrow> nat) \<Rightarrow> 'm sent_log \<Rightarrow> 'm list \<Rightarrow> bool" where
  "tight sz s h \<longleftrightarrow> log_rep sz s h \<and> (\<forall>n < length h - length (msgs s). over sz (drop n h))"

lemma tight_push: "tight sz s h \<Longrightarrow> tight sz (push sz m s) (h @ [m])"
proof -
  assume i: "tight sz s h"
  then have r: "log_rep sz s h" by (simp add: tight_def)
  obtain old where h: "h = old @ msgs s" using r by (auto simp: log_rep_def)
  obtain ms b where t: "trim sz (msgs s @ [m]) (log_bytes s + int (sz m)) = (ms, b)"
    by (cases "trim sz (msgs s @ [m]) (log_bytes s + int (sz m))")
  have b: "log_bytes s + int (sz m) = int (sum_list (map sz (msgs s @ [m])))"
    using r by (simp add: log_rep_def)
  have ms: "msgs (push sz m s) = ms" by (simp add: push_def t)
  have "over sz (drop n (h @ [m]))" if n: "n < length (h @ [m]) - length ms" for n
  proof (cases "n < length old")
    case True
    then have "over sz (drop n h)" using i h by (simp add: tight_def)
    then show ?thesis using over_append [of sz "drop n h" "[m]"] True h by simp
  next
    case False
    then have "over sz (drop (n - length old) (msgs s @ [m]))"
      using n h by (intro trim_over [OF t b]) simp
    then show ?thesis using False h by simp
  qed
  then show ?thesis using log_rep_push [OF r] by (simp add: tight_def ms)
qed

lemma tight_pushes: "tight sz (foldl (\<lambda>s m. push sz m s) SentLog ms) ms"
proof (induction ms rule: rev_induct)
  case Nil
  show ?case using sent.rep_empty by (simp add: tight_def)
next
  case (snoc m ms)
  then show ?case using tight_push by simp
qed

section \<open>Properties\<close>

text \<open>C18: whatever happens to the websockets of a session, what the other side has received is a prefix
  of what was sent, in order and each message once; and on an open websocket the rest is under way.\<close>

theorem resume_exactly_once:
  "let k = foldl (link_step (push sz) since_count) (link_init SentLog) es
   in if lk_phase k = Up then lk_got k @ lk_wire k = lk_sent k else (\<exists>r. lk_sent k = lk_got k @ r)"
  using sent.link_run [of sz es] by (simp add: sent.link_ok_def Let_def)

text \<open>The log gives back everything after the count the server reports whenever that fits in the
  bounds, so a session can always be resumed after a gap of at most 512 messages and 2 MiB; what it
  gives back is always exactly the end of what was sent.\<close>

theorem sent_log_replays:
  assumes "n \<le> length ms" and "\<not> over sz (drop n ms)"
  shows "since_count (foldl (\<lambda>s m. push sz m s) SentLog ms) n = Some (drop n ms)"
  using tight_pushes [of sz ms] assms since_count_eq [of sz "foldl (\<lambda>s m. push sz m s) SentLog ms" ms n]
  by (auto simp: tight_def)

theorem sent_log_replays_witness:
  "since_count (foldl (\<lambda>s m. push length m s) SentLog [js ''a'', js ''b'', js ''c'']) 1 =
    Some [js ''b'', js ''c'']"
  using sent_log_replays [of 1 "[js ''a'', js ''b'', js ''c'']" length]
  by (simp add: over_def MAX_MESSAGES_def MAX_BYTES_def js_def)

text \<open>The log stays within its bounds: at most 512 messages, and at most 2 MiB unless it is a single
  message.\<close>

theorem sent_log_bounded:
  "let s = foldl (\<lambda>s m. push sz m s) SentLog ms
   in length (msgs s) \<le> 512 \<and>
      (if length (msgs s) \<le> 1 then True else sum_list (map sz (msgs s)) \<le> 2097152) \<and>
      log_count s = int (length ms)"
  using tight_pushes [of sz ms]
  by (auto simp: tight_def log_rep_def Let_def MAX_MESSAGES_def MAX_BYTES_def)

end
