(* ===== verification/Signalling.thy ===== *)
theory Signalling
  imports Resume
begin

text \<open>
  The signalling session of static/protocol.js: the websocket of a \<open>ServerConnection\<close> and its
  replacements, \<open>send\<close>, \<open>close\<close>, the teardown, the resumption of a session over a new socket, the
  liveness timer, and \<open>gotMessage\<close> with the group and the users it keeps. Messages about streams are
  handed on (\<open>StreamMessage\<close>); what their handlers send is a later \<open>AppSend\<close>. A socket is its
  index in the list of the sockets made so far.
\<close>

section \<open>State\<close>

datatype ready_state = SConnecting | SOpen | SClosing | SClosed

datatype resume_timer = NoAnswer nat | Retry

datatype hello = Plain | Resumable | ResumeHello "jstr option" nat

datatype frame = Handshake hello | TextFrame jstr jstr

datatype callback =
    OnConnected | OnError | OnBeforeClose | OnClose int | OnResumed
  | OnJoined | OnUser jstr | OnKnock jstr bool | OnKnockRefused jstr
  | OnChat | OnUserMessage | FileTransferMessage | StreamMessage | CloseStreams | JoinAgain

record user =
  u_username :: "jstr option"
  u_permissions :: "jstr list"
  u_data :: jsval

record session =
  socks :: "ready_state list"
  socket :: "nat option"
  current :: "nat option"
  closed :: bool
  leaving :: bool
  resuming :: "(rat \<times> resume_timer option) option"
  resumeSecret :: "jstr option"
  received :: nat
  sentLog :: "(jstr \<times> jstr) sent_log option"
  version :: bool
  lastServerMessage :: "rat option"
  started :: rat
  pingHandler :: bool
  network :: "jstr option"
  group :: "jstr option"
  username :: "jstr option"
  permissions :: "jstr list"
  rtcConfiguration :: jsval
  users :: "(jstr, user) jsmap"
  lastJoin :: bool
  wire_out :: "(nat \<times> frame) list"
  calls :: "callback list"

text \<open>A connection that has just been told to connect, at time \<open>now\<close>.\<close>

definition connect :: "bool \<Rightarrow> rat \<Rightarrow> session" where
  "connect resumable now =
     \<lparr>socks = [SConnecting], socket = Some 0, current = Some 0, closed = False, leaving = False,
      resuming = None, resumeSecret = None, received = 0,
      sentLog = (if resumable then Some SentLog else None), version = False,
      lastServerMessage = None, started = now, pingHandler = True, network = None, group = None,
      username = None, permissions = [], rtcConfiguration = Null, users = [], lastJoin = False,
      wire_out = [], calls = []\<rparr>"

definition call :: "callback \<Rightarrow> session \<Rightarrow> session" where
  "call c s = s\<lparr>calls := calls s @ [c]\<rparr>"

section \<open>Sockets\<close>

definition is_open :: "nat \<Rightarrow> session \<Rightarrow> bool" where
  "is_open k s \<longleftrightarrow> k < length (socks s) \<and> socks s ! k = SOpen"

text \<open>\<open>WebSocket.send\<close> drops what is sent once the socket is closing.\<close>

definition ws_send :: "nat \<Rightarrow> frame \<Rightarrow> session \<Rightarrow> session" where
  "ws_send k f s = (if is_open k s then s\<lparr>wire_out := wire_out s @ [(k, f)]\<rparr> else s)"

definition ws_close :: "nat option \<Rightarrow> session \<Rightarrow> session" where
  "ws_close k s =
     (case k of
        None \<Rightarrow> s
      | Some k \<Rightarrow>
          if k < length (socks s) \<and> socks s ! k \<noteq> SClosed then s\<lparr>socks := (socks s)[k := SClosing]\<rparr> else s)"

definition close :: "session \<Rightarrow> session" where
  "close s = (ws_close (socket s) (s\<lparr>leaving := True\<rparr>))\<lparr>socket := None\<rparr>"

definition error :: "session \<Rightarrow> session" where
  "error s = close (call OnError s)"

text \<open>The numbered part of \<open>send\<close>, and \<open>send\<close>: the boolean says that it threw.\<close>

definition send_logged :: "nat \<Rightarrow> (jstr \<times> jstr) sent_log \<Rightarrow> jstr \<Rightarrow> jstr \<Rightarrow> session \<Rightarrow> session \<times> bool" where
  "send_logged k l ty m s =
     (let opened = is_open k s in
      if \<not> opened \<and> resumeSecret s = None then (s, True)
      else
        let s = s\<lparr>sentLog := Some (push (\<lambda>p. length (snd p)) (ty, m) l)\<rparr>
        in if resuming s \<noteq> None \<or> \<not> opened then (s, False) else (ws_send k (TextFrame ty m) s, False))"

definition send :: "jstr \<Rightarrow> jstr \<Rightarrow> session \<Rightarrow> session \<times> bool" where
  "send ty m s =
     (case socket s of
        None \<Rightarrow> (s, True)
      | Some k \<Rightarrow>
          (case if counted ty then sentLog s else None of
             Some l \<Rightarrow> send_logged k l ty m s
           | None \<Rightarrow> if is_open k s then (ws_send k (TextFrame ty m) s, False) else (s, True)))"

section \<open>Teardown and resumption\<close>

definition stopResuming :: "session \<Rightarrow> session" where
  "stopResuming s = s\<lparr>resuming := None\<rparr>"

definition leave_users :: "session \<Rightarrow> session" where
  "leave_users s = s\<lparr>users := [], calls := calls s @ map (\<lambda>u. OnUser (fst u)) (users s)\<rparr>"

definition gone :: "int \<Rightarrow> session \<Rightarrow> session" where
  "gone code s =
     (if closed s then s
      else
        let s = (stopResuming (s\<lparr>closed := True\<rparr>))\<lparr>resumeSecret := None\<rparr>;
            s = call OnBeforeClose s;
            s = call CloseStreams (s\<lparr>permissions := []\<rparr>);
            s = leave_users s;
            s = (if group s \<noteq> None then call OnJoined s else s);
            s = s\<lparr>group := None, username := None, pingHandler := False\<rparr>
        in call (OnClose code) s)"

text \<open>A new socket takes the place of the one in use.\<close>

definition attempt :: "rat \<Rightarrow> session \<Rightarrow> session" where
  "attempt since s =
     (let k = length (socks s);
          s = ws_close (current s) s
      in s\<lparr>socks := socks s @ [SConnecting], current := Some k, socket := Some k,
           resuming := Some (since, Some (NoAnswer k))\<rparr>)"

definition resume :: "rat \<Rightarrow> session \<Rightarrow> session" where
  "resume now s =
     (if closed s then s
      else
        let since = (case resuming s of None \<Rightarrow> now | Some (t, _) \<Rightarrow> t) in
        if now - since > GIVE_UP_AFTER
        then gone 1006 (ws_close (current s) (s\<lparr>resuming := Some (since, None), current := None\<rparr>))
        else attempt since s)"

definition retry :: "session \<Rightarrow> session" where
  "retry s = s\<lparr>resuming := map_option (\<lambda>(t, _). (t, Some Retry)) (resuming s)\<rparr>"

section \<open>What a socket raises\<close>

definition acts :: "nat \<Rightarrow> session \<Rightarrow> bool" where
  "acts k s \<longleftrightarrow> \<not> closed s \<and> current s = Some k"

definition onerror :: "nat \<Rightarrow> session \<Rightarrow> session" where
  "onerror k s = (if \<not> acts k s \<or> resuming s \<noteq> None then s else call OnError s)"

definition hello_for :: "session \<Rightarrow> hello" where
  "hello_for s =
     (if resuming s \<noteq> None then ResumeHello (resumeSecret s) (received s)
      else if sentLog s \<noteq> None then Resumable else Plain)"

definition onopen :: "nat \<Rightarrow> session \<Rightarrow> session" where
  "onopen k s =
     (if k < length (socks s) \<and> socks s ! k = SConnecting
      then let s = s\<lparr>socks := (socks s)[k := SOpen]\<rparr>
           in if acts k s then ws_send k (Handshake (hello_for s)) s else s
      else s)"

definition onclose :: "nat \<Rightarrow> int \<Rightarrow> rat \<Rightarrow> session \<Rightarrow> session" where
  "onclose k code now s =
     (let s = s\<lparr>socks := (socks s)[k := SClosed]\<rparr> in
      if current s \<noteq> Some k then s
      else if resuming s \<noteq> None \<and> \<not> leaving s \<and> code \<noteq> CLOSE_NO_RESUME then retry s
      else if resuming s = None \<and> sentLog s \<noteq> None \<and>
              onClose code (resumeSecret s \<noteq> None) (leaving s) = ResumeIt
      then resume now s
      else gone code s)"

definition on_timer :: "rat \<Rightarrow> session \<Rightarrow> session" where
  "on_timer now s =
     (case resuming s of
        Some (t, Some (NoAnswer k)) \<Rightarrow>
          let s = s\<lparr>resuming := Some (t, None)\<rparr> in if current s = Some k then resume now s else s
      | Some (t, Some Retry) \<Rightarrow> resume now (s\<lparr>resuming := Some (t, None)\<rparr>)
      | _ \<Rightarrow> s)"

text \<open>The text of a message that has only a type: \<open>{"type":"..."}\<close>.\<close>

definition only_type :: "jstr \<Rightarrow> jstr" where
  "only_type ty = js ''{'' @ [34] @ js ''type'' @ [34] @ js '':'' @ [34] @ ty @ [34] @ js ''}''"

definition ping_tick :: "rat \<Rightarrow> session \<Rightarrow> session" where
  "ping_tick now s =
     (if \<not> pingHandler s then s
      else case lastServerMessage s of
             None \<Rightarrow> if now - started s \<ge> 10000 then error s else s
           | Some heard \<Rightarrow>
               if resuming s \<noteq> None then s
               else
                 let d = now - heard in
                 if resumeSecret s \<noteq> None
                 then (case onTick d of
                         TResume \<Rightarrow> resume now s
                       | TPing \<Rightarrow> fst (send (js ''ping'') (only_type (js ''ping'')) s)
                       | TOk \<Rightarrow> s)
                 else if d > 50000 then gone 1006 (error s)
                 else if version s \<and> d \<ge> 15000 then fst (send (js ''ping'') (only_type (js ''ping'')) s)
                 else s)"

section \<open>Messages\<close>

datatype joined_kind = JJoin | JChange | JLeave | JFail | JRejoin | JOther

datatype user_kind = UAdd | UChange | UDelete | UKnock | UKnockCancel | UKnockRefused | UOther

datatype server_msg =
    Malformed
  | SHandshake "jsval list option"
  | SSession jsval
  | SNetwork jsval
  | SResumed jsval
  | SStream
  | SJoined joined_kind jstr "jstr option" "jstr list" jsval
  | SUser user_kind jstr "jstr option" "jstr list" jsval
  | SChat
  | SUserMessage jstr
  | SPing
  | SPong
  | SUnknown jstr

text \<open>The type of a message; those about streams are all numbered.\<close>

fun type_of :: "server_msg \<Rightarrow> jstr" where
  "type_of (SHandshake _) = js ''handshake''"
| "type_of (SSession _) = js ''sozvon-session''"
| "type_of (SNetwork _) = js ''sozvon-network''"
| "type_of (SResumed _) = js ''sozvon-resumed''"
| "type_of (SUnknown t) = t"
| "type_of _ = js ''other''"

definition set_user :: "jstr \<Rightarrow> jstr option \<Rightarrow> jstr list \<Rightarrow> jsval \<Rightarrow> session \<Rightarrow> session" where
  "set_user i name perms data s =
     s\<lparr>users := map_set i \<lparr>u_username = name, u_permissions = perms,
        u_data = (if truthy data then data else JObject)\<rparr> (users s)\<rparr>"

fun got_user :: "user_kind \<Rightarrow> jstr \<Rightarrow> jstr option \<Rightarrow> jstr list \<Rightarrow> jsval \<Rightarrow> session \<Rightarrow> session" where
  "got_user UAdd i name perms data s = call (OnUser i) (set_user i name perms data s)"
| "got_user UChange i name perms data s = call (OnUser i) (set_user i name perms data s)"
| "got_user UDelete i name perms data s = call (OnUser i) (s\<lparr>users := map_delete i (users s)\<rparr>)"
| "got_user UKnock i name perms data s = call (OnKnock i True) s"
| "got_user UKnockCancel i name perms data s = call (OnKnock i False) s"
| "got_user UKnockRefused i name perms data s = call (OnKnockRefused i) s"
| "got_user UOther i name perms data s = s"

definition got_joined :: "joined_kind \<Rightarrow> jstr \<Rightarrow> jstr option \<Rightarrow> jstr list \<Rightarrow> jsval \<Rightarrow> session \<Rightarrow> session" where
  "got_joined kind g name perms rtc s =
     (let enter = (\<lambda>s. call OnJoined (s\<lparr>group := Some g, username := name, permissions := perms, rtcConfiguration := rtc\<rparr>))
      in case kind of
           JLeave \<Rightarrow> call OnJoined ((leave_users s)\<lparr>username := None, permissions := [], rtcConfiguration := Null\<rparr>)
         | JFail \<Rightarrow> call OnJoined ((leave_users s)\<lparr>username := None, permissions := [], rtcConfiguration := Null\<rparr>)
         | JJoin \<Rightarrow> if group s \<noteq> None \<and> group s \<noteq> Some [] then s else enter s
         | JChange \<Rightarrow> if group s \<noteq> Some g then s else enter s
         | JRejoin \<Rightarrow> call OnJoined (if lastJoin s then call JoinAgain s else s)
         | JOther \<Rightarrow> call OnJoined s)"

definition got_resumed :: "nat \<Rightarrow> jsval \<Rightarrow> session \<Rightarrow> session" where
  "got_resumed k v s =
     (if resuming s = None then s
      else case Option.bind (sentLog s) (\<lambda>l. after l v) of
             None \<Rightarrow> gone 1006 (ws_close (Some k) (s\<lparr>current := None\<rparr>))
           | Some rest \<Rightarrow>
               call OnResumed (fold (\<lambda>(ty, m). ws_send k (TextFrame ty m)) rest (stopResuming s)))"

text \<open>The handler proper, after the checks and the counting.\<close>

fun handle :: "nat \<Rightarrow> server_msg \<Rightarrow> session \<Rightarrow> session" where
  "handle k (SHandshake v) s =
     (case v of
        Some vs \<Rightarrow>
          if JStr (js ''2'') \<in> set vs
          then let s = s\<lparr>version := True\<rparr> in if resuming s \<noteq> None then s else call OnConnected s
          else error (s\<lparr>version := False\<rparr>)
      | None \<Rightarrow> error (s\<lparr>version := False\<rparr>))"
| "handle k (SSession (JStr secret)) s = (if sentLog s \<noteq> None then s\<lparr>resumeSecret := Some secret\<rparr> else s)"
| "handle k (SNetwork (JStr n)) s = s\<lparr>network := Some n\<rparr>"
| "handle k (SResumed v) s = got_resumed k v s"
| "handle k SStream s = call StreamMessage s"
| "handle k (SJoined kind g name perms rtc) s = got_joined kind g name perms rtc s"
| "handle k (SUser kind i name perms data) s = got_user kind i name perms data s"
| "handle k SChat s = call OnChat s"
| "handle k (SUserMessage kind) s =
     call (if kind = js ''filetransfer'' then FileTransferMessage else OnUserMessage) s"
| "handle k SPing s = fst (send (js ''pong'') (only_type (js ''pong'')) s)"
| "handle k _ s = s"

definition gotMessage :: "nat \<Rightarrow> server_msg \<Rightarrow> rat \<Rightarrow> session \<Rightarrow> session" where
  "gotMessage k m now s =
     (if m = Malformed then error s
      else if (case m of SHandshake _ \<Rightarrow> False | _ \<Rightarrow> \<not> version s) then error s
      else
        let s = s\<lparr>lastServerMessage := Some now\<rparr>;
            s = (if sentLog s \<noteq> None \<and> counted (type_of m) then s\<lparr>received := received s + 1\<rparr> else s)
        in handle k m s)"

definition onmessage :: "nat \<Rightarrow> server_msg \<Rightarrow> rat \<Rightarrow> session \<Rightarrow> session" where
  "onmessage k m now s = (if acts k s then gotMessage k m now s else s)"

section \<open>Events\<close>

datatype net_event =
    Opened nat
  | Errored nat
  | Ended nat int
  | Got nat server_msg
  | TimerFires
  | PingTick
  | AppSend jstr jstr
  | AppClose

text \<open>A socket is reported closed once, and brings messages only while it is open.\<close>

definition live_socket :: "nat \<Rightarrow> session \<Rightarrow> bool" where
  "live_socket k s \<longleftrightarrow> k < length (socks s) \<and> socks s ! k \<noteq> SClosed"

definition may_bring :: "nat \<Rightarrow> session \<Rightarrow> bool" where
  "may_bring k s \<longleftrightarrow> k < length (socks s) \<and> socks s ! k = SOpen"

fun net_step :: "session \<Rightarrow> rat \<times> net_event \<Rightarrow> session" where
  "net_step s (now, Opened k) = onopen k s"
| "net_step s (now, Errored k) = onerror k s"
| "net_step s (now, Ended k code) = (if live_socket k s then onclose k code now s else s)"
| "net_step s (now, Got k m) = (if may_bring k s then onmessage k m now s else s)"
| "net_step s (now, TimerFires) = on_timer now s"
| "net_step s (now, PingTick) = ping_tick now s"
| "net_step s (now, AppSend ty m) = fst (send ty m s)"
| "net_step s (now, AppClose) = close s"

end
