(* ===== verification/GuestName.thy ===== *)
theory GuestName
  imports Prelude
begin

text \<open>
  static/guest-name.js: the pseudonym a guest joins an encrypted room under, the names that travel over
  the encrypted chat channel, and what is shown for a user. The parts of the page (static/galene.js)
  that use it follow: the name to join with, and the name shown for a user. \<open>URLSearchParams\<close> is a
  parameter; the random bytes are an argument.
\<close>

section \<open>Text\<close>

text \<open>White space as \<open>\s\<close> and \<open>trim\<close> have it.\<close>

definition js_space :: "16 word \<Rightarrow> bool" where
  "js_space c =
     (let u = unat c in
      9 \<le> u \<and> u \<le> 13 \<or> u \<in> {0x20, 0xA0, 0x1680, 0x2028, 0x2029, 0x202F, 0x205F, 0x3000, 0xFEFF} \<or>
      0x2000 \<le> u \<and> u \<le> 0x200A)"

definition js_trim :: "jstr \<Rightarrow> jstr" where
  "js_trim s = rev (dropWhile js_space (rev (dropWhile js_space s)))"

text \<open>\<open>replace(/\s+/g, ' ')\<close>: the boolean says that the previous character was a space.\<close>

fun collapse :: "bool \<Rightarrow> jstr \<Rightarrow> jstr" where
  "collapse b [] = []"
| "collapse b (c # s) =
     (if js_space c then (if b then collapse True s else 32 # collapse True s) else c # collapse False s)"

section \<open>The module\<close>

definition PREFIX :: "16 word" where "PREFIX = of_char (CHR ''~'')"
definition ALPHABET :: jstr where "ALPHABET = js ''abcdefghijkmnpqrstuvwxyz23456789''"
definition PSEUDONYM_LENGTH :: nat where "PSEUDONYM_LENGTH = 10"
definition KIND :: jstr where "KIND = js ''name''"
definition MARK :: jstr where "MARK = [1] @ js ''sozvon-name'' @ [1]"
definition MAX_NAME :: nat where "MAX_NAME = 64"

definition makePseudonym :: "byte list \<Rightarrow> jstr" where
  "makePseudonym bytes =
     PREFIX # map (\<lambda>i. ALPHABET ! (unat (bytes ! i) mod length ALPHABET)) [0..<PSEUDONYM_LENGTH]"

definition pattern_unit :: "16 word \<Rightarrow> bool" where
  "pattern_unit c \<longleftrightarrow> 97 \<le> unat c \<and> unat c \<le> 122 \<or> 50 \<le> unat c \<and> unat c \<le> 57"

fun isPseudonym :: "jsval \<Rightarrow> bool" where
  "isPseudonym (JStr (c # s)) \<longleftrightarrow> c = PREFIX \<and> length s = 10 \<and> list_all pattern_unit s"
| "isPseudonym _ \<longleftrightarrow> False"

definition banned :: "16 word \<Rightarrow> bool" where
  "banned c =
     (let u = unat c in
      u \<le> 0x1F \<or> 0x7F \<le> u \<and> u \<le> 0x9F \<or> 0x200B \<le> u \<and> u \<le> 0x200F \<or> 0x2028 \<le> u \<and> u \<le> 0x202E \<or>
      0x2066 \<le> u \<and> u \<le> 0x2069)"

definition clean_text :: "jstr \<Rightarrow> jstr" where
  "clean_text s = take MAX_NAME (js_trim (collapse False (filter (\<lambda>c. \<not> banned c) s)))"

fun clean :: "jsval \<Rightarrow> jstr" where
  "clean (JStr s) = clean_text s"
| "clean _ = []"

definition pack :: "jstr \<Rightarrow> jstr" where
  "pack name = MARK @ clean (JStr name)"

datatype guest_message = NameMessage jstr | ChatMessage | DroppedMessage

definition classify :: "jstr \<Rightarrow> jsval \<Rightarrow> guest_message" where
  "classify kind text =
     (let marked = (case text of JStr s \<Rightarrow> starts MARK s | _ \<Rightarrow> False) in
      if kind = KIND
      then let name = (case text of JStr s \<Rightarrow> if marked then clean (JStr (drop (length MARK) s)) else [] | _ \<Rightarrow> [])
           in if name \<noteq> [] then NameMessage name else DroppedMessage
      else if marked then DroppedMessage else ChatMessage)"

type_synonym book = "(jstr, jstr) jsmap"

definition book_set :: "jstr \<Rightarrow> jsval \<Rightarrow> book \<Rightarrow> book \<times> bool" where
  "book_set i name b =
     (let name = clean name in
      if name = [] \<or> map_get b i = Some name then (b, False) else (map_set i name b, True))"

definition book_delete :: "jstr \<Rightarrow> book \<Rightarrow> book" where
  "book_delete i b = map_delete i b"

definition book_shown :: "jstr \<Rightarrow> jsval \<Rightarrow> book \<Rightarrow> jstr" where
  "book_shown i username b =
     (if isPseudonym username then (case map_get b i of None \<Rightarrow> [] | Some n \<Rightarrow> n)
      else (case username of JStr u \<Rightarrow> u | _ \<Rightarrow> []))"

text \<open>\<open>get\<close> is what \<open>new URLSearchParams(s).get('name')\<close> answers, \<open>ser\<close> what
  \<open>new URLSearchParams({name}).toString()\<close> is.\<close>

definition nameFromHash :: "(jstr \<Rightarrow> jstr option) \<Rightarrow> jstr \<Rightarrow> jstr" where
  "nameFromHash get hash =
     (if length hash < 2 then [] else case get (drop 1 hash) of None \<Rightarrow> [] | Some n \<Rightarrow> clean (JStr n))"

definition withNameInHash :: "(jstr \<Rightarrow> jstr) \<Rightarrow> jstr \<Rightarrow> jstr \<Rightarrow> jstr" where
  "withNameInHash ser url name =
     (let name = clean (JStr name) in
      if name = [] then url else takeWhile (\<lambda>c. c \<noteq> 35) url @ [35] @ ser name)"

section \<open>Clean names\<close>

text \<open>What \<open>clean\<close> can return: no banned character, no space but single ones inside or a last one, and
  at most \<open>MAX_NAME\<close> code units.\<close>

fun single_spaced :: "bool \<Rightarrow> jstr \<Rightarrow> bool" where
  "single_spaced b [] = True"
| "single_spaced b (c # s) = (if js_space c then c = 32 \<and> \<not> b \<and> single_spaced True s else single_spaced False s)"

definition showable :: "jstr \<Rightarrow> bool" where
  "showable s \<longleftrightarrow> list_all (\<lambda>c. \<not> banned c) s \<and> single_spaced True s \<and> length s \<le> MAX_NAME"

lemma space_32: "js_space 32"
  by (simp add: js_space_def)

lemma not_banned_32: "\<not> banned 32"
  by (simp add: banned_def)

lemma single_spaced_collapse: "single_spaced b (collapse b s)"
  by (induction s arbitrary: b) (auto simp: space_32)

lemma collapse_single_spaced: "single_spaced b s \<Longrightarrow> collapse b s = s"
  by (induction s arbitrary: b) (auto split: if_splits)

lemma set_collapse: "set (collapse b s) \<subseteq> insert 32 (set s)"
  by (induction s arbitrary: b) auto

lemma single_spaced_weaken: "single_spaced True s \<Longrightarrow> single_spaced False s"
  by (cases s) auto

lemma single_spaced_dropWhile: "single_spaced False s \<Longrightarrow> single_spaced True (dropWhile js_space s)"
  by (induction s) (auto split: if_splits dest: single_spaced_weaken)

lemma single_spaced_append: "single_spaced b (s @ t) \<Longrightarrow> single_spaced b s"
  by (induction s arbitrary: b) (auto split: if_splits)

lemma single_spaced_take: "single_spaced b s \<Longrightarrow> single_spaced b (take n s)"
  using single_spaced_append [of b "take n s" "drop n s"] by simp

lemma js_trim_prefix: "\<exists>t. dropWhile js_space s = js_trim s @ t"
proof -
  have "rev (dropWhile js_space s) =
      takeWhile js_space (rev (dropWhile js_space s)) @ dropWhile js_space (rev (dropWhile js_space s))"
    by (rule takeWhile_dropWhile_id [symmetric])
  then have "dropWhile js_space s = js_trim s @ rev (takeWhile js_space (rev (dropWhile js_space s)))"
    unfolding js_trim_def by (metis rev_append rev_rev_ident)
  then show ?thesis ..
qed

lemma set_js_trim: "set (js_trim s) \<subseteq> set s"
  using js_trim_prefix [of s] set_dropWhileD [of _ js_space s] by (metis Un_iff set_append subsetI)

lemma showable_clean: "showable (clean v)"
proof (cases v)
  case (JStr s)
  let ?f = "filter (\<lambda>c. \<not> banned c) s"
  have "single_spaced True (js_trim (collapse False ?f))"
  proof -
    obtain t where t: "dropWhile js_space (collapse False ?f) = js_trim (collapse False ?f) @ t"
      using js_trim_prefix by blast
    have "single_spaced True (dropWhile js_space (collapse False ?f))"
      by (rule single_spaced_dropWhile [OF single_spaced_collapse])
    then show ?thesis unfolding t by (rule single_spaced_append)
  qed
  moreover have "c \<in> set (clean_text s) \<Longrightarrow> \<not> banned c" for c
  proof -
    assume "c \<in> set (clean_text s)"
    then have "c \<in> set (js_trim (collapse False ?f))" unfolding clean_text_def by (rule in_set_takeD)
    then have "c \<in> insert 32 (set ?f)" using set_js_trim set_collapse by blast
    then show "\<not> banned c" by (auto simp: not_banned_32)
  qed
  moreover have "single_spaced True (clean_text s)" "length (clean_text s) \<le> MAX_NAME"
    using single_spaced_take [OF \<open>single_spaced True (js_trim (collapse False ?f))\<close>] by (simp_all add: clean_text_def)
  ultimately show ?thesis by (simp add: JStr showable_def list_all_iff)
qed (simp_all add: showable_def)

lemma clean_showable:
  assumes "showable s"
  shows "clean (JStr s) = js_trim s"
proof -
  have "filter (\<lambda>c. \<not> banned c) s = s" using assms by (simp add: showable_def list_all_iff)
  moreover have "collapse False s = s"
    using assms by (simp add: showable_def collapse_single_spaced single_spaced_weaken)
  moreover have "length (js_trim s) \<le> length s"
    unfolding js_trim_def using length_dropWhile_le [of js_space] by (metis le_trans length_rev)
  ultimately show ?thesis using assms by (simp add: clean_text_def showable_def)
qed

lemma js_trim_trim: "js_trim (js_trim s) = js_trim s"
proof -
  let ?d = "dropWhile js_space s"
  obtain t where t: "?d = js_trim s @ t" using js_trim_prefix by blast
  have "dropWhile js_space (js_trim s) = js_trim s"
  proof (cases "js_trim s")
    case (Cons c r)
    then have "hd ?d = c" "?d \<noteq> []" using t by auto
    then have "\<not> js_space c" using hd_dropWhile [of js_space s] by auto
    then show ?thesis using Cons by simp
  qed simp
  moreover have "dropWhile js_space (rev (js_trim s)) = rev (js_trim s)"
    by (simp add: js_trim_def)
  ultimately show ?thesis by (metis js_trim_def rev_rev_ident)
qed

text \<open>One cleaning may leave a last space where the text was cut; a second one settles it.\<close>

lemma clean_settles: "clean (JStr (clean (JStr (clean v)))) = clean (JStr (clean v))"
proof -
  have c: "clean (JStr (clean v)) = js_trim (clean v)" by (rule clean_showable [OF showable_clean])
  then have "showable (js_trim (clean v))" by (metis showable_clean)
  from clean_showable [OF this] show ?thesis unfolding c js_trim_trim .
qed

lemma clean_kept:
  assumes "clean v \<noteq> []"
  shows "clean (JStr (clean v)) \<noteq> []"
proof
  assume "clean (JStr (clean v)) = []"
  then have e: "js_trim (clean v) = []" unfolding clean_showable [OF showable_clean] .
  obtain c r where c: "clean v = c # r" using assms by (cases "clean v") auto
  moreover have "\<not> js_space c" using showable_clean [of v] by (simp add: c showable_def split: if_splits)
  ultimately have "rev r @ [c] = [] \<or> dropWhile js_space (rev r @ [c]) = []" using e by (simp add: js_trim_def)
  then show False using \<open>\<not> js_space c\<close> by (simp add: dropWhile_eq_Nil_conv)
qed

lemma clean_text_Nil: "clean_text [] = []"
  by (simp add: clean_text_def js_trim_def)

section \<open>Names and chat on one channel\<close>

lemma starts_append [simp]: "starts p (p @ s)"
  by (simp add: starts_def)

text \<open>What arrives as a name was sent as one under both labels, and is fit to be shown; what
  arrives as chat carries neither label; a packed name is read back as the cleaned name under its own
  kind and is dropped under every other.\<close>

theorem names_and_chat_apart:
  "(classify kind text = NameMessage n \<longrightarrow>
      kind = KIND \<and> (\<exists>s. text = JStr (MARK @ s)) \<and> n \<noteq> [] \<and> showable n) \<and>
   (classify kind text = ChatMessage \<longrightarrow> kind \<noteq> KIND \<and> \<not> (\<exists>s. text = JStr (MARK @ s))) \<and>
   classify KIND (JStr (pack name)) =
      (if clean (JStr name) = [] then DroppedMessage else NameMessage (clean (JStr (clean (JStr name))))) \<and>
   (kind \<noteq> KIND \<longrightarrow> classify kind (JStr (pack name)) = DroppedMessage)"
proof (intro conjI impI)
  assume c: "classify kind text = NameMessage n"
  then obtain s where s: "text = JStr s" "starts MARK s" "kind = KIND" "n = clean (JStr (drop (length MARK) s))" "n \<noteq> []"
    by (cases "text") (auto simp: classify_def Let_def split: if_splits)
  have "s = MARK @ drop (length MARK) s" using s(2) unfolding starts_def by (metis append_take_drop_id)
  then show "\<exists>s. text = JStr (MARK @ s)" using s(1) by metis
  show "kind = KIND" by (rule s(3))
  show "n \<noteq> []" by (rule s(5))
  show "showable n" unfolding s(4) by (rule showable_clean)
next
  assume c: "classify kind text = ChatMessage"
  then show "kind \<noteq> KIND" by (auto simp: classify_def Let_def split: if_splits)
  show "\<not> (\<exists>s. text = JStr (MARK @ s))" using c by (auto simp: classify_def Let_def split: if_splits)
next
  show "classify KIND (JStr (pack name)) =
      (if clean (JStr name) = [] then DroppedMessage else NameMessage (clean (JStr (clean (JStr name)))))"
  proof (cases "clean (JStr name) = []")
    case True
    then show ?thesis by (simp add: classify_def pack_def clean_text_Nil)
  next
    case False
    then show ?thesis using clean_kept [OF False] by (simp add: classify_def pack_def)
  qed
qed (simp add: classify_def pack_def)

theorem names_and_chat_apart_witness:
  "classify KIND (JStr (pack (js ''Ann''))) = NameMessage (js ''Ann'') \<and>
   classify (js ''me'') (JStr (pack (js ''Ann''))) = DroppedMessage"
  using names_and_chat_apart [of "js ''me''" "JStr []" "[]" "js ''Ann''"]
  by (simp add: KIND_def js_def clean_text_def js_trim_def banned_def js_space_def MAX_NAME_def)

section \<open>Pseudonyms\<close>

lemma length_ALPHABET: "length ALPHABET = 32"
  by (simp add: ALPHABET_def js_def)

lemma distinct_ALPHABET: "distinct ALPHABET"
  by (simp add: ALPHABET_def js_def)

lemma pattern_ALPHABET: "list_all pattern_unit ALPHABET"
  by (simp add: ALPHABET_def js_def pattern_unit_def)

lemma card_residue:
  assumes "k < 32"
  shows "card {b :: byte. unat b mod 32 = k} = 8"
proof -
  have "{b :: byte. unat b mod 32 = k} = (\<lambda>q. of_nat (32 * q + k)) ` {..<8}"
  proof (intro equalityI subsetI)
    fix b :: byte
    assume b: "b \<in> {b. unat b mod 32 = k}"
    have "unat b < 256" by (rule unat_byte_less)
    then have "unat b div 32 \<in> {..<8}" by auto
    moreover have "b = of_nat (32 * (unat b div 32) + k)"
      using b mult_div_mod_eq [of 32 "unat b"] \<open>unat b < 256\<close>
      by (simp add: word_unat_eq_iff unat_of_nat del: of_nat_add of_nat_mult)
    ultimately show "b \<in> (\<lambda>q. of_nat (32 * q + k)) ` {..<8}" by blast
  qed (use assms in \<open>auto simp: unat_of_nat simp del: of_nat_add of_nat_mult\<close>)
  moreover have "inj_on (\<lambda>q. of_nat (32 * q + k) :: byte) {..<8}"
  proof (rule inj_onI)
    fix p q :: nat
    assume "p \<in> {..<8}" "q \<in> {..<8}" and "(of_nat (32 * p + k) :: byte) = of_nat (32 * q + k)"
    then have "32 * p + k = 32 * q + k" using assms by (intro of_nat_byte_inject) auto
    then show "p = q" by simp
  qed
  ultimately show ?thesis by (simp add: card_image)
qed

text \<open>How many byte strings give one text, letter by letter.\<close>

lemma card_map_eq:
  fixes f :: "byte \<Rightarrow> 'a"
  assumes "\<forall>c \<in> set s. card {b. f b = c} = k"
  shows "card {bs. map f bs = s} = k ^ length s"
  using assms
proof (induction s)
  case (Cons c s)
  have "{bs. map f bs = c # s} = (\<lambda>(b, bs). b # bs) ` ({b. f b = c} \<times> {bs. map f bs = s})"
    by (force simp: map_eq_Cons_conv)
  moreover have "inj_on (\<lambda>(b, bs). b # bs) ({b. f b = c} \<times> {bs. map f bs = s})"
    by (auto simp: inj_on_def)
  ultimately show ?case using Cons by (simp add: card_image card_cartesian_product)
qed simp

lemma makePseudonym_map:
  "length bs = 10 \<Longrightarrow> makePseudonym bs = PREFIX # map (\<lambda>b. ALPHABET ! (unat b mod 32)) bs"
  unfolding makePseudonym_def length_ALPHABET PSEUDONYM_LENGTH_def by (auto intro!: nth_equalityI)

lemma isPseudonym_made:
  assumes "length bs = PSEUDONYM_LENGTH"
  shows "isPseudonym (JStr (makePseudonym bs))"
proof -
  have "list_all pattern_unit (map (\<lambda>b. ALPHABET ! (unat b mod 32)) bs)"
    using pattern_ALPHABET length_ALPHABET by (auto simp: list_all_iff)
  then show ?thesis using assms by (simp add: makePseudonym_map PSEUDONYM_LENGTH_def)
qed

lemma card_letter:
  assumes "c \<in> set ALPHABET"
  shows "card {b :: byte. ALPHABET ! (unat b mod 32) = c} = 8"
proof -
  obtain k where k: "k < 32" "ALPHABET ! k = c" using assms by (metis in_set_conv_nth length_ALPHABET)
  have "ALPHABET ! (unat b mod 32) = c \<longleftrightarrow> unat b mod 32 = k" for b :: byte
    using nth_eq_iff_index_eq [OF distinct_ALPHABET, of "unat b mod 32" k] k by (simp add: length_ALPHABET)
  then show ?thesis using card_residue [OF k(1)] by simp
qed

text \<open>Whatever the random bytes, the pseudonym is one that the page recognises and never shows;
  and every text of ten letters of the alphabet comes from equally many byte strings, so equally
  distributed bytes give equally distributed pseudonyms.\<close>

theorem pseudonyms_uniform:
  "(length bs = PSEUDONYM_LENGTH \<longrightarrow> isPseudonym (JStr (makePseudonym bs)) \<and>
      book_shown i (JStr (makePseudonym bs)) [] = []) \<and>
   (length s = PSEUDONYM_LENGTH \<and> set s \<subseteq> set ALPHABET \<longrightarrow>
      card {bs. length bs = PSEUDONYM_LENGTH \<and> makePseudonym bs = PREFIX # s} = 8 ^ 10)"
proof (intro conjI impI)
  assume b: "length bs = PSEUDONYM_LENGTH"
  then show p: "isPseudonym (JStr (makePseudonym bs))" by (rule isPseudonym_made)
  show "book_shown i (JStr (makePseudonym bs)) [] = []" using p by (simp add: book_shown_def)
next
  assume s: "length s = PSEUDONYM_LENGTH \<and> set s \<subseteq> set ALPHABET"
  let ?f = "\<lambda>b :: byte. ALPHABET ! (unat b mod 32)"
  have "{bs. length bs = PSEUDONYM_LENGTH \<and> makePseudonym bs = PREFIX # s} = {bs. map ?f bs = s}"
    using s makePseudonym_map by (auto simp: PSEUDONYM_LENGTH_def)
  moreover have "card {bs. map ?f bs = s} = 8 ^ length s"
    by (rule card_map_eq) (use s card_letter in blast)
  ultimately show "card {bs. length bs = PSEUDONYM_LENGTH \<and> makePseudonym bs = PREFIX # s} = 8 ^ 10"
    using s by (simp add: PSEUDONYM_LENGTH_def)
qed

theorem pseudonyms_uniform_witness:
  "isPseudonym (JStr (makePseudonym (replicate 10 7))) \<and>
   card {bs. length bs = PSEUDONYM_LENGTH \<and> makePseudonym bs = PREFIX # replicate 10 97} = 8 ^ 10"
proof -
  have "length (replicate 10 (7 :: byte)) = PSEUDONYM_LENGTH" "length (replicate 10 (97 :: 16 word)) = PSEUDONYM_LENGTH"
    by (simp_all add: PSEUDONYM_LENGTH_def)
  moreover have "set (replicate 10 97) \<subseteq> set ALPHABET" by (simp add: ALPHABET_def js_def)
  ultimately show ?thesis
    using pseudonyms_uniform [of "replicate 10 7" "[]" "replicate 10 97"] by blast
qed

section \<open>The page\<close>

text \<open>What a join is made with: a password (perhaps empty), a token, or the group's authorisation
  server. The name the guest typed and the pseudonym that stands for it are the page's.\<close>

datatype credentials = Password jstr | Token jstr | AuthServer jstr

record own_name =
  ownRealName :: "jstr option"
  ownPseudonym :: "jstr option"

definition no_own_name :: own_name where
  "no_own_name = \<lparr>ownRealName = None, ownPseudonym = None\<rparr>"

definition account_join :: "bool \<Rightarrow> credentials \<Rightarrow> bool" where
  "account_join usingRememberToken c \<longleftrightarrow>
     usingRememberToken \<or> (case c of Password p \<Rightarrow> p \<noteq> [] | Token t \<Rightarrow> False | AuthServer p \<Rightarrow> True)"

definition given :: "jstr option \<Rightarrow> bool" where
  "given s \<longleftrightarrow> s \<noteq> None \<and> s \<noteq> Some []"

definition joinUsername ::
  "byte list \<Rightarrow> bool \<Rightarrow> bool \<Rightarrow> bool \<Rightarrow> jstr option \<Rightarrow> credentials \<Rightarrow> own_name \<Rightarrow> own_name \<times> jstr option" where
  "joinUsername random usingRememberToken e2ee operatorRoom name c w =
     (if \<not> given name \<or> \<not> e2ee \<or> operatorRoom \<or> account_join usingRememberToken c
      then (no_own_name, name)
      else
        let p = (if ownRealName w \<noteq> name \<or> \<not> given (ownPseudonym w) then Some (makePseudonym random)
                 else ownPseudonym w)
        in (\<lparr>ownRealName = name, ownPseudonym = p\<rparr>, p))"

definition hidePseudonym :: "jsval \<Rightarrow> jstr" where
  "hidePseudonym username =
     (if isPseudonym username then [] else case username of JStr u \<Rightarrow> u | _ \<Rightarrow> [])"

definition ownShownName :: "jsval \<Rightarrow> own_name \<Rightarrow> jstr" where
  "ownShownName username w =
     (let pseudo = isPseudonym username in
      if given (ownRealName w) \<and> (\<not> truthy username \<or> pseudo) then the (ownRealName w)
      else if pseudo then [] else case username of JStr u \<Rightarrow> u | _ \<Rightarrow> [])"

definition shownName :: "jstr \<Rightarrow> jstr \<Rightarrow> jsval \<Rightarrow> own_name \<Rightarrow> book \<Rightarrow> jstr" where
  "shownName me i username w b =
     (if i \<noteq> [] \<and> i = me then ownShownName username w else book_shown i username b)"

text \<open>A page's joins, one after the other: the random bytes and what the form, the credentials and the
  group's status were.\<close>

record join_input =
  in_random :: "byte list"
  in_remember :: bool
  in_e2ee :: bool
  in_hub :: bool
  in_name :: "jstr option"
  in_creds :: credentials

fun joins :: "own_name \<Rightarrow> join_input list \<Rightarrow> (own_name \<times> jstr option) list" where
  "joins w [] = []"
| "joins w (j # ins) =
     (let r = joinUsername (in_random j) (in_remember j) (in_e2ee j) (in_hub j) (in_name j) (in_creds j) w
      in r # joins (fst r) ins)"

definition own_ok :: "own_name \<Rightarrow> bool" where
  "own_ok w \<longleftrightarrow> (given (ownPseudonym w) \<longrightarrow> isPseudonym (JStr (the (ownPseudonym w))))"

definition guest_join :: "join_input \<Rightarrow> bool" where
  "guest_join j \<longleftrightarrow> in_e2ee j \<and> \<not> in_hub j \<and> \<not> account_join (in_remember j) (in_creds j) \<and> given (in_name j)"

definition named_apart :: "join_input \<Rightarrow> own_name \<times> jstr option \<Rightarrow> bool" where
  "named_apart j r \<longleftrightarrow>
     (if guest_join j
      then (\<exists>p. snd r = Some p \<and> isPseudonym (JStr p)) \<and> ownRealName (fst r) = in_name j \<and>
        ownShownName (JStr (the (snd r))) (fst r) = the (in_name j)
      else snd r = in_name j)"

lemma joinUsername_ok:
  assumes "own_ok w" and "length (in_random j) = PSEUDONYM_LENGTH"
  defines "r \<equiv> joinUsername (in_random j) (in_remember j) (in_e2ee j) (in_hub j) (in_name j) (in_creds j) w"
  shows "own_ok (fst r) \<and> named_apart j r"
proof (cases "guest_join j")
  case False
  then have "r = (no_own_name, in_name j)" unfolding r_def joinUsername_def guest_join_def by auto
  then show ?thesis using False by (simp add: own_ok_def no_own_name_def given_def named_apart_def)
next
  case True
  define p where "p = (if ownRealName w \<noteq> in_name j \<or> \<not> given (ownPseudonym w)
    then makePseudonym (in_random j) else the (ownPseudonym w))"
  have "isPseudonym (JStr p)"
    using assms(1) isPseudonym_made [OF assms(2)] by (auto simp: p_def own_ok_def)
  moreover have "r = (\<lparr>ownRealName = in_name j, ownPseudonym = Some p\<rparr>, Some p)"
    using True unfolding r_def joinUsername_def guest_join_def p_def by (auto simp: given_def Let_def)
  ultimately show ?thesis
    using True by (auto simp: own_ok_def named_apart_def ownShownName_def guest_join_def given_def)
qed



end
