(* ===== verification/Remember.thy ===== *)
theory Remember
  imports GuestName
begin

text \<open>
  The credentials an operator's browser keeps (static/galene.js): the tokens remembered for a month in
  local storage, one per group and some valid for the group's rooms too, the session token of a tab,
  and what a rejoin is made with. Local storage holds an object whose entries are listed in the order
  of \<open>for ... in\<close>; a time of expiry that is missing or that \<open>Date\<close> cannot read is \<open>None\<close>.
\<close>

section \<open>The stores\<close>

record remembered =
  r_token :: jstr
  r_username :: jstr
  r_expires :: "rat option"
  r_includeSubgroups :: bool

record op_session =
  os_hub :: jstr
  os_token :: jstr
  os_username :: jstr
  os_expires :: "rat option"

record stores =
  remember :: "(jstr, remembered) jsmap"
  op_session :: "op_session option"

definition past :: "rat \<Rightarrow> rat option \<Rightarrow> bool" where
  "past now expires = (case expires of None \<Rightarrow> False | Some t \<Rightarrow> t < now)"

definition under :: "jstr \<Rightarrow> jstr \<Rightarrow> bool" where
  "under grp g = starts (g @ [47]) grp"

definition better :: "jstr \<Rightarrow> jstr option \<Rightarrow> jstr \<times> remembered \<Rightarrow> jstr option" where
  "better grp best e =
     (if r_token (snd e) \<noteq> [] \<and> r_includeSubgroups (snd e) \<and> under grp (fst e) \<and>
         (case best of None \<Rightarrow> True | Some b \<Rightarrow> length (fst e) > length b)
      then Some (fst e) else best)"

definition rememberTokenGroup :: "(jstr, remembered) jsmap \<Rightarrow> jstr \<Rightarrow> jstr option" where
  "rememberTokenGroup all grp =
     (if (case map_get all grp of None \<Rightarrow> False | Some t \<Rightarrow> r_token t \<noteq> []) then Some grp
      else foldl (better grp) None all)"

definition clearRememberToken :: "jstr \<Rightarrow> stores \<Rightarrow> stores" where
  "clearRememberToken grp s = s\<lparr>remember := map_delete grp (remember s)\<rparr>"

definition loadRememberToken :: "rat \<Rightarrow> jstr \<Rightarrow> stores \<Rightarrow> stores \<times> remembered option" where
  "loadRememberToken now grp s =
     (case rememberTokenGroup (remember s) grp of
        None \<Rightarrow> (s, None)
      | Some key \<Rightarrow>
          (case map_get (remember s) key of
             None \<Rightarrow> (s, None)
           | Some t \<Rightarrow>
               if r_token t = [] then (s, None)
               else if past now (r_expires t) then (clearRememberToken key s, None)
               else (s, Some t)))"

definition saveRememberToken :: "jstr \<Rightarrow> jstr \<Rightarrow> jstr \<Rightarrow> rat option \<Rightarrow> bool \<Rightarrow> stores \<Rightarrow> stores" where
  "saveRememberToken grp tok name expires subgroups s =
     s\<lparr>remember := map_set grp
        \<lparr>r_token = tok, r_username = name, r_expires = expires, r_includeSubgroups = subgroups\<rparr> (remember s)\<rparr>"

definition loadOperatorSession :: "rat \<Rightarrow> jstr \<Rightarrow> stores \<Rightarrow> stores \<times> op_session option" where
  "loadOperatorSession now grp s =
     (case op_session s of
        None \<Rightarrow> (s, None)
      | Some o' \<Rightarrow>
          if os_token o' = [] \<or> os_hub o' = [] then (s, None)
          else if \<not> (grp = os_hub o' \<or> under grp (os_hub o')) then (s, None)
          else if past now (os_expires o') then (s\<lparr>op_session := None\<rparr>, None)
          else (s, Some o'))"

definition saveOperatorSession :: "jstr \<Rightarrow> jstr \<Rightarrow> jstr \<Rightarrow> rat option \<Rightarrow> stores \<Rightarrow> stores" where
  "saveOperatorSession hub tok name expires s =
     s\<lparr>op_session := Some \<lparr>os_hub = hub, os_token = tok, os_username = name, os_expires = expires\<rparr>\<rparr>"

section \<open>What a rejoin is made with\<close>

record join_params =
  j_group :: jstr
  j_username :: "jstr option"
  j_credentials :: credentials

fun is_token :: "credentials \<Rightarrow> bool" where
  "is_token (Token t) = True"
| "is_token _ = False"

definition with_remembered :: "remembered \<Rightarrow> join_params \<Rightarrow> join_params" where
  "with_remembered t j =
     j\<lparr>j_username := (if r_username t \<noteq> [] then Some (r_username t) else j_username j),
       j_credentials := Token (r_token t)\<rparr>"

definition freshRejoin :: "rat \<Rightarrow> join_params \<Rightarrow> stores \<Rightarrow> stores \<times> join_params" where
  "freshRejoin now j s =
     (if \<not> is_token (j_credentials j) then (s, j)
      else case loadOperatorSession now (j_group j) s of
             (s, Some o') \<Rightarrow> (s, j\<lparr>j_credentials := Token (os_token o')\<rparr>)
           | (s, None) \<Rightarrow>
               (case loadRememberToken now (j_group j) s of
                  (s, Some t) \<Rightarrow> (s, with_remembered t j)
                | (s, None) \<Rightarrow> (s, j)))"

definition rememberedRejoin :: "rat \<Rightarrow> join_params \<Rightarrow> stores \<Rightarrow> stores \<times> join_params option" where
  "rememberedRejoin now j s =
     (if \<not> is_token (j_credentials j) then (s, None)
      else case loadRememberToken now (j_group j) s of
             (s, None) \<Rightarrow> (s, None)
           | (s, Some t) \<Rightarrow>
               if Token (r_token t) = j_credentials j then (s, None) else (s, Some (with_remembered t j)))"

text \<open>A refused rejoin (\<open>gotJoined\<close>, case \<open>'fail'\<close>): the remembered token gets its turn, and a session
  token that was the one refused is dropped. \<open>None\<close> is giving up.\<close>

definition refused :: "rat \<Rightarrow> jstr \<Rightarrow> join_params \<Rightarrow> stores \<Rightarrow> stores \<times> join_params option" where
  "refused now grp j s =
     (case rememberedRejoin now j s of
        (s, None) \<Rightarrow> (s, None)
      | (s, Some alt) \<Rightarrow>
          (case loadOperatorSession now grp s of
             (s, None) \<Rightarrow> (s, Some alt)
           | (s, Some o') \<Rightarrow>
               (if Token (os_token o') = j_credentials j then s\<lparr>op_session := None\<rparr> else s, Some alt)))"

text \<open>A rejoin that the server refuses every time: the credentials it is tried with, until the page
  gives up or \<open>n\<close> refusals have come, the clock at each given by \<open>clock\<close>.\<close>

fun refusals :: "(nat \<Rightarrow> rat) \<Rightarrow> jstr \<Rightarrow> nat \<Rightarrow> join_params \<Rightarrow> stores \<Rightarrow> credentials list" where
  "refusals clock grp 0 j s = []"
| "refusals clock grp (Suc n) j s =
     (let (s, j) = freshRejoin (clock (Suc n)) j s in
      j_credentials j #
        (case refused (clock (Suc n)) grp j s of
           (s, None) \<Rightarrow> []
         | (s, Some alt) \<Rightarrow> refusals clock grp n alt s))"

section \<open>Lemmas\<close>

definition covers :: "jstr \<Rightarrow> jstr \<Rightarrow> remembered \<Rightarrow> bool" where
  "covers grp g t \<longleftrightarrow> g = grp \<or> r_includeSubgroups t \<and> under grp g"

lemma better_cases:
  "better grp best e = best \<or> better grp best e = Some (fst e) \<and> r_token (snd e) \<noteq> [] \<and> r_includeSubgroups (snd e) \<and> under grp (fst e)"
  by (simp add: better_def)

lemma foldl_better:
  "foldl (better grp) best all = Some g \<Longrightarrow>
     best = Some g \<or> (\<exists>t. (g, t) \<in> set all \<and> r_token t \<noteq> [] \<and> r_includeSubgroups t \<and> under grp g)"
proof (induction all arbitrary: best)
  case (Cons e all)
  then consider "better grp best e = Some g" |
    "\<exists>t. (g, t) \<in> set all \<and> r_token t \<noteq> [] \<and> r_includeSubgroups t \<and> under grp g" by fastforce
  then show ?case
  proof cases
    case 1
    with better_cases [of grp best e] show ?thesis by (cases e) auto
  qed auto
qed simp

lemma rememberTokenGroup_covers:
  assumes "well_keyed all" and "rememberTokenGroup all grp = Some g"
  shows "\<exists>t. map_get all g = Some t \<and> r_token t \<noteq> [] \<and> covers grp g t"
proof (cases "case map_get all grp of None \<Rightarrow> False | Some t \<Rightarrow> r_token t \<noteq> []")
  case True
  then show ?thesis using assms(2) by (auto simp: rememberTokenGroup_def covers_def split: option.splits)
next
  case False
  then have "foldl (better grp) None all = Some g" using assms(2) by (simp add: rememberTokenGroup_def)
  from foldl_better [OF this] obtain t where "(g, t) \<in> set all" "r_token t \<noteq> []" "r_includeSubgroups t" "under grp g"
    by auto
  then show ?thesis using assms(1) by (auto simp: covers_def well_keyed_def)
qed

text \<open>What a load gives, and what it leaves.\<close>

lemma load_remember_cases:
  assumes "loadRememberToken now grp s = (s', r)"
  obtains (nothing) "r = None" "s' = s"
  | (expired) key t where "rememberTokenGroup (remember s) grp = Some key" "map_get (remember s) key = Some t"
      "past now (r_expires t)" "s' = s\<lparr>remember := map_delete key (remember s)\<rparr>" "r = None"
  | (found) key t where "rememberTokenGroup (remember s) grp = Some key" "map_get (remember s) key = Some t"
      "r_token t \<noteq> []" "\<not> past now (r_expires t)" "s' = s" "r = Some t"
proof (cases "rememberTokenGroup (remember s) grp")
  case None
  then have "r = None" "s' = s" using assms by (simp_all add: loadRememberToken_def)
  then show ?thesis by (rule nothing)
next
  case key: (Some key)
  show ?thesis
  proof (cases "map_get (remember s) key")
    case None
    then have "r = None" "s' = s" using assms key by (simp_all add: loadRememberToken_def)
    then show ?thesis by (rule nothing)
  next
    case t: (Some t)
    have d: "(if r_token t = [] then (s, None)
        else if past now (r_expires t) then (clearRememberToken key s, None) else (s, Some t)) = (s', r)"
      using assms key t by (simp add: loadRememberToken_def)
    consider "r_token t = []" | "r_token t \<noteq> []" "past now (r_expires t)" | "r_token t \<noteq> []" "\<not> past now (r_expires t)"
      by blast
    then show ?thesis
    proof cases
      case 1
      then have "r = None" "s' = s" using d by simp_all
      then show ?thesis by (rule nothing)
    next
      case 2
      show ?thesis by (rule expired [OF key t 2(2)]) (use d 2 in \<open>simp_all add: clearRememberToken_def\<close>)
    next
      case 3
      show ?thesis by (rule found [OF key t 3]) (use d 3 in simp_all)
    qed
  qed
qed

lemma delete_shorter: "map_get m k = Some x \<Longrightarrow> length (map_delete k m) < length m"
  by (auto simp: AList.delete_eq intro!: length_filter_less dest: map_of_SomeD)

lemma load_remember:
  assumes k: "well_keyed (remember s)" and l: "loadRememberToken now grp s = (s', r)"
  shows "well_keyed (remember s')" and "op_session s' = op_session s"
    and "length (remember s') \<le> length (remember s)"
    and "r = Some t \<Longrightarrow> s' = s \<and> r_token t \<noteq> [] \<and> \<not> past now (r_expires t) \<and>
      (\<exists>g. map_get (remember s) g = Some t \<and> covers grp g t)"
    and "r = None \<Longrightarrow> s' \<noteq> s \<Longrightarrow> length (remember s') < length (remember s) \<and>
      (\<exists>e \<in> set (remember s). past now (r_expires (snd e)))"
proof -
  show "well_keyed (remember s')" using l k by (cases rule: load_remember_cases) (simp_all add: js_store.ok_drop)
  show "op_session s' = op_session s" using l by (cases rule: load_remember_cases) simp_all
  show "length (remember s') \<le> length (remember s)"
    using l by (cases rule: load_remember_cases) (simp_all add: delete_shorter less_imp_le)
  show "s' = s \<and> r_token t \<noteq> [] \<and> \<not> past now (r_expires t) \<and> (\<exists>g. map_get (remember s) g = Some t \<and> covers grp g t)"
    if "r = Some t"
    using l
  proof (cases rule: load_remember_cases)
    case (found key u)
    then show ?thesis using that rememberTokenGroup_covers [OF k found(1)] by auto
  qed (use that in simp_all)
  show "length (remember s') < length (remember s) \<and> (\<exists>e \<in> set (remember s). past now (r_expires (snd e)))"
    if "r = None" "s' \<noteq> s"
    using l
  proof (cases rule: load_remember_cases)
    case (expired key u)
    then have "(key, u) \<in> set (remember s)" by (intro map_of_SomeD)
    then show ?thesis using expired delete_shorter [OF expired(2)] by force
  qed (use that in simp_all)
qed

lemma load_session:
  assumes "loadOperatorSession now grp s = (s', r)"
  shows "remember s' = remember s"
    and "r = Some w \<Longrightarrow> s' = s \<and> op_session s = Some w \<and> os_token w \<noteq> [] \<and> \<not> past now (os_expires w) \<and>
      (grp = os_hub w \<or> under grp (os_hub w))"
    and "r = None \<Longrightarrow> s' = s \<or> op_session s' = None"
    and "r = None \<Longrightarrow> loadOperatorSession now grp s' = (s', None)"
  using assms by (auto simp: loadOperatorSession_def split: option.splits if_splits)

text \<open>C33: whatever is stored, a rejoin keeps its group, and is made with the credentials it had or with
  a token that has not expired and was stored for that group or for a hub above it and its rooms.\<close>

theorem rejoin_token_covers_group:
  assumes "well_keyed (remember s)" and "freshRejoin now j s = (s', j')"
  shows "j_group j' = j_group j \<and>
    (j' = j \<or>
     (\<exists>w. op_session s = Some w \<and> j_credentials j' = Token (os_token w) \<and> j_username j' = j_username j \<and>
        \<not> past now (os_expires w) \<and> (j_group j = os_hub w \<or> under (j_group j) (os_hub w))) \<or>
     (\<exists>g t. map_get (remember s) g = Some t \<and> j_credentials j' = Token (r_token t) \<and>
        \<not> past now (r_expires t) \<and> (g = j_group j \<or> r_includeSubgroups t \<and> under (j_group j) g)))"
proof -
  obtain s1 r1 where l1: "loadOperatorSession now (j_group j) s = (s1, r1)" by fastforce
  obtain s2 r2 where l2: "loadRememberToken now (j_group j) s1 = (s2, r2)" by fastforce
  have k: "well_keyed (remember s1)" using assms(1) load_session(1) [OF l1] by simp
  show ?thesis
  proof (cases "is_token (j_credentials j)")
    case False
    then show ?thesis using assms(2) by (simp add: freshRejoin_def)
  next
    case True
    show ?thesis
    proof (cases r1)
      case (Some w)
      then show ?thesis using True assms(2) l1 load_session(2) [OF l1 Some] by (auto simp: freshRejoin_def)
    next
      case r1: None
      show ?thesis
      proof (cases r2)
        case None
        then show ?thesis using True assms(2) l1 l2 r1 by (simp add: freshRejoin_def)
      next
        case (Some t)
        obtain g where "map_get (remember s) g = Some t" "covers (j_group j) g t" "\<not> past now (r_expires t)"
          using load_remember(4) [OF k l2 Some] load_session(1) [OF l1] by auto
        moreover have "j' = with_remembered t j" using True assms(2) l1 l2 r1 Some by (simp add: freshRejoin_def)
        ultimately show ?thesis by (auto simp: with_remembered_def covers_def)
      qed
    qed
  qed
qed

theorem rejoin_token_covers_group_witness:
  "let s = \<lparr>remember = [(js ''hub'', \<lparr>r_token = js ''t'', r_username = js ''op'', r_expires = Some 9,
              r_includeSubgroups = True\<rparr>)], op_session = None\<rparr>;
       j = \<lparr>j_group = js ''hub/room'', j_username = None, j_credentials = Token (js ''old'')\<rparr>
   in j_credentials (snd (freshRejoin 1 j s)) = Token (js ''t'') \<and> j_group (snd (freshRejoin 1 j s)) = js ''hub/room''"
proof -
  let ?s = "\<lparr>remember = [(js ''hub'', \<lparr>r_token = js ''t'', r_username = js ''op'', r_expires = Some 9,
              r_includeSubgroups = True\<rparr>)], op_session = None\<rparr>"
  let ?j = "\<lparr>j_group = js ''hub/room'', j_username = None, j_credentials = Token (js ''old'')\<rparr>"
  have "well_keyed (remember ?s)" by (simp add: well_keyed_def)
  from rejoin_token_covers_group [OF this prod.collapse [symmetric], of 1 ?j]
  show ?thesis
    by (simp add: Let_def freshRejoin_def loadOperatorSession_def loadRememberToken_def rememberTokenGroup_def
        better_def under_def starts_def js_def past_def with_remembered_def)
qed

section \<open>Refusals\<close>

definition tries_left :: "stores \<Rightarrow> nat" where
  "tries_left s = length (remember s) + (if op_session s = None then 0 else 1)"

definition none_past :: "rat \<Rightarrow> stores \<Rightarrow> bool" where
  "none_past now s \<longleftrightarrow> (\<forall>e \<in> set (remember s). \<not> past now (r_expires (snd e)))"

lemma remembered_rejoin:
  assumes "rememberedRejoin now j s = (s', Some alt)"
  obtains t where "loadRememberToken now (j_group j) s = (s', Some t)" "alt = with_remembered t j"
    "Token (r_token t) \<noteq> j_credentials j"
  using assms by (auto simp: rememberedRejoin_def split: if_splits prod.splits option.splits)

lemma session_alone:
  "loadOperatorSession now grp s = (s', r) \<Longrightarrow> tries_left s' \<le> tries_left s \<and> remember s' = remember s"
  by (auto simp: loadOperatorSession_def tries_left_def split: option.splits if_splits)

lemma another_try:
  assumes k: "well_keyed (remember s)" and f: "freshRejoin now j s = (s1, j1)"
    and r: "refused now (j_group j) j1 s1 = (s2, Some alt)"
  shows "tries_left s2 < tries_left s \<and> well_keyed (remember s2) \<and> j_group alt = j_group j \<and>
    (none_past now s \<longrightarrow> remember s2 = remember s \<and> op_session s \<noteq> None \<and> op_session s2 = None)"
proof -
  obtain s3 where a: "rememberedRejoin now j1 s1 = (s3, Some alt)"
    and rest: "(case loadOperatorSession now (j_group j) s3 of
             (s, None) \<Rightarrow> (s, Some alt)
           | (s, Some w) \<Rightarrow> (if Token (os_token w) = j_credentials j1 then s\<lparr>op_session := None\<rparr> else s, Some alt)) = (s2, Some alt)"
    using r by (auto simp: refused_def split: prod.splits option.splits)
  obtain t where t: "loadRememberToken now (j_group j1) s1 = (s3, Some t)" "alt = with_remembered t j1"
    "Token (r_token t) \<noteq> j_credentials j1" using a by (rule remembered_rejoin)
  have less: "tries_left s2 \<le> tries_left s3 \<and> remember s2 = remember s3"
    using rest session_alone [of now "j_group j" s3] by (auto simp: tries_left_def split: prod.splits option.splits if_splits)
  have tok: "is_token (j_credentials j)"
    using a f by (auto simp: rememberedRejoin_def freshRejoin_def split: if_splits)
  obtain s4 r4 where l: "loadOperatorSession now (j_group j) s = (s4, r4)" by fastforce
  show ?thesis
  proof (cases r4)
    case (Some w)
    then have w: "s4 = s" "op_session s = Some w" using load_session(2) [OF l] by auto
    then have s1: "s1 = s" "j1 = j\<lparr>j_credentials := Token (os_token w)\<rparr>"
      using f l Some tok by (auto simp: freshRejoin_def)
    have "s3 = s" using load_remember(4) [of s1, OF _ t(1)] k s1 by simp
    then have "s2 = s\<lparr>op_session := None\<rparr>" using rest l Some w s1 by simp
    then show ?thesis using w k t(2) s1 by (simp add: tries_left_def with_remembered_def)
  next
    case None
    obtain s5 r5 where m: "loadRememberToken now (j_group j) s4 = (s5, r5)" by fastforce
    have k4: "well_keyed (remember s4)" using k load_session(1) [OF l] by simp
    show ?thesis
    proof (cases r5)
      case (Some u)
      then have "s1 = s5" "j1 = with_remembered u j" "s5 = s4"
        using f l None m tok load_remember(4) [OF k4 m] by (auto simp: freshRejoin_def)
      then have "loadRememberToken now (j_group j1) s1 = (s1, Some u)" "j_credentials j1 = Token (r_token u)"
        using m Some by (simp_all add: with_remembered_def)
      then show ?thesis using t by simp
    next
      case r5: None
      then have s1: "s1 = s5" "j1 = j" using f l None m tok by (simp_all add: freshRejoin_def)
      then have "s5 \<noteq> s4" using t(1) m r5 by auto
      then have d: "length (remember s5) < length (remember s4)" "\<exists>e \<in> set (remember s4). past now (r_expires (snd e))"
        using load_remember(5) [OF k4 m r5] by auto
      have k5: "well_keyed (remember s5)" "op_session s5 = op_session s4" using load_remember(1,2) [OF k4 m] by auto
      have s3: "s3 = s5" using load_remember(4) [OF _ t(1)] k5 s1 by simp
      have "tries_left s5 < tries_left s4" using d k5 by (simp add: tries_left_def)
      moreover have "tries_left s4 \<le> tries_left s" "remember s4 = remember s" using session_alone [OF l] by auto
      moreover have "\<not> none_past now s" using d(2) \<open>remember s4 = remember s\<close> by (auto simp: none_past_def)
      ultimately show ?thesis using less s3 k5 t(2) s1 by (simp add: with_remembered_def)
    qed
  qed
qed

lemma freshRejoin_group: "freshRejoin now j s = (s', j') \<Longrightarrow> j_group j' = j_group j"
  by (auto simp: freshRejoin_def with_remembered_def split: if_splits prod.splits option.splits)

lemma refusals_Suc:
  assumes "freshRejoin (clock (Suc n)) j s = (s1, j1)"
  shows "refusals clock grp (Suc n) j s =
    j_credentials j1 #
      (case refused (clock (Suc n)) grp j1 s1 of (s2, None) \<Rightarrow> [] | (s2, Some alt) \<Rightarrow> refusals clock grp n alt s2)"
  using assms by simp

lemma refusals_bounded:
  "well_keyed (remember s) \<Longrightarrow> j_group j = grp \<Longrightarrow> length (refusals clock grp n j s) \<le> tries_left s + 1"
proof (induction n arbitrary: j s)
  case (Suc n)
  obtain s1 j1 where f: "freshRejoin (clock (Suc n)) j s = (s1, j1)" by fastforce
  obtain s2 a where r: "refused (clock (Suc n)) grp j1 s1 = (s2, a)" by fastforce
  show ?case
  proof (cases a)
    case (Some alt)
    have "tries_left s2 < tries_left s" "well_keyed (remember s2)" "j_group alt = grp"
      using another_try [OF Suc.prems(1) f] r Some Suc.prems(2) by auto
    then have "length (refusals clock grp n alt s2) \<le> tries_left s" using Suc.IH [of s2 alt] by simp
    then show ?thesis unfolding refusals_Suc [where clock = clock, OF f] r Some by simp
  qed (simp add: refusals_Suc [where clock = clock, OF f] r del: refusals.simps)
qed simp

lemma refusals_without_session:
  assumes "well_keyed (remember s)" and "j_group j = grp" and "\<forall>i. none_past (clock i) s" and "op_session s = None"
  shows "length (refusals clock grp n j s) \<le> 1"
proof (cases n)
  case (Suc m)
  obtain s1 j1 where f: "freshRejoin (clock (Suc m)) j s = (s1, j1)" by fastforce
  obtain s2 a where r: "refused (clock (Suc m)) grp j1 s1 = (s2, a)" by fastforce
  have "a = None"
    using another_try [OF assms(1) f] r assms by (cases a) auto
  then show ?thesis unfolding Suc refusals_Suc [where clock = clock, OF f] r by simp
qed simp

text \<open>C34: a rejoin that the server keeps refusing is not tried for ever: however the clock runs, the
  page gives up after at most two refusals more than there are remembered tokens, and after at most
  two in all where none of those has run out.\<close>

theorem refused_rejoin_gives_up:
  assumes "well_keyed (remember s)" and "j_group j = grp"
  shows "length (refusals clock grp n j s) \<le> length (remember s) + 2 \<and>
    ((\<forall>i. none_past (clock i) s) \<longrightarrow> length (refusals clock grp n j s) \<le> 2)"
proof
  show "length (refusals clock grp n j s) \<le> length (remember s) + 2"
    using refusals_bounded [OF assms, of clock n] by (simp add: tries_left_def split: if_splits)
  show "(\<forall>i. none_past (clock i) s) \<longrightarrow> length (refusals clock grp n j s) \<le> 2"
  proof (cases n)
    case (Suc m)
    obtain s1 j1 where f: "freshRejoin (clock (Suc m)) j s = (s1, j1)" by fastforce
    obtain s2 a where r: "refused (clock (Suc m)) grp j1 s1 = (s2, a)" by fastforce
    show ?thesis
    proof (cases a)
      case (Some alt)
      then have "length (refusals clock grp m alt s2) \<le> 1" if "\<forall>i. none_past (clock i) s"
        using another_try [OF assms(1) f] r assms(2) that
        by (intro refusals_without_session) (auto simp: none_past_def)
      then show ?thesis unfolding Suc refusals_Suc [where clock = clock, OF f] r Some by simp
    qed (simp add: Suc refusals_Suc [where clock = clock, OF f] r del: refusals.simps)
  qed simp
qed

theorem refused_rejoin_gives_up_witness:
  "let s = \<lparr>remember = [(js ''h'', \<lparr>r_token = js ''t'', r_username = [], r_expires = None, r_includeSubgroups = False\<rparr>)],
            op_session = Some \<lparr>os_hub = js ''h'', os_token = js ''u'', os_username = js ''op'', os_expires = None\<rparr>\<rparr>;
       j = \<lparr>j_group = js ''h'', j_username = None, j_credentials = Token (js ''u'')\<rparr>
   in length (refusals (\<lambda>i. 0) (js ''h'') 5 j s) \<le> 3"
proof -
  let ?s = "\<lparr>remember = [(js ''h'', \<lparr>r_token = js ''t'', r_username = [], r_expires = None, r_includeSubgroups = False\<rparr>)],
            op_session = Some \<lparr>os_hub = js ''h'', os_token = js ''u'', os_username = js ''op'', os_expires = None\<rparr>\<rparr>"
  let ?j = "\<lparr>j_group = js ''h'', j_username = None, j_credentials = Token (js ''u'')\<rparr>"
  have "well_keyed (remember ?s)" "j_group ?j = js ''h''" by (simp_all add: well_keyed_def)
  from refused_rejoin_gives_up [OF this, of "\<lambda>i. 0" 5] show ?thesis by (simp add: Let_def)
qed

text \<open>An entry of the group itself that has run out hides, for one load, the hub's token that
  covers the group: the load finds nothing and the next one finds the token.\<close>

theorem expired_entry_hides_hub:
  "let t = \<lparr>r_token = js ''h'', r_username = js ''op'', r_expires = Some 100, r_includeSubgroups = True\<rparr>;
       s = \<lparr>remember = [(js ''hub'', t), (js ''hub/room'', t\<lparr>r_expires := Some 1, r_includeSubgroups := False\<rparr>)],
            op_session = None\<rparr>;
       (s', r) = loadRememberToken 2 (js ''hub/room'') s
   in r = None \<and> snd (loadRememberToken 2 (js ''hub/room'') s') = Some t"
  by (simp add: Let_def loadRememberToken_def rememberTokenGroup_def clearRememberToken_def past_def js_def
      better_def under_def starts_def)

end
