(* ===== verification/Reconnect.thy ===== *)
theory Reconnect
  imports Signalling Remember
begin

text \<open>
  The page's automatic reconnection (static/galene.js): whether it means to stay in the call, the timer
  of the next attempt, the joins it replays, and the connections it has made, each a session of
  Signalling. \<open>serverConnection\<close> is the last of them; the page reacts to what a session's step calls
  back, in that order. What the login card joins with is \<open>rc_form\<close>; its probing of tokens is left
  out, and leaving for another page is the end of a run.
\<close>

section \<open>State\<close>

text \<open>\<open>rc_conns\<close> has each connection with its \<open>lastJoin\<close>; \<open>rc_timer\<close> the delay of the pending
  attempt; \<open>rc_fetches\<close> the joins that wait for an authorisation server, each with its connection and
  whether it replays an earlier join; \<open>rc_incall\<close> what \<open>setConnected\<close> was last told.\<close>

record rc =
  wantConnected :: bool
  reconnecting :: bool
  reconnectAttempt :: nat
  rc_timer :: "rat option"
  reconnectLastJoin :: "join_params option"
  rc_stores :: stores
  rc_group :: jstr
  rc_form :: join_params
  rc_link :: "(jstr \<times> jstr) option"
  operatorRoom :: bool
  rc_conns :: "(session \<times> join_params option) list"
  rc_fetches :: "(nat \<times> bool \<times> join_params) list"
  rc_incall :: bool

definition RECONNECT_MAX_ATTEMPTS :: nat where "RECONNECT_MAX_ATTEMPTS = 15"
definition RECONNECT_MAX_DELAY :: rat where "RECONNECT_MAX_DELAY = 30000"

section \<open>The connections\<close>

definition newest :: "rc \<Rightarrow> nat" where
  "newest p = length (rc_conns p) - 1"

definition conn :: "nat \<Rightarrow> rc \<Rightarrow> session" where
  "conn k p = fst (rc_conns p ! k)"

definition on_conn :: "nat \<Rightarrow> (session \<Rightarrow> session) \<Rightarrow> rc \<Rightarrow> rc" where
  "on_conn k f p =
     (if k < length (rc_conns p)
      then p\<lparr>rc_conns := (rc_conns p)[k := (f (conn k p), snd (rc_conns p ! k))]\<rparr> else p)"

definition close_conn :: "nat \<Rightarrow> rc \<Rightarrow> rc" where
  "close_conn k p = on_conn k close p"

definition serverConnect :: "bool \<Rightarrow> rat \<Rightarrow> rc \<Rightarrow> rc" where
  "serverConnect resumable now p =
     (let p = (if rc_conns p \<noteq> [] \<and> socket (conn (newest p) p) \<noteq> None then close_conn (newest p) p else p)
      in p\<lparr>rc_conns := rc_conns p @ [(connect resumable now, None)]\<rparr>)"

section \<open>The cycle of attempts\<close>

definition delay :: "nat \<Rightarrow> rat" where
  "delay n = min RECONNECT_MAX_DELAY (1000 * 2 ^ min n 5)"

definition scheduleReconnect :: "rc \<Rightarrow> rc" where
  "scheduleReconnect p =
     p\<lparr>reconnecting := True, reconnectAttempt := reconnectAttempt p + 1, rc_timer := Some (delay (reconnectAttempt p))\<rparr>"

definition stopReconnect :: "rc \<Rightarrow> rc" where
  "stopReconnect p = p\<lparr>reconnecting := False, reconnectAttempt := 0, rc_timer := None\<rparr>"

definition setConnected :: "bool \<Rightarrow> rc \<Rightarrow> rc" where
  "setConnected b p = p\<lparr>rc_incall := b\<rparr>"

definition give_up :: "rc \<Rightarrow> rc" where
  "give_up p = setConnected False (stopReconnect (p\<lparr>wantConnected := False\<rparr>))"

definition reconnectNow :: "bool \<Rightarrow> rat \<Rightarrow> rc \<Rightarrow> rc" where
  "reconnectNow resumable now p =
     (let p = p\<lparr>rc_timer := None\<rparr>
      in if \<not> wantConnected p \<or> reconnectLastJoin p = None then stopReconnect p
         else if reconnectAttempt p > RECONNECT_MAX_ATTEMPTS \<and> \<not> operatorRoom p then give_up p
         else serverConnect resumable now p)"

definition reconnectSoon :: "bool \<Rightarrow> rat \<Rightarrow> bool \<Rightarrow> rc \<Rightarrow> rc" where
  "reconnectSoon resumable now online p =
     (if \<not> reconnecting p \<or> rc_timer p = None \<or> \<not> online then p
      else reconnectNow resumable now (p\<lparr>rc_timer := None, reconnectAttempt := 0\<rparr>))"

definition gotClose :: "rc \<Rightarrow> rc" where
  "gotClose p =
     (if wantConnected p \<and> reconnectLastJoin p \<noteq> None then scheduleReconnect p
      else setConnected False (stopReconnect p))"

section \<open>Joining\<close>

text \<open>\<open>ServerConnection.join\<close> on connection \<open>k\<close>, with the catch of its two callers: the login card's
  \<open>join\<close>, and \<open>rejoinAfterReconnect\<close>. \<open>J\<close> is the text of the message.\<close>

definition join_failed :: "bool \<Rightarrow> rc \<Rightarrow> rc" where
  "join_failed again p = (if again then give_up p else close_conn (newest p) p)"

definition send_join :: "(join_params \<Rightarrow> jstr) \<Rightarrow> nat \<Rightarrow> bool \<Rightarrow> join_params \<Rightarrow> rc \<Rightarrow> rc" where
  "send_join J k again j p =
     (case send (js ''join'') (J j) (conn k p) of
        (s, threw) \<Rightarrow> let p = on_conn k (\<lambda>_. s) p in if threw then join_failed again p else p)"

definition conn_join :: "(join_params \<Rightarrow> jstr) \<Rightarrow> bool \<Rightarrow> join_params \<Rightarrow> rc \<Rightarrow> rc" where
  "conn_join J again j p =
     (let k = newest p;
          p = p\<lparr>rc_conns := (rc_conns p)[k := ((conn k p)\<lparr>lastJoin := True\<rparr>, Some j)]\<rparr>
      in case j_credentials j of
           AuthServer w \<Rightarrow> p\<lparr>rc_fetches := rc_fetches p @ [(k, again, j)]\<rparr>
         | _ \<Rightarrow> send_join J k again j p)"

text \<open>The answer of the authorisation server: a token, or none and the password is sent, or an error.\<close>

datatype fetched = FToken jstr | FNone | FError

definition join_fetched :: "(join_params \<Rightarrow> jstr) \<Rightarrow> nat \<Rightarrow> fetched \<Rightarrow> rc \<Rightarrow> rc" where
  "join_fetched J n r p =
     (if n < length (rc_fetches p)
      then case rc_fetches p ! n of
             (k, again, j) \<Rightarrow>
               let p = p\<lparr>rc_fetches := take n (rc_fetches p) @ drop (Suc n) (rc_fetches p)\<rparr>
               in case r of
                    FToken t \<Rightarrow> send_join J k again (j\<lparr>j_credentials := Token t\<rparr>) p
                  | FNone \<Rightarrow> send_join J k again
                      (case j_credentials j of AuthServer w \<Rightarrow> j\<lparr>j_credentials := Password w\<rparr> | _ \<Rightarrow> j) p
                  | FError \<Rightarrow> join_failed again p
      else p)"

definition rejoinAfterReconnect :: "(join_params \<Rightarrow> jstr) \<Rightarrow> rat \<Rightarrow> rc \<Rightarrow> rc" where
  "rejoinAfterReconnect J now p =
     (case reconnectLastJoin p of
        None \<Rightarrow> p
      | Some j \<Rightarrow>
          (case freshRejoin now j (rc_stores p) of
             (st, j) \<Rightarrow> conn_join J True j (p\<lparr>rc_stores := st, reconnectLastJoin := Some j\<rparr>)))"

definition gotConnected :: "(join_params \<Rightarrow> jstr) \<Rightarrow> rat \<Rightarrow> rc \<Rightarrow> rc" where
  "gotConnected J now p =
     (if reconnecting p \<and> reconnectLastJoin p \<noteq> None then rejoinAfterReconnect J now p
      else conn_join J False (rc_form p) (setConnected True p))"

section \<open>What a join is answered with\<close>

text \<open>What the page reads of the answer: whether a refusal names a full room, which of the other kinds
  it is, and whether the group is an operators' hub.\<close>

datatype other_kind = Redirect | Knock | Deny | Unknown

record answer =
  an_full :: bool
  an_other :: other_kind
  an_hub :: bool

definition refuse :: "rc \<Rightarrow> rc" where
  "refuse p = stopReconnect (p\<lparr>wantConnected := False\<rparr>)"

definition got_fail :: "(join_params \<Rightarrow> jstr) \<Rightarrow> rat \<Rightarrow> nat \<Rightarrow> bool \<Rightarrow> rc \<Rightarrow> rc" where
  "got_fail J now k full p =
     (if reconnecting p \<and> full then close_conn k p
      else
        let (st, alt) = (if reconnecting p
              then case reconnectLastJoin p of
                     None \<Rightarrow> (rc_stores p, None)
                   | Some j \<Rightarrow> refused now (rc_group p) j (rc_stores p)
              else (rc_stores p, None));
            p = p\<lparr>rc_stores := st\<rparr>
        in case alt of
             Some j \<Rightarrow> rejoinAfterReconnect J now (p\<lparr>reconnectLastJoin := Some j\<rparr>)
           | None \<Rightarrow>
               let p = refuse p in
               (case rc_link p of
                  Some (tok, name) \<Rightarrow>
                    if full then close_conn k p
                    else
                      let f = (rc_form p)\<lparr>j_username := Some name, j_credentials := Token tok\<rparr>
                      in conn_join J False f (p\<lparr>rc_link := None, rc_form := f\<rparr>)
                | None \<Rightarrow> close_conn k p))"

definition got_join :: "bool \<Rightarrow> rc \<Rightarrow> rc" where
  "got_join hub p =
     (let lj = (if rc_conns p = [] then None else snd (rc_conns p ! newest p))
      in stopReconnect (p\<lparr>wantConnected := True, rc_link := None, operatorRoom := hub,
           reconnectLastJoin := (if lj = None then reconnectLastJoin p else lj)\<rparr>))"

definition gotJoined :: "(join_params \<Rightarrow> jstr) \<Rightarrow> rat \<Rightarrow> nat \<Rightarrow> joined_kind \<Rightarrow> answer \<Rightarrow> rc \<Rightarrow> rc" where
  "gotJoined J now k kind a p =
     (case kind of
        JFail \<Rightarrow> got_fail J now k (an_full a) p
      | JJoin \<Rightarrow> got_join (an_hub a) p
      | JChange \<Rightarrow> got_join (an_hub a) p
      | JLeave \<Rightarrow> close_conn k p
      | JRejoin \<Rightarrow> stopReconnect p
      | JOther \<Rightarrow>
          (case an_other a of
             Knock \<Rightarrow> stopReconnect p
           | _ \<Rightarrow> close_conn k (refuse p)))"

section \<open>Events\<close>

text \<open>The kind that \<open>onjoined\<close> is told: what the message says, or \<open>leave\<close> when a session ends. The join
  that a session sends again by itself (\<open>JoinAgain\<close>) is a later \<open>AppSend\<close>.\<close>

fun joined_as :: "net_event \<Rightarrow> joined_kind" where
  "joined_as (Got k (SJoined kind g name perms rtc)) = kind"
| "joined_as _ = JLeave"

fun react :: "(join_params \<Rightarrow> jstr) \<Rightarrow> rat \<Rightarrow> nat \<Rightarrow> net_event \<Rightarrow> answer \<Rightarrow> callback \<Rightarrow> rc \<Rightarrow> rc" where
  "react J now k e a OnConnected p = gotConnected J now p"
| "react J now k e a (OnClose code) p = gotClose p"
| "react J now k e a OnJoined p = gotJoined J now k (joined_as e) a p"
| "react J now k e a _ p = p"

definition net_happens :: "(join_params \<Rightarrow> jstr) \<Rightarrow> rat \<Rightarrow> nat \<Rightarrow> net_event \<Rightarrow> answer \<Rightarrow> rc \<Rightarrow> rc" where
  "net_happens J now k e a p =
     (if k < length (rc_conns p) \<and> e \<noteq> AppClose
      then let s = net_step (conn k p) (now, e)
           in fold (react J now k e a) (calls s) (on_conn k (\<lambda>_. s\<lparr>calls := []\<rparr>) p)
      else p)"

definition leave_call :: "rc \<Rightarrow> rc" where
  "leave_call p = close_conn (newest p) (refuse p)"

definition operatorLogout :: "rat \<Rightarrow> rc \<Rightarrow> rc" where
  "operatorLogout now p =
     (let st = (rc_stores p)\<lparr>op_session := None\<rparr>;
          key = rememberTokenGroup (remember st) (rc_group p);
          st = fst (loadRememberToken now (rc_group p) st);
          st = clearRememberToken (case key of None \<Rightarrow> rc_group p | Some g \<Rightarrow> g) st
      in leave_call (p\<lparr>rc_stores := st, reconnectLastJoin := None\<rparr>))"

datatype rc_event =
    Fill join_params
  | Login rat
  | RejoinButton rat
  | Disconnect rat
  | LeaveCommand
  | RetryTimer rat
  | Visible rat bool
  | Fetched nat fetched
  | Net rat nat net_event answer

fun rc_step :: "(join_params \<Rightarrow> jstr) \<Rightarrow> bool \<Rightarrow> rc \<Rightarrow> rc_event \<Rightarrow> rc" where
  "rc_step J res p (Fill f) = p\<lparr>rc_form := f\<rparr>"
| "rc_step J res p (Login now) = serverConnect res now p"
| "rc_step J res p (RejoinButton now) =
     serverConnect res now (setConnected True (p\<lparr>wantConnected := True, reconnecting := True\<rparr>))"
| "rc_step J res p (Disconnect now) = (if operatorRoom p then operatorLogout now p else leave_call p)"
| "rc_step J res p LeaveCommand = leave_call p"
| "rc_step J res p (RetryTimer now) = (if rc_timer p = None then p else reconnectNow res now p)"
| "rc_step J res p (Visible now online) = reconnectSoon res now online p"
| "rc_step J res p (Fetched n r) = join_fetched J n r p"
| "rc_step J res p (Net now k e a) = net_happens J now k e a p"

definition rc_init :: "jstr \<Rightarrow> join_params \<Rightarrow> stores \<Rightarrow> (jstr \<times> jstr) option \<Rightarrow> bool \<Rightarrow> rc" where
  "rc_init g f st link hub =
     \<lparr>wantConnected = False, reconnecting = False, reconnectAttempt = 0, rc_timer = None,
      reconnectLastJoin = None, rc_stores = st, rc_group = g, rc_form = f, rc_link = link, operatorRoom = hub,
      rc_conns = [], rc_fetches = [], rc_incall = False\<rparr>"

end
