(* ===== verification/SignallingProps.thy ===== *)
theory SignallingProps
  imports Signalling
begin

text \<open>
  What the signalling session of protocol.js guarantees: it is torn down once and then silent, every
  socket carries a contiguous part of the numbered messages, and a session that is being resumed
  always has a timer that ends the wait.
\<close>

section \<open>The part of the state that is about sockets\<close>

definition net ::
  "session \<Rightarrow> ready_state list \<times> nat option \<times> nat option \<times> bool \<times> (rat \<times> resume_timer option) option \<times>
    jstr option \<times> (jstr \<times> jstr) sent_log option \<times> (nat \<times> frame) list \<times> bool" where
  "net s = (socks s, current s, socket s, closed s, resuming s, resumeSecret s, sentLog s, wire_out s, pingHandler s)"

lemma net_frame [simp]:
  "net (call c s) = net s" "net (leave_users s) = net s" "net (set_user i n ps d s) = net s"
  "net (got_user uk i n ps d s) = net s" "net (got_joined jk g n ps r s) = net s"
  by (cases uk; simp add: net_def call_def leave_users_def set_user_def got_joined_def Let_def split: joined_kind.split)+

lemma net_fields:
  assumes "net s = net t"
  shows "socks s = socks t" "current s = current t" "socket s = socket t" "closed s = closed t"
    "resuming s = resuming t" "resumeSecret s = resumeSecret t" "sentLog s = sentLog t"
    "wire_out s = wire_out t" "pingHandler s = pingHandler t"
  using assms by (simp_all add: net_def)

lemmas call_fields [simp] = net_fields [OF net_frame(1)] net_fields [OF net_frame(2)]

definition live :: "ready_state \<Rightarrow> bool" where
  "live r \<longleftrightarrow> r = SConnecting \<or> r = SOpen"

definition silent :: "session \<Rightarrow> bool" where
  "silent s \<longleftrightarrow> (\<forall>k < length (socks s). \<not> live (socks s ! k))"

text \<open>Only the socket in use can be connecting or open; a session that is over has none.\<close>

definition in_use :: "nat \<Rightarrow> session \<Rightarrow> bool" where
  "in_use k s \<longleftrightarrow> \<not> closed s \<and> current s = Some k \<and> socket s = Some k"

fun cur_good :: "nat option \<Rightarrow> bool \<Rightarrow> nat \<Rightarrow> bool" where
  "cur_good None ended n = ended"
| "cur_good (Some k) ended n = (k < n)"

fun sock_good :: "nat option \<Rightarrow> nat option \<Rightarrow> bool \<Rightarrow> nat \<Rightarrow> bool" where
  "sock_good None cur ended n = True"
| "sock_good (Some k) cur ended n = (k < n \<and> (ended \<or> cur = Some k))"

fun timer_good :: "(rat \<times> resume_timer option) option \<Rightarrow> bool \<Rightarrow> nat option \<Rightarrow> bool" where
  "timer_good None logged cur = True"
| "timer_good (Some (t, None)) logged cur = False"
| "timer_good (Some (t, Some Retry)) logged cur = logged"
| "timer_good (Some (t, Some (NoAnswer k))) logged cur = (logged \<and> cur = Some k)"

lemma cur_good_ended: "cur_good c False n \<Longrightarrow> cur_good c True n"
  by (cases c) simp_all

definition socks_ok :: "session \<Rightarrow> bool" where
  "socks_ok s \<longleftrightarrow>
     (\<forall>k < length (socks s). live (socks s ! k) \<longrightarrow> in_use k s) \<and>
     cur_good (current s) (closed s) (length (socks s)) \<and>
     sock_good (socket s) (current s) (closed s) (length (socks s))"

definition timer_ok :: "session \<Rightarrow> bool" where
  "timer_ok s \<longleftrightarrow>
     (closed s \<longrightarrow> resuming s = None \<and> resumeSecret s = None \<and> \<not> pingHandler s) \<and>
     (resumeSecret s \<noteq> None \<longrightarrow> sentLog s \<noteq> None) \<and>
     timer_good (resuming s) (sentLog s \<noteq> None) (current s)"

definition sess_inv :: "session \<Rightarrow> bool" where
  "sess_inv s \<longleftrightarrow> socks_ok s \<and> timer_ok s"

lemma sess_inv_cong:
  assumes "net s = net t"
  shows "sess_inv s = sess_inv t"
  unfolding sess_inv_def socks_ok_def in_use_def timer_ok_def net_fields [OF assms] ..

section \<open>Closing and tearing down\<close>

lemma ws_close_fields [simp]:
  "current (ws_close k s) = current s" "socket (ws_close k s) = socket s" "closed (ws_close k s) = closed s"
  "resuming (ws_close k s) = resuming s" "resumeSecret (ws_close k s) = resumeSecret s"
  "sentLog (ws_close k s) = sentLog s" "wire_out (ws_close k s) = wire_out s"
  "pingHandler (ws_close k s) = pingHandler s" "calls (ws_close k s) = calls s"
  "length (socks (ws_close k s)) = length (socks s)" "leaving (ws_close k s) = leaving s"
  by (simp_all add: ws_close_def split: option.split)

lemma live_ws_close:
  "j < length (socks s) \<Longrightarrow> live (socks (ws_close k s) ! j) \<longleftrightarrow> live (socks s ! j) \<and> k \<noteq> Some j"
  by (auto simp: ws_close_def live_def nth_list_update split: option.split)

lemma session_close_fields [simp]:
  "current (close s) = current s" "socket (close s) = None" "closed (close s) = closed s"
  "resuming (close s) = resuming s" "resumeSecret (close s) = resumeSecret s" "sentLog (close s) = sentLog s"
  "wire_out (close s) = wire_out s" "pingHandler (close s) = pingHandler s" "calls (close s) = calls s"
  "length (socks (close s)) = length (socks s)" "leaving (close s) = True"
  by (simp_all add: close_def)

lemma socks_close: "socks (close s) = socks (ws_close (socket s) s)"
  by (simp add: close_def ws_close_def split: option.split)

lemma live_close:
  "j < length (socks s) \<Longrightarrow> live (socks (close s) ! j) \<longleftrightarrow> live (socks s ! j) \<and> socket s \<noteq> Some j"
  by (simp add: socks_close live_ws_close)

lemma silent_close:
  assumes "socks_ok s"
  shows "silent (close s)"
proof -
  have "\<not> live (socks (close s) ! k)" if "k < length (socks s)" for k
    using assms that live_close [OF that] unfolding socks_ok_def in_use_def by blast
  then show ?thesis by (simp add: silent_def)
qed

lemma socks_ok_silent:
  "silent s \<Longrightarrow> cur_good (current s) (closed s) (length (socks s)) \<Longrightarrow>
   sock_good (socket s) (current s) (closed s) (length (socks s)) \<Longrightarrow> socks_ok s"
  by (simp add: socks_ok_def silent_def)

lemma sess_inv_close:
  assumes "sess_inv s"
  shows "sess_inv (close s)"
proof -
  have "socks_ok (close s)"
    using assms silent_close [of s] by (intro socks_ok_silent) (simp_all add: sess_inv_def socks_ok_def)
  moreover have "timer_ok (close s)"
    using assms by (simp add: sess_inv_def timer_ok_def)
  ultimately show ?thesis by (simp add: sess_inv_def)
qed

lemma sess_inv_error: "sess_inv s \<Longrightarrow> sess_inv (error s)"
  unfolding error_def by (rule sess_inv_close) (simp add: sess_inv_cong [OF net_frame(1)])

lemma gone_fields:
  "socks (gone code s) = socks s" "wire_out (gone code s) = wire_out s" "sentLog (gone code s) = sentLog s"
  "closed (gone code s)" "socket (gone code s) = socket s"
  by (simp_all add: gone_def Let_def stopResuming_def)

lemma gone_fields2:
  "\<not> closed s \<Longrightarrow> resuming (gone code s) = None \<and> resumeSecret (gone code s) = None \<and> \<not> pingHandler (gone code s)"
  by (simp add: gone_def Let_def stopResuming_def)

lemma gone_current: "current (gone code s) = current s"
  by (simp add: gone_def Let_def stopResuming_def)

lemma sess_inv_gone:
  assumes "silent s" and "sock_good (socket s) cur ended (length (socks s))"
    and "cur_good (current s) True (length (socks s))" and "\<not> closed s"
  shows "sess_inv (gone code s)"
proof -
  have "sock_good (socket s) (current s) True (length (socks s))" using assms(2) by (cases "socket s") simp_all
  then have "socks_ok (gone code s)"
    using assms by (intro socks_ok_silent) (simp_all add: silent_def gone_fields gone_current)
  moreover have "timer_ok (gone code s)"
    using gone_fields2 [OF assms(4), of code] by (simp add: timer_ok_def)
  ultimately show ?thesis by (simp add: sess_inv_def)
qed

section \<open>Resuming\<close>

lemma silent_ws_close:
  assumes "socks_ok s"
  shows "silent (ws_close (current s) s)"
proof -
  have "\<not> live (socks (ws_close (current s) s) ! k)" if "k < length (socks s)" for k
    using assms that live_ws_close [OF that, of "current s"] unfolding socks_ok_def in_use_def by blast
  then show ?thesis by (simp add: silent_def)
qed

lemma attempt_fields [simp]:
  "socks (attempt t s) = socks (ws_close (current s) s) @ [SConnecting]"
  "current (attempt t s) = Some (length (socks s))" "socket (attempt t s) = Some (length (socks s))"
  "resuming (attempt t s) = Some (t, Some (NoAnswer (length (socks s))))" "closed (attempt t s) = closed s"
  "resumeSecret (attempt t s) = resumeSecret s" "sentLog (attempt t s) = sentLog s"
  "wire_out (attempt t s) = wire_out s" "calls (attempt t s) = calls s" "leaving (attempt t s) = leaving s"
  by (simp_all add: attempt_def Let_def)

lemma sess_inv_attempt:
  assumes "socks_ok s" and "\<not> closed s" and "sentLog s \<noteq> None"
  shows "sess_inv (attempt t s)"
proof -
  have q: "silent (ws_close (current s) s)" by (rule silent_ws_close) (rule assms(1))
  have "socks_ok (attempt t s)"
    using q assms(2) by (auto simp: socks_ok_def silent_def in_use_def nth_append less_Suc_eq)
  moreover have "timer_ok (attempt t s)" using assms(2,3) by (simp add: timer_ok_def)
  ultimately show ?thesis by (simp add: sess_inv_def)
qed

text \<open>\<open>resume\<close> does not look at the timer, which may be spent.\<close>

lemma sess_inv_resume:
  assumes "socks_ok s" and "\<not> closed s" and "sentLog s \<noteq> None"
  shows "sess_inv (resume now s)"
proof -
  let ?since = "case resuming s of None \<Rightarrow> now | Some (t, _) \<Rightarrow> t"
  let ?g = "ws_close (current s) (s\<lparr>resuming := Some (?since, None), current := None\<rparr>)"
  have g: "socks ?g = socks (ws_close (current s) s)" by (simp add: ws_close_def split: option.split)
  have "silent ?g" using silent_ws_close [OF assms(1)] by (simp add: silent_def g)
  then have "sess_inv (gone 1006 ?g)"
    by (rule sess_inv_gone [where cur = "current s" and ended = False]) (use assms in \<open>simp_all add: socks_ok_def\<close>)
  then show ?thesis
    using sess_inv_attempt [OF assms] assms(2) by (simp add: resume_def Let_def)
qed

section \<open>Sending\<close>

lemma ws_send_fields [simp]:
  "socks (ws_send k f s) = socks s" "current (ws_send k f s) = current s" "socket (ws_send k f s) = socket s"
  "closed (ws_send k f s) = closed s" "resuming (ws_send k f s) = resuming s"
  "resumeSecret (ws_send k f s) = resumeSecret s" "sentLog (ws_send k f s) = sentLog s"
  "pingHandler (ws_send k f s) = pingHandler s" "calls (ws_send k f s) = calls s"
  by (simp_all add: ws_send_def)

text \<open>Changes that leave the sockets alone keep the invariant if they keep the timer's part of it.\<close>

definition same_socks :: "session \<Rightarrow> session \<Rightarrow> bool" where
  "same_socks s t \<longleftrightarrow> socks t = socks s \<and> current t = current s \<and> socket t = socket s \<and> closed t = closed s"

lemma socks_ok_same: "same_socks s t \<Longrightarrow> socks_ok t = socks_ok s"
  by (simp add: same_socks_def socks_ok_def in_use_def)

lemma timer_ok_cong:
  "closed t = closed s \<Longrightarrow> resuming t = resuming s \<Longrightarrow> resumeSecret t = resumeSecret s \<Longrightarrow>
   current t = current s \<Longrightarrow> pingHandler t = pingHandler s \<Longrightarrow> sentLog t = None \<longleftrightarrow> sentLog s = None \<Longrightarrow>
   timer_ok t = timer_ok s"
  by (simp add: timer_ok_def)

lemma sess_inv_same:
  assumes "same_socks s t" and "resuming t = resuming s" and "resumeSecret t = resumeSecret s"
    and "pingHandler t = pingHandler s" and "sentLog t = None \<longleftrightarrow> sentLog s = None"
  shows "sess_inv t = sess_inv s"
proof -
  have "timer_ok t = timer_ok s"
    using assms by (intro timer_ok_cong) (simp_all add: same_socks_def)
  then show ?thesis using socks_ok_same [OF assms(1)] by (simp add: sess_inv_def)
qed

lemma send_fields:
  "socks (fst (send ty m s)) = socks s" "current (fst (send ty m s)) = current s"
  "socket (fst (send ty m s)) = socket s" "closed (fst (send ty m s)) = closed s"
  "resuming (fst (send ty m s)) = resuming s" "resumeSecret (fst (send ty m s)) = resumeSecret s"
  "pingHandler (fst (send ty m s)) = pingHandler s" "calls (fst (send ty m s)) = calls s"
  "sentLog (fst (send ty m s)) = None \<longleftrightarrow> sentLog s = None"
  by (simp_all add: send_def send_logged_def Let_def split: option.split)

lemma sess_inv_send: "sess_inv (fst (send ty m s)) = sess_inv s"
  by (rule sess_inv_same) (simp_all add: same_socks_def send_fields)

section \<open>Every event keeps the shape\<close>

lemma sess_inv_onopen: "sess_inv s \<Longrightarrow> sess_inv (onopen k s)"
proof (cases "k < length (socks s) \<and> socks s ! k = SConnecting")
  case True
  let ?s = "s\<lparr>socks := (socks s)[k := SOpen]\<rparr>"
  assume s: "sess_inv s"
  have u: "in_use k s" using s True by (simp add: sess_inv_def socks_ok_def live_def)
  have "in_use j ?s" if "j < length (socks s)" "live (socks ?s ! j)" for j
    using s u that by (cases "j = k") (simp_all add: sess_inv_def socks_ok_def in_use_def)
  then have "socks_ok ?s" using s by (simp add: sess_inv_def socks_ok_def)
  moreover have "timer_ok ?s" using s by (simp add: sess_inv_def timer_ok_def)
  ultimately have "sess_inv ?s" by (simp add: sess_inv_def)
  then have "sess_inv (ws_send k f ?s)" for f
    using sess_inv_same [of ?s "ws_send k f ?s"] by (simp add: same_socks_def)
  then show ?thesis using True \<open>sess_inv ?s\<close> by (simp add: onopen_def Let_def)
qed (auto simp: onopen_def)

lemma in_use_live: "socks_ok s \<Longrightarrow> j < length (socks s) \<Longrightarrow> live (socks s ! j) \<Longrightarrow> in_use j s"
  by (simp add: socks_ok_def)

lemma in_use_socks [simp]: "in_use j (s\<lparr>socks := x\<rparr>) = in_use j s"
  by (simp add: in_use_def)

lemma live_simps [simp]: "\<not> live SClosed" "\<not> live SClosing" "live SOpen" "live SConnecting"
  by (simp_all add: live_def)

lemma resuming_logged: "sess_inv s \<Longrightarrow> resuming s \<noteq> None \<Longrightarrow> sentLog s \<noteq> None"
  unfolding sess_inv_def timer_ok_def
  by (cases "(resuming s, sentLog s \<noteq> None, current s)" rule: timer_good.cases) auto

lemma sess_inv_onclose:
  assumes s: "sess_inv s" and k: "k < length (socks s)"
  shows "sess_inv (onclose k code now s)"
proof -
  let ?s = "s\<lparr>socks := (socks s)[k := SClosed]\<rparr>"
  have alive: "in_use j ?s" if "j < length (socks s)" "live (socks ?s ! j)" for j
    using s that in_use_live [of s j] by (cases "j = k") (simp_all add: sess_inv_def)
  then have o': "socks_ok ?s" using s by (simp add: sess_inv_def socks_ok_def)
  have t: "timer_ok ?s" using s by (simp add: sess_inv_def timer_ok_def)
  show ?thesis
  proof (cases "current s = Some k")
    case False
    then show ?thesis using o' t by (simp add: onclose_def sess_inv_def)
  next
    case cur: True
    have q: "silent ?s"
    proof -
      have "\<not> live (socks ?s ! j)" if "j < length (socks s)" for j
        using alive [OF that] cur that by (cases "j = k") (auto simp: in_use_def)
      then show ?thesis by (simp add: silent_def)
    qed
    have retry: "sess_inv (retry ?s)" if "resuming s \<noteq> None"
    proof -
      obtain r tm where r: "resuming s = Some (r, tm)" using \<open>resuming s \<noteq> None\<close> by (cases "resuming s") auto
      have "sentLog s \<noteq> None" using s resuming_logged that by blast
      then show ?thesis using o' t r
        by (simp add: sess_inv_def retry_def socks_ok_def timer_ok_def in_use_def)
    qed
    have gone: "sess_inv (gone code ?s)"
    proof (cases "closed s")
      case True
      then show ?thesis using o' t by (simp add: gone_def sess_inv_def)
    next
      case False
      then show ?thesis
        using q o' by (intro sess_inv_gone [where cur = "current s" and ended = False]) (simp_all add: socks_ok_def cur)
    qed
    have res: "sess_inv (resume now ?s)" if "sentLog s \<noteq> None"
    proof (cases "closed s")
      case True
      then show ?thesis using o' t by (simp add: resume_def sess_inv_def)
    next
      case False
      then show ?thesis using o' that by (intro sess_inv_resume) simp_all
    qed
    show ?thesis unfolding onclose_def Let_def using retry gone res cur by (simp split del: if_split) (auto split: if_split)
  qed
qed

lemma sess_inv_on_timer: "sess_inv s \<Longrightarrow> sess_inv (on_timer now s)"
proof -
  assume s: "sess_inv s"
  have closed: "\<not> closed s" if "resuming s \<noteq> None" using s that by (auto simp: sess_inv_def timer_ok_def)
  have res: "sess_inv (resume now (s\<lparr>resuming := r\<rparr>))" if "resuming s \<noteq> None" for r
    using s closed [OF that] resuming_logged [OF s that]
    by (intro sess_inv_resume) (simp_all add: sess_inv_def socks_ok_def in_use_def)
  show ?thesis
  proof (cases "(resuming s, sentLog s \<noteq> None, current s)" rule: timer_good.cases)
    case (4 t k logged cur)
    then have "current s = Some k" using s by (simp add: sess_inv_def timer_ok_def)
    then show ?thesis using 4 res by (simp add: on_timer_def)
  qed (use s res in \<open>simp_all add: on_timer_def sess_inv_def timer_ok_def\<close>)
qed

lemma sess_inv_ping: "sess_inv s \<Longrightarrow> sess_inv (ping_tick now s)"
proof -
  assume s: "sess_inv s"
  have gone: "sess_inv (gone 1006 (error s))" if "\<not> closed s"
  proof -
    have "socks_ok (call OnError s)" using s socks_ok_same [of s "call OnError s"] by (simp add: sess_inv_def same_socks_def)
    then have "silent (error s)" unfolding error_def by (rule silent_close)
    then show ?thesis
      using s that by (intro sess_inv_gone [where cur = "current s" and ended = False])
        (simp_all add: error_def sess_inv_def socks_ok_def cur_good_ended)
  qed
  have res: "sess_inv (resume now s)" if "resumeSecret s \<noteq> None"
    using s that by (intro sess_inv_resume) (auto simp: sess_inv_def timer_ok_def)
  have "\<not> closed s" if "pingHandler s" using s that by (auto simp: sess_inv_def timer_ok_def)
  then show ?thesis
    using s gone res sess_inv_error [OF s]
    by (simp add: ping_tick_def Let_def sess_inv_send split: option.split tick.split)
qed

lemma sess_inv_got_resumed:
  assumes s: "sess_inv s" and u: "acts k s"
  shows "sess_inv (got_resumed k v s)"
proof (cases "Option.bind (sentLog s) (\<lambda>l. after l v)")
  case None
  let ?g = "ws_close (Some k) (s\<lparr>current := None\<rparr>)"
  have "socks ?g = socks (ws_close (current s) s)" using u by (simp add: ws_close_def acts_def)
  then have "silent ?g" using silent_ws_close [of s] s by (simp add: silent_def sess_inv_def)
  then have "sess_inv (gone 1006 ?g)"
    using s u by (intro sess_inv_gone [where cur = "current s" and ended = False])
      (simp_all add: sess_inv_def socks_ok_def acts_def)
  then show ?thesis using s None by (simp add: got_resumed_def)
next
  case (Some rest)
  let ?t = "stopResuming s"
  have t: "sess_inv ?t" using s by (simp add: sess_inv_def stopResuming_def socks_ok_def in_use_def timer_ok_def)
  have "sess_inv (fold (\<lambda>(ty, m). ws_send k (TextFrame ty m)) ms t)" if "sess_inv t" for ms t
    using that
  proof (induction ms arbitrary: t)
    case (Cons p ms)
    have "sess_inv (ws_send k (TextFrame (fst p) (snd p)) t)"
      using Cons.prems sess_inv_same [of t "ws_send k (TextFrame (fst p) (snd p)) t"] by (simp add: same_socks_def)
    then show ?case using Cons.IH by (simp add: case_prod_beta)
  qed simp
  then show ?thesis using s t Some by (simp add: got_resumed_def sess_inv_cong [OF net_frame(1)])
qed

lemma sess_inv_handle:
  assumes s: "sess_inv s" and u: "acts k s"
  shows "sess_inv (handle k m s)"
proof -
  have same: "sess_inv t" if "net t = net s" for t using s sess_inv_cong [OF that] by simp
  have v: "sess_inv (s\<lparr>version := b\<rparr>)" for b by (rule same) (simp add: net_def)
  have n: "sess_inv (s\<lparr>network := b\<rparr>)" for b by (rule same) (simp add: net_def)
  have sec: "sess_inv (s\<lparr>resumeSecret := Some b\<rparr>)" if "sentLog s \<noteq> None" for b
    using s u that by (simp add: sess_inv_def socks_ok_def in_use_def timer_ok_def acts_def)
  have c: "sess_inv (call x t) = sess_inv t" for x t by (rule sess_inv_cong) simp
  show ?thesis
  proof (cases m)
    case (SSession j)
    then show ?thesis using s sec by (cases j) simp_all
  next
    case (SNetwork j)
    then show ?thesis using s n by (cases j) simp_all
  qed (use s u v same sess_inv_error sess_inv_got_resumed in
      \<open>simp_all add: c sess_inv_send Let_def split: option.split\<close>)
qed

lemma sess_inv_gotMessage:
  assumes s: "sess_inv s" and u: "acts k s"
  shows "sess_inv (gotMessage k m now s)"
proof -
  have h: "sess_inv (handle k m t)" if "net t = net s" for t
    using s u sess_inv_cong [OF that] net_fields [OF that] by (intro sess_inv_handle) (simp_all add: acts_def)
  have "sess_inv (handle k m (s\<lparr>lastServerMessage := x\<rparr>))" for x by (rule h) (simp add: net_def)
  moreover have "sess_inv (handle k m (s\<lparr>lastServerMessage := x, received := n\<rparr>))" for x n
    by (rule h) (simp add: net_def)
  ultimately show ?thesis
    using sess_inv_error [OF s] by (simp add: gotMessage_def Let_def)
qed

lemma sess_inv_step: "sess_inv s \<Longrightarrow> sess_inv (net_step s e)"
proof -
  assume s: "sess_inv s"
  obtain now ev where e: "e = (now, ev)" by (cases e)
  have err: "sess_inv (onerror k s)" for k
    using s by (simp add: onerror_def sess_inv_cong [OF net_frame(1)])
  have msg: "sess_inv (onmessage k m now s)" for k m
    using s sess_inv_gotMessage by (simp add: onmessage_def)
  show ?thesis
    using s err msg sess_inv_onopen sess_inv_onclose sess_inv_on_timer sess_inv_ping sess_inv_close
    by (cases ev) (simp_all add: e sess_inv_send live_socket_def)
qed

interpretation signalling: machine net_step sess_inv
  by unfold_locales (rule sess_inv_step)

lemma sess_inv_connect: "sess_inv (connect resumable t)"
  by (simp add: connect_def sess_inv_def socks_ok_def timer_ok_def in_use_def)

section \<open>The end of a session\<close>

lemma send_not_open:
  assumes "case socket s of None \<Rightarrow> True | Some k \<Rightarrow> \<not> is_open k s" and "resumeSecret s = None"
  shows "fst (send ty m s) = s"
  using assms by (cases "socket s") (auto simp: send_def send_logged_def Let_def split: option.split)

lemma silent_not_open: "silent s \<Longrightarrow> \<not> is_open k s"
  by (auto simp: silent_def is_open_def live_def)

lemma closed_silent: "sess_inv s \<Longrightarrow> closed s \<Longrightarrow> silent s"
  by (auto simp: sess_inv_def socks_ok_def in_use_def silent_def)

lemma closed_step:
  assumes s: "sess_inv s" and c: "closed s"
  shows "closed (net_step s e) \<and> calls (net_step s e) = calls s \<and> wire_out (net_step s e) = wire_out s"
proof -
  obtain now ev where e: "e = (now, ev)" by (cases e)
  have t: "resuming s = None" "resumeSecret s = None" "\<not> pingHandler s"
    using s c by (auto simp: sess_inv_def timer_ok_def)
  have "fst (send ty m s) = s" for ty m
    using silent_not_open [OF closed_silent [OF s c]] t by (intro send_not_open) (simp_all split: option.split)
  moreover have "onopen k s = s" for k
    using closed_silent [OF s c] by (auto simp: onopen_def silent_def live_def)
  ultimately show ?thesis
    using c t by (cases ev)
      (simp_all add: e onerror_def acts_def onclose_def Let_def onClose_def gone_def onmessage_def on_timer_def ping_tick_def)
qed

fun is_close :: "callback \<Rightarrow> bool" where
  "is_close (OnClose _) = True"
| "is_close _ = False"

definition closes :: "session \<Rightarrow> nat" where
  "closes s = length (filter is_close (calls s))"

definition count_ok :: "session \<Rightarrow> bool" where
  "count_ok s \<longleftrightarrow> closes s = (if closed s then 1 else 0)"

lemma count_ok_cong: "calls t = calls s \<Longrightarrow> closed t = closed s \<Longrightarrow> count_ok t = count_ok s"
  by (simp add: count_ok_def closes_def)

lemma closes_call: "closes (call c s) = closes s + (if is_close c then 1 else 0)"
  by (simp add: closes_def call_def)

lemma closes_leave_users [simp]: "closes (leave_users s) = closes s"
  by (simp add: closes_def leave_users_def filter_map comp_def)

lemma count_ok_call [simp]: "\<not> is_close c \<Longrightarrow> count_ok (call c s) = count_ok s"
  by (simp add: count_ok_def closes_call)

lemma closes_upd [simp]:
  "closes (s\<lparr>socks := a\<rparr>) = closes s" "closes (s\<lparr>current := b\<rparr>) = closes s" "closes (s\<lparr>closed := c\<rparr>) = closes s"
  "closes (s\<lparr>resuming := d\<rparr>) = closes s" "closes (s\<lparr>resumeSecret := f\<rparr>) = closes s"
  "closes (s\<lparr>permissions := g\<rparr>) = closes s" "closes (s\<lparr>group := h\<rparr>) = closes s"
  "closes (s\<lparr>username := i\<rparr>) = closes s" "closes (s\<lparr>pingHandler := j\<rparr>) = closes s"
  "closes (s\<lparr>version := k\<rparr>) = closes s" "closes (s\<lparr>network := l\<rparr>) = closes s"
  "closes (s\<lparr>lastServerMessage := m\<rparr>) = closes s" "closes (s\<lparr>received := n\<rparr>) = closes s"
  "closes (s\<lparr>rtcConfiguration := p\<rparr>) = closes s" "closes (s\<lparr>users := q\<rparr>) = closes s"
  by (simp_all add: closes_def)

lemma closes_gone: "closes (gone code s) = (if closed s then closes s else closes s + 1)"
  by (simp add: gone_def Let_def closes_call stopResuming_def)

lemma count_ok_gone: "count_ok s \<Longrightarrow> count_ok (gone code s)"
  by (simp add: count_ok_def closes_gone gone_fields)

lemma closes_ws [simp]: "closes (ws_close j s) = closes s" "closes (ws_send k f s) = closes s"
  "closes (close s) = closes s" "closes (fst (send ty m s)) = closes s" "closes (attempt t s) = closes s"
  by (simp_all add: closes_def send_fields)

lemma count_ok_resume: "count_ok s \<Longrightarrow> count_ok (resume now s)"
  by (auto simp: resume_def Let_def count_ok_def closes_gone gone_fields)

lemma count_ok_error [simp]: "count_ok (error s) = count_ok s"
  by (simp add: count_ok_def error_def closes_call)

lemma count_ok_handle: "count_ok s \<Longrightarrow> count_ok (handle k m s)"
proof -
  assume s: "count_ok s"
  have fold: "closes (fold (\<lambda>(ty, m). ws_send k (TextFrame ty m)) ms t) = closes t \<and>
      closed (fold (\<lambda>(ty, m). ws_send k (TextFrame ty m)) ms t) = closed t" for ms t
    by (induction ms arbitrary: t) (simp_all add: case_prod_beta)
  have res: "count_ok (got_resumed k v s)" for v
    using s fold by (simp add: got_resumed_def count_ok_def closes_gone gone_fields stopResuming_def closes_call split: option.split)
  show ?thesis
  proof (cases m)
    case (SSession j)
    then show ?thesis using s by (cases j) (simp_all add: count_ok_def)
  next
    case (SNetwork j)
    then show ?thesis using s by (cases j) (simp_all add: count_ok_def)
  next
    case (SJoined kind g name perms rtc)
    then show ?thesis using s
      by (simp add: got_joined_def Let_def split: joined_kind.split) (simp add: count_ok_def closes_call)
  next
    case (SUser kind i name perms data)
    then show ?thesis using s by (cases kind) (simp_all add: set_user_def count_ok_def closes_call)
  qed (use s res in \<open>simp_all add: count_ok_def closes_call send_fields error_def Let_def split: option.split\<close>)
qed

lemma count_ok_step: "count_ok s \<Longrightarrow> count_ok (net_step s e)"
proof -
  assume s: "count_ok s"
  obtain now ev where e: "e = (now, ev)" by (cases e)
  have res: "count_ok (resume now (s\<lparr>resuming := r\<rparr>))" "count_ok (resume now (s\<lparr>socks := x\<rparr>))" "count_ok (resume now s)"
    for r x by (rule count_ok_resume, use s in \<open>simp add: count_ok_def\<close>)+
  have gone: "count_ok (gone code (s\<lparr>socks := x\<rparr>))" "count_ok (gone code (error s))" for code x
    by (rule count_ok_gone, use s in \<open>simp add: count_ok_def error_def closes_call\<close>)+
  have msg: "count_ok (gotMessage k m now s)" for k m
    using s by (auto simp: gotMessage_def Let_def intro!: count_ok_handle) (simp_all add: count_ok_def)
  show ?thesis
  proof (cases ev)
    case TimerFires
    then show ?thesis using s res
      by (cases "(resuming s, sentLog s \<noteq> None, current s)" rule: timer_good.cases)
        (simp_all add: e on_timer_def Let_def count_ok_def)
  next
    case PingTick
    then show ?thesis using s res gone
      by (simp add: e ping_tick_def Let_def split: option.split tick.split) (simp add: count_ok_def send_fields)
  next
    case (Ended k code)
    then show ?thesis using s res gone by (auto simp: e onclose_def Let_def retry_def count_ok_def)
  qed (use s msg in \<open>auto simp: e onopen_def onerror_def onmessage_def Let_def count_ok_def closes_call send_fields\<close>)
qed

interpretation teardown: machine net_step count_ok
  by unfold_locales (rule count_ok_step)

lemma closed_run:
  "sess_inv s \<Longrightarrow> closed s \<Longrightarrow>
   closed (foldl net_step s es) \<and> calls (foldl net_step s es) = calls s \<and> wire_out (foldl net_step s es) = wire_out s"
proof (induction es arbitrary: s)
  case (Cons e es)
  then show ?case using closed_step [of s e] sess_inv_step [of s e] by simp
qed simp

lemma reachable_inv: "sess_inv (foldl net_step (connect resumable t) es)"
  by (rule signalling.run_inv) (rule sess_inv_connect)

text \<open>C12: a session ends at most once, and from then on nothing is sent, no callback is made and nothing
  brings it back, whatever timers, sockets or the page still do.\<close>

theorem session_ends_once:
  assumes "s = foldl net_step (connect resumable t) es" and "closed s" and "u = foldl net_step s es'"
  shows "closes s = 1 \<and> closed u \<and> calls u = calls s \<and> wire_out u = wire_out s"
proof -
  have "count_ok (connect resumable t)" by (simp add: count_ok_def connect_def closes_def)
  then have "count_ok s" unfolding assms(1) by (rule teardown.run_inv)
  moreover have "sess_inv s" unfolding assms(1) by (rule reachable_inv)
  ultimately show ?thesis using assms(2,3) closed_run by (simp add: count_ok_def)
qed

theorem session_ends_once_witness:
  "let s = net_step (connect True 0) (1, Ended 0 1006) in closes s = 1 \<and> calls (net_step s (2, Ended 0 1000)) = calls s"
proof -
  let ?es = "[(1, Ended 0 1006)]"
  have "closed (foldl net_step (connect True 0) ?es)"
    by (simp add: connect_def live_socket_def onclose_def Let_def onClose_def gone_def stopResuming_def call_def leave_users_def)
  from session_ends_once [OF refl this refl, of "[(2, Ended 0 1000)]"] show ?thesis by (simp add: Let_def)
qed

section \<open>Waiting for the server\<close>

text \<open>C19: while a session is being resumed there is always a timer, and once the wait has lasted 110
  seconds the timer ends the session; until then it opens another socket.\<close>

theorem resuming_never_stuck:
  assumes "s = foldl net_step (connect resumable t0) es" and "resuming s = Some (since, tm)"
  shows "tm \<noteq> None \<and>
    (let u = net_step s (now, TimerFires) in
     if now - since > GIVE_UP_AFTER then closed u \<and> closes u = 1
     else \<not> closed u \<and> socks u = socks (ws_close (current s) s) @ [SConnecting] \<and>
       current u = Some (length (socks s)) \<and> resuming u = Some (since, Some (NoAnswer (length (socks s)))))"
proof -
  have inv: "sess_inv s" unfolding assms(1) by (rule reachable_inv)
  have count: "count_ok (net_step s (now, TimerFires))"
  proof (rule count_ok_step)
    have "count_ok (connect resumable t0)" by (simp add: count_ok_def connect_def closes_def)
    then show "count_ok s" unfolding assms(1) by (rule teardown.run_inv)
  qed
  have good: "timer_good (Some (since, tm)) (sentLog s \<noteq> None) (current s)" and open': "\<not> closed s"
    using inv assms(2) by (auto simp: sess_inv_def timer_ok_def)
  then have tm: "tm \<noteq> None" by (cases tm) auto
  have "net_step s (now, TimerFires) = resume now (s\<lparr>resuming := Some (since, None)\<rparr>)"
    using good assms(2) tm by (cases tm; cases "the tm") (auto simp: on_timer_def Let_def)
  then show ?thesis
    using tm open' count
    by (auto simp: resume_def Let_def gone_fields count_ok_def ws_close_def split: option.split)
qed

theorem resuming_never_stuck_witness:
  "let s = foldl net_step (connect True 0) [(0, Opened 0), (0, Got 0 (SHandshake (Some [JStr (js ''2'')]))),
      (0, Got 0 (SSession (JStr []))), (5, Ended 0 1006)]
   in closed (net_step s (200000, TimerFires))"
proof -
  let ?es = "[(0, Opened 0), (0, Got 0 (SHandshake (Some [JStr (js ''2'')]))),
      (0, Got 0 (SSession (JStr []))), (5, Ended 0 1006)]"
  have "resuming (foldl net_step (connect True 0) ?es) = Some (5, Some (NoAnswer 1))"
    by (simp add: connect_def onopen_def acts_def ws_send_def is_open_def may_bring_def onmessage_def gotMessage_def
        call_def Let_def live_socket_def onclose_def onClose_def CLOSE_NO_RESUME_def resume_def attempt_def
        ws_close_def GIVE_UP_AFTER_def counted_def js_def)
  from resuming_never_stuck [OF refl this, of 200000] show ?thesis
    by (simp add: Let_def GIVE_UP_AFTER_def del: foldl.simps)
qed

section \<open>What the sockets carry\<close>

abbreviation text_size :: "jstr \<times> jstr \<Rightarrow> nat" where
  "text_size p \<equiv> length (snd p)"

text \<open>The numbered messages written to a socket.\<close>

fun numbered_on :: "nat \<Rightarrow> nat \<times> frame \<Rightarrow> (jstr \<times> jstr) list" where
  "numbered_on k (j, TextFrame ty m) = (if j = k \<and> counted ty then [(ty, m)] else [])"
| "numbered_on k _ = []"

definition texts :: "nat \<Rightarrow> session \<Rightarrow> (jstr \<times> jstr) list" where
  "texts k s = concat (map (numbered_on k) (wire_out s))"

text \<open>The message that a step entered into the log, if it did.\<close>

definition pushed :: "session \<Rightarrow> session \<Rightarrow> (jstr \<times> jstr) list" where
  "pushed s t =
     (case (sentLog s, sentLog t) of
        (Some l, Some l') \<Rightarrow> if log_count l' = log_count l then [] else [last (msgs l')]
      | _ \<Rightarrow> [])"

fun history :: "session \<Rightarrow> (rat \<times> net_event) list \<Rightarrow> (jstr \<times> jstr) list" where
  "history s [] = []"
| "history s (e # es) = pushed s (net_step s e) @ history (net_step s e) es"

definition contiguous :: "'a list \<Rightarrow> 'a list \<Rightarrow> bool" where
  "contiguous xs h \<longleftrightarrow> (\<exists>pre post. h = pre @ xs @ post)"

definition ends_with :: "'a list \<Rightarrow> 'a list \<Rightarrow> bool" where
  "ends_with xs h \<longleftrightarrow> (\<exists>pre. h = pre @ xs)"

definition open_good :: "(jstr \<times> jstr) list \<Rightarrow> bool \<Rightarrow> (jstr \<times> jstr) list \<Rightarrow> bool" where
  "open_good h waiting xs \<longleftrightarrow> (if waiting then xs = [] else ends_with xs h)"

definition connecting_good :: "(jstr \<times> jstr) list \<Rightarrow> bool \<Rightarrow> bool \<Rightarrow> (jstr \<times> jstr) list \<Rightarrow> bool" where
  "connecting_good h waiting secret xs \<longleftrightarrow> xs = [] \<and> (waiting \<or> \<not> secret \<and> h = [])"

definition sock_hist ::
  "(jstr \<times> jstr) list \<Rightarrow> bool \<Rightarrow> bool \<Rightarrow> ready_state \<Rightarrow> (jstr \<times> jstr) list \<Rightarrow> bool" where
  "sock_hist h waiting secret r xs \<longleftrightarrow>
     contiguous xs h \<and> (r = SConnecting \<longrightarrow> connecting_good h waiting secret xs) \<and>
     (r = SOpen \<longrightarrow> open_good h waiting xs)"

definition hist_inv :: "(jstr \<times> jstr) list \<Rightarrow> session \<Rightarrow> bool" where
  "hist_inv h s \<longleftrightarrow>
     (\<exists>l. sentLog s = Some l \<and> log_rep text_size l h) \<and> list_all (\<lambda>p. counted (fst p)) h \<and>
     (\<forall>k. length (socks s) \<le> k \<longrightarrow> texts k s = []) \<and>
     (\<forall>k < length (socks s). sock_hist h (resuming s \<noteq> None) (resumeSecret s \<noteq> None) (socks s ! k) (texts k s))"

lemma texts_cong: "wire_out t = wire_out s \<Longrightarrow> texts k t = texts k s"
  by (simp add: texts_def)

lemma contiguous_Nil [simp]: "contiguous [] h"
  by (auto simp: contiguous_def)

lemma contiguous_ends: "ends_with xs h \<Longrightarrow> contiguous xs h"
  by (force simp: contiguous_def ends_with_def)

lemma sock_hist_dead: "\<not> live r' \<Longrightarrow> sock_hist h w c r xs \<Longrightarrow> sock_hist h w' c' r' xs"
  by (auto simp: sock_hist_def live_def)

text \<open>A step that writes nothing and only takes sockets out of use.\<close>

lemma hist_inv_shrink:
  assumes "hist_inv h s" and "wire_out t = wire_out s" and "sentLog t = sentLog s"
    and "length (socks t) = length (socks s)"
    and "\<And>k. k < length (socks s) \<Longrightarrow> live (socks t ! k) \<Longrightarrow> socks t ! k = socks s ! k"
    and "resuming t = None \<longleftrightarrow> resuming s = None" and "resumeSecret t = None \<longleftrightarrow> resumeSecret s = None"
  shows "hist_inv h t"
proof -
  have "sock_hist h (resuming t \<noteq> None) (resumeSecret t \<noteq> None) (socks t ! k) (texts k t)"
    if k: "k < length (socks s)" for k
  proof -
    have old: "sock_hist h (resuming s \<noteq> None) (resumeSecret s \<noteq> None) (socks s ! k) (texts k s)"
      using assms(1) k by (simp add: hist_inv_def)
    show ?thesis
    proof (cases "live (socks t ! k)")
      case True
      then show ?thesis using assms(5) [OF k] assms(6,7) old texts_cong [OF assms(2)] by simp
    next
      case False
      then show ?thesis using sock_hist_dead [OF False old] texts_cong [OF assms(2)] by simp
    qed
  qed
  then show ?thesis
    using assms(1,3,4) texts_cong [OF assms(2)] by (simp add: hist_inv_def)
qed

lemma hist_inv_silent:
  assumes "hist_inv h s" and "wire_out t = wire_out s" and "sentLog t = sentLog s"
    and "length (socks t) = length (socks s)" and "silent t"
  shows "hist_inv h t"
proof -
  have "sock_hist h (resuming t \<noteq> None) (resumeSecret t \<noteq> None) (socks t ! k) (texts k t)"
    if k: "k < length (socks s)" for k
    using assms k texts_cong [OF assms(2)] by (auto simp: hist_inv_def silent_def intro: sock_hist_dead)
  then show ?thesis
    using assms texts_cong [OF assms(2)] by (simp add: hist_inv_def)
qed

lemma pushed_same: "sentLog t = sentLog s \<Longrightarrow> pushed s t = []"
  by (simp add: pushed_def split: option.split)

lemma hist_inv_net:
  assumes "net t = net s"
  shows "hist_inv h t = hist_inv h s"
  unfolding hist_inv_def texts_def net_fields [OF assms] ..

lemma hist_inv_close: "hist_inv h s \<Longrightarrow> hist_inv h (close s)"
proof -
  assume s: "hist_inv h s"
  have "socks (close s) ! k = socks s ! k" if "k < length (socks s)" "live (socks (close s) ! k)" for k
    using that live_close [OF that(1)] by (auto simp: socks_close ws_close_def nth_list_update split: option.splits)
  then show ?thesis by (intro hist_inv_shrink [OF s]) simp_all
qed

lemma hist_inv_error: "hist_inv h s \<Longrightarrow> hist_inv h (error s)"
  unfolding error_def by (rule hist_inv_close) (simp add: hist_inv_net [OF net_frame(1)])

lemma hist_inv_gone: "hist_inv h s \<Longrightarrow> silent s \<Longrightarrow> hist_inv h (gone code s)"
  by (rule hist_inv_silent) (simp_all add: gone_fields silent_def)

lemma hist_inv_attempt:
  assumes "hist_inv h s" and "socks_ok s"
  shows "hist_inv h (attempt t s)"
proof -
  have q: "silent (ws_close (current s) s)" by (rule silent_ws_close) (rule assms(2))
  have tx: "texts k (attempt t s) = texts k s" for k by (rule texts_cong) simp
  have new: "sock_hist h True c SConnecting []" for c
    by (simp add: sock_hist_def connecting_good_def)
  have old: "sock_hist h True c (socks (ws_close (current s) s) ! k) (texts k s)" if "k < length (socks s)" for k c
    using assms(1) q that by (auto simp: hist_inv_def silent_def intro: sock_hist_dead)
  have "texts (length (socks s)) s = []" using assms(1) by (simp add: hist_inv_def)
  then show ?thesis
    using assms(1) new old by (auto simp: hist_inv_def tx nth_append less_Suc_eq)
qed

lemma hist_inv_resume:
  assumes "hist_inv h s" and "socks_ok s"
  shows "hist_inv h (resume now s)"
proof -
  let ?since = "case resuming s of None \<Rightarrow> now | Some (t, _) \<Rightarrow> t"
  let ?g = "ws_close (current s) (s\<lparr>resuming := Some (?since, None), current := None\<rparr>)"
  have g: "socks ?g = socks (ws_close (current s) s)" by (simp add: ws_close_def split: option.split)
  have q: "silent ?g" using silent_ws_close [OF assms(2)] by (simp add: silent_def g)
  then have "hist_inv h ?g" by (intro hist_inv_silent [OF assms(1)]) simp_all
  then have "hist_inv h (gone 1006 ?g)" using q by (rule hist_inv_gone)
  then show ?thesis using assms hist_inv_attempt by (simp add: resume_def Let_def)
qed

lemma sentLog_frames [simp]:
  "sentLog (gone code s) = sentLog s" "sentLog (resume now s) = sentLog s" "sentLog (error s) = sentLog s"
  by (simp_all add: gone_fields resume_def Let_def error_def)

section \<open>The history and \<open>send\<close>\<close>

lemma texts_ws_send:
  "is_open k s \<Longrightarrow> texts j (ws_send k f s) = texts j s @ numbered_on j (k, f)"
  "\<not> is_open k s \<Longrightarrow> texts j (ws_send k f s) = texts j s"
  by (simp_all add: texts_def ws_send_def)

lemma log_rep_push_last: "log_rep sz l h \<Longrightarrow> msgs (push sz m l) \<noteq> [] \<and> last (msgs (push sz m l)) = m"
proof -
  assume l: "log_rep sz l h"
  have r: "log_rep sz (push sz m l) (h @ [m])" using l by (rule log_rep_push)
  obtain old where old: "h @ [m] = old @ msgs (push sz m l)" and "msgs (push sz m l) \<noteq> []"
    using r by (auto simp: log_rep_def)
  moreover have "last (h @ [m]) = m" by simp
  ultimately show ?thesis by (metis last_append)
qed

lemma sock_hist_grow:
  assumes "sock_hist h w c r xs" and "\<not> live r \<or> w"
  shows "sock_hist (h @ [m]) w c r xs"
proof -
  have "contiguous xs (h @ [m])" using assms(1) unfolding sock_hist_def contiguous_def by (metis append.assoc)
  then show ?thesis
    using assms by (auto simp: sock_hist_def live_def connecting_good_def open_good_def)
qed

lemma sock_hist_grow_written:
  assumes "sock_hist h False c SOpen xs"
  shows "sock_hist (h @ [m]) False c SOpen (xs @ [m])"
  using assms by (auto simp: sock_hist_def open_good_def ends_with_def intro!: contiguous_ends)

text \<open>Sending enters a numbered message into the history, and writes it unless the session waits for the
  server or the socket is closing.\<close>

lemma hist_inv_send:
  assumes inv: "sess_inv s" and h: "hist_inv h s"
  shows "hist_inv (h @ pushed s (fst (send ty m s))) (fst (send ty m s))"
proof (cases "socket s")
  case None
  then show ?thesis using h by (simp add: send_def pushed_same)
next
  case (Some k)
  have k: "k < length (socks s)" using inv Some by (simp add: sess_inv_def socks_ok_def)
  obtain l where l: "sentLog s = Some l" "log_rep text_size l h" using h by (auto simp: hist_inv_def)
  have only: "j = k" if "j < length (socks s)" "live (socks s ! j)" for j
    using inv that Some in_use_live [of s j] by (simp add: sess_inv_def in_use_def)
  show ?thesis
  proof (cases "counted ty")
    case False
    have "hist_inv h (ws_send k (TextFrame ty m) s)" if "is_open k s"
      using h that False by (simp add: hist_inv_def texts_ws_send)
    then show ?thesis using h False Some by (simp add: send_def pushed_same)
  next
    case cnt: True
    let ?l = "push text_size (ty, m) l"
    let ?s = "s\<lparr>sentLog := Some ?l\<rparr>"
    have rep: "log_rep text_size ?l (h @ [(ty, m)])" using l(2) by (rule log_rep_push)
    have c: "log_count ?l = log_count l + 1" using rep l(2) by (simp add: log_rep_def)
    have p: "pushed s t = [(ty, m)]" if "sentLog t = Some ?l" for t
      using that c log_rep_push_last [OF l(2)] by (simp add: pushed_def l(1))
    have hs: "sock_hist h (resuming s \<noteq> None) (resumeSecret s \<noteq> None) (socks s ! j) (texts j s)"
      if "j < length (socks s)" for j
      using h that by (simp add: hist_inv_def)
    have tx: "texts j ?s = texts j s" for j by (rule texts_cong) simp
    show ?thesis
    proof (cases "is_open k s")
      case True
      show ?thesis
      proof (cases "resuming s = None")
        case False
        have "hist_inv (h @ [(ty, m)]) ?s"
          using h rep sock_hist_grow [OF hs] False cnt by (auto simp: hist_inv_def tx)
        then show ?thesis using True False Some cnt l(1) p [of ?s] by (simp add: send_def send_logged_def Let_def)
      next
        case calm: True
        have op: "socks s ! k = SOpen" using True by (simp add: is_open_def)
        let ?t = "ws_send k (TextFrame ty m) ?s"
        have tj: "texts j ?t = texts j s @ (if j = k then [(ty, m)] else [])" for j
          using True cnt by (simp add: texts_ws_send is_open_def tx)
        have "sock_hist (h @ [(ty, m)]) False (resumeSecret s \<noteq> None) (socks s ! j) (texts j ?t)"
          if j: "j < length (socks s)" for j
        proof (cases "j = k")
          case True
          then show ?thesis using hs [OF k] calm op sock_hist_grow_written by (simp add: tj)
        next
          case False
          then show ?thesis using hs [OF j] only [OF j] calm by (simp add: tj) (intro sock_hist_grow; auto)
        qed
        then have "hist_inv (h @ [(ty, m)]) ?t"
          using h rep calm k cnt by (auto simp: hist_inv_def tj)
        then show ?thesis using True calm Some cnt l(1) p [of ?t] by (simp add: send_def send_logged_def Let_def)
      qed
    next
      case shut: False
      show ?thesis
      proof (cases "resumeSecret s = None")
        case True
        then show ?thesis using shut Some cnt l(1) h by (simp add: send_def send_logged_def Let_def pushed_same)
      next
        case sec: False
        have "\<not> live (socks s ! j) \<or> resuming s \<noteq> None" if j: "j < length (socks s)" for j
        proof (cases "live (socks s ! j)")
          case True
          then have "socks s ! k = SConnecting" using only [OF j] shut k by (auto simp: live_def is_open_def)
          then show ?thesis using hs [OF k] sec by (auto simp: sock_hist_def connecting_good_def)
        qed simp
        then have "hist_inv (h @ [(ty, m)]) ?s"
          using h rep sock_hist_grow [OF hs] cnt by (auto simp: hist_inv_def tx)
        then show ?thesis using shut sec Some cnt l(1) p [of ?s] by (auto simp: send_def send_logged_def Let_def)
      qed
    qed
  qed
qed

section \<open>Every step keeps the history\<close>

lemma hist_inv_write_handshake:
  assumes "hist_inv h s"
  shows "hist_inv h (ws_send k (Handshake x) s)"
proof -
  have "texts j (ws_send k (Handshake x) s) = texts j s" for j
    by (cases "is_open k s") (simp_all add: texts_ws_send)
  then show ?thesis using assms by (simp add: hist_inv_def)
qed

lemma hist_inv_onopen:
  assumes h: "hist_inv h s"
  shows "hist_inv h (onopen k s)"
proof (cases "k < length (socks s) \<and> socks s ! k = SConnecting")
  case False
  then show ?thesis using h by (auto simp: onopen_def)
next
  case True
  let ?s = "s\<lparr>socks := (socks s)[k := SOpen]\<rparr>"
  have tx: "texts j ?s = texts j s" for j by (rule texts_cong) simp
  have hs: "sock_hist h (resuming s \<noteq> None) (resumeSecret s \<noteq> None) (socks s ! j) (texts j s)"
    if "j < length (socks s)" for j
    using h that by (simp add: hist_inv_def)
  have "sock_hist h (resuming s \<noteq> None) (resumeSecret s \<noteq> None) SOpen (texts k s)"
    using hs [of k] True by (auto simp: sock_hist_def connecting_good_def open_good_def ends_with_def)
  then have "sock_hist h (resuming s \<noteq> None) (resumeSecret s \<noteq> None) (socks ?s ! j) (texts j s)"
    if "j < length (socks s)" for j
    using hs [OF that] that by (cases "j = k") simp_all
  then have "hist_inv h ?s" using h by (simp add: hist_inv_def tx)
  then show ?thesis using True hist_inv_write_handshake by (simp add: onopen_def Let_def)
qed

lemma hist_inv_onclose:
  assumes s: "sess_inv s" and h: "hist_inv h s" and k: "k < length (socks s)"
  shows "hist_inv h (onclose k code now s)"
proof -
  let ?s = "s\<lparr>socks := (socks s)[k := SClosed]\<rparr>"
  have alive: "in_use j ?s" if "j < length (socks s)" "live (socks ?s ! j)" for j
    using s that in_use_live [of s j] by (cases "j = k") (simp_all add: sess_inv_def)
  then have o': "socks_ok ?s" using s by (simp add: sess_inv_def socks_ok_def)
  have hs: "hist_inv h ?s"
    using k by (intro hist_inv_shrink [OF h]) (auto simp: nth_list_update)
  have q: "silent ?s" if "current s = Some k"
  proof -
    have "\<not> live (socks ?s ! j)" if "j < length (socks s)" for j
      using alive [OF that] \<open>current s = Some k\<close> that by (cases "j = k") (auto simp: in_use_def)
    then show ?thesis by (simp add: silent_def)
  qed
  have retry: "hist_inv h (retry ?s)"
    by (rule hist_inv_shrink [OF hs]) (simp_all add: retry_def)
  show ?thesis
    unfolding onclose_def Let_def
    using hs retry hist_inv_resume [OF hs o'] hist_inv_gone [OF hs q]
    by (simp split del: if_split) (auto split: if_split)
qed

lemma fold_texts:
  assumes "is_open k s" and "\<forall>p \<in> set ms. counted (fst p)"
  shows "texts j (fold (\<lambda>(ty, m). ws_send k (TextFrame ty m)) ms s) = texts j s @ (if j = k then ms else [])"
  using assms
proof (induction ms arbitrary: s)
  case (Cons p ms)
  have "is_open k (ws_send k (TextFrame (fst p) (snd p)) s)" using Cons.prems(1) by (simp add: is_open_def)
  from Cons.IH [OF this] show ?case using Cons.prems by (simp add: case_prod_beta texts_ws_send)
qed simp

lemma ws_send_shut: "\<not> is_open k s \<Longrightarrow> ws_send k f s = s"
  by (simp add: ws_send_def)

lemma stopResuming_fields [simp]:
  "socks (stopResuming s) = socks s" "resuming (stopResuming s) = None" "sentLog (stopResuming s) = sentLog s"
  "resumeSecret (stopResuming s) = resumeSecret s" "wire_out (stopResuming s) = wire_out s"
  by (simp_all add: stopResuming_def)

lemma fold_ws_frame:
  "socks (fold (\<lambda>(ty, m). ws_send k (TextFrame ty m)) ms s) = socks s"
  "resuming (fold (\<lambda>(ty, m). ws_send k (TextFrame ty m)) ms s) = resuming s"
  "resumeSecret (fold (\<lambda>(ty, m). ws_send k (TextFrame ty m)) ms s) = resumeSecret s"
  "sentLog (fold (\<lambda>(ty, m). ws_send k (TextFrame ty m)) ms s) = sentLog s"
  "\<not> is_open k s \<Longrightarrow> fold (\<lambda>(ty, m). ws_send k (TextFrame ty m)) ms s = s"
proof (induction ms arbitrary: s)
  case (Cons p ms)
  { case 1 show ?case by (cases p) (simp add: Cons.IH) }
  { case 2 show ?case by (cases p) (simp add: Cons.IH) }
  { case 3 show ?case by (cases p) (simp add: Cons.IH) }
  { case 4 show ?case by (cases p) (simp add: Cons.IH) }
  { case 5 then show ?case by (cases p) (simp add: Cons.IH ws_send_shut) }
qed simp_all

lemma after_slice:
  assumes "log_rep sz l h" and "after l v = Some rest"
  shows "\<exists>n. js_integer v = Some (int n) \<and> n \<le> length h \<and> rest = drop n h"
proof -
  obtain i where i: "js_integer v = Some i" using assms(2) by (auto simp: after_def Let_def split: option.splits)
  have "log_count l - int (length (msgs l)) \<ge> 0" using assms(1) by (auto simp: log_rep_def)
  then have "0 \<le> i" using assms(2) i by (auto simp: after_def Let_def split: if_splits)
  then obtain n where n: "i = int n" using nonneg_int_cases by blast
  have "after l (JNum (Fin (of_nat n))) = after l v"
    using i n by (simp add: after_def)
  then have "since_count l n = Some rest" using assms(2) by (simp add: since_count_def)
  then show ?thesis using since_count_eq [OF assms(1), of n] i n by (auto split: if_splits)
qed

lemma hist_inv_got_resumed:
  assumes s: "sess_inv s" and h: "hist_inv h s" and u: "acts k s" and m: "may_bring k s"
  shows "hist_inv h (got_resumed k v s)"
proof (cases "resuming s")
  case None
  then show ?thesis using h by (simp add: got_resumed_def)
next
  case waiting: (Some r)
  obtain l where l: "sentLog s = Some l" "log_rep text_size l h" using h by (auto simp: hist_inv_def)
  have only: "j = k" if "j < length (socks s)" "live (socks s ! j)" for j
    using s that u in_use_live [of s j] by (simp add: sess_inv_def in_use_def acts_def)
  show ?thesis
  proof (cases "after l v")
    case None
    let ?g = "ws_close (Some k) (s\<lparr>current := None\<rparr>)"
    have "socks ?g = socks (ws_close (current s) s)" using u by (simp add: ws_close_def acts_def)
    then have q: "silent ?g" using silent_ws_close [of s] s by (simp add: silent_def sess_inv_def)
    then have "hist_inv h ?g" by (intro hist_inv_silent [OF h]) simp_all
    then show ?thesis using q hist_inv_gone waiting None l by (simp add: got_resumed_def)
  next
    case (Some rest)
    obtain n where rest: "rest = drop n h" using after_slice [OF l(2) Some] by blast
    let ?s = "stopResuming s"
    let ?t = "fold (\<lambda>(ty, m). ws_send k (TextFrame ty m)) rest ?s"
    have eq: "got_resumed k v s = call OnResumed ?t" using waiting l Some by (simp add: got_resumed_def)
    have "hist_inv h ?t"
    proof (cases "is_open k s")
      case False
      then have "silent s" using only m by (auto simp: silent_def may_bring_def is_open_def live_def)
      then have "hist_inv h ?s" by (intro hist_inv_silent [OF h]) (simp_all add: stopResuming_def silent_def)
      moreover have "\<not> is_open k ?s" using False by (simp add: is_open_def stopResuming_def)
      ultimately show ?thesis by (simp add: fold_ws_frame)
    next
      case True
      have cnt: "\<forall>p \<in> set rest. counted (fst p)"
        using h rest set_drop_subset [of n h] by (auto simp: hist_inv_def list_all_iff)
      have op: "is_open k ?s" using True by (simp add: is_open_def)
      have tx: "texts j ?t = texts j s @ (if j = k then rest else [])" for j
        using fold_texts [OF op cnt, of j] texts_cong [of ?s s j] by simp
      have hs: "sock_hist h True (resumeSecret s \<noteq> None) (socks s ! j) (texts j s)" if "j < length (socks s)" for j
        using h that waiting by (simp add: hist_inv_def)
      have "sock_hist h False (resumeSecret s \<noteq> None) (socks s ! j) (texts j ?t)" if j: "j < length (socks s)" for j
      proof (cases "j = k")
        case True
        have "texts k s = []" using hs [OF j] True \<open>is_open k s\<close> by (simp add: sock_hist_def open_good_def is_open_def)
        moreover have "ends_with rest h" using rest append_take_drop_id [of n h] unfolding ends_with_def by metis
        ultimately show ?thesis
          using True \<open>is_open k s\<close> by (simp add: tx sock_hist_def open_good_def contiguous_ends is_open_def)
      next
        case False
        then show ?thesis using hs [OF j] only [OF j] by (auto simp: tx intro: sock_hist_dead)
      qed
      then show ?thesis
        using h True by (auto simp: hist_inv_def tx fold_ws_frame is_open_def)
    qed
    then show ?thesis by (simp add: eq hist_inv_net [OF net_frame(1)])
  qed
qed

lemma pushed_net: "net t = net s \<Longrightarrow> pushed s t = []"
  by (rule pushed_same) (rule net_fields)

lemma sentLog_got_resumed: "sentLog (got_resumed k v s) = sentLog s"
  by (simp add: got_resumed_def gone_fields fold_ws_frame split: option.split)

lemma hist_inv_handle:
  assumes s: "sess_inv s" and h: "hist_inv h s" and u: "acts k s" and b: "may_bring k s"
  shows "hist_inv (h @ pushed s (handle k m s)) (handle k m s)"
proof -
  have same: "hist_inv (h @ pushed s t) t" if "net t = net s" for t
    using h hist_inv_net [OF that] pushed_net [OF that] by simp
  have v: "net (s\<lparr>version := x\<rparr>) = net s" "net (s\<lparr>network := y\<rparr>) = net s" for x y by (simp_all add: net_def)
  have err: "hist_inv (h @ pushed s (error (s\<lparr>version := x\<rparr>))) (error (s\<lparr>version := x\<rparr>))" for x
    using hist_inv_error [of h "s\<lparr>version := x\<rparr>"] h hist_inv_net [OF v(1)] by (simp add: pushed_same)
  have res: "hist_inv (h @ pushed s (got_resumed k w s)) (got_resumed k w s)" for w
    using hist_inv_got_resumed [OF s h u b] sentLog_got_resumed by (simp add: pushed_same)
  have sec: "hist_inv h (s\<lparr>resumeSecret := Some x\<rparr>)" for x
  proof -
    have tx: "texts j (s\<lparr>resumeSecret := Some x\<rparr>) = texts j s" for j by (rule texts_cong) simp
    have "socks s ! j \<noteq> SConnecting" if "j < length (socks s)" for j
      using s u b that in_use_live [of s j] by (auto simp: sess_inv_def in_use_def acts_def may_bring_def)
    then show ?thesis using h by (auto simp: hist_inv_def tx sock_hist_def)
  qed
  show ?thesis
  proof (cases m)
    case (SSession j)
    then show ?thesis using h sec by (cases j) (simp_all add: pushed_same)
  next
    case (SNetwork j)
    then show ?thesis using same v by (cases j) simp_all
  next
    case (SHandshake vs)
    have "net (call c (s\<lparr>version := True\<rparr>)) = net s" for c using v by simp
    then show ?thesis using same v err by (simp add: SHandshake Let_def split: option.split)
  qed (use same res hist_inv_send [OF s h] in simp_all)
qed

lemma hist_inv_gotMessage:
  assumes s: "sess_inv s" and h: "hist_inv h s" and u: "acts k s" and b: "may_bring k s"
  shows "hist_inv (h @ pushed s (gotMessage k m now s)) (gotMessage k m now s)"
proof -
  have hd: "hist_inv (h @ pushed s (handle k m t)) (handle k m t)" if n: "net t = net s" for t
  proof -
    have "hist_inv (h @ pushed t (handle k m t)) (handle k m t)"
      using assms sess_inv_cong [OF n] hist_inv_net [OF n] net_fields [OF n]
      by (intro hist_inv_handle) (simp_all add: acts_def may_bring_def)
    then show ?thesis by (simp add: pushed_def net_fields(7) [OF n])
  qed
  have "hist_inv (h @ pushed s (handle k m (s\<lparr>lastServerMessage := x\<rparr>))) (handle k m (s\<lparr>lastServerMessage := x\<rparr>))" for x
    by (rule hd) (simp add: net_def)
  moreover have "hist_inv (h @ pushed s (handle k m (s\<lparr>lastServerMessage := x, received := n\<rparr>)))
      (handle k m (s\<lparr>lastServerMessage := x, received := n\<rparr>))" for x n
    by (rule hd) (simp add: net_def)
  ultimately show ?thesis
    using hist_inv_error [OF h] by (simp add: gotMessage_def Let_def pushed_same)
qed

lemma hist_inv_step:
  assumes s: "sess_inv s" and h: "hist_inv h s"
  shows "hist_inv (h @ pushed s (net_step s e)) (net_step s e)"
proof -
  obtain now ev where e: "e = (now, ev)" by (cases e)
  have o': "socks_ok s" using s by (simp add: sess_inv_def)
  have quiet: "hist_inv (h @ pushed s t) t" if "hist_inv h t" "sentLog t = sentLog s" for t
    using that by (simp add: pushed_same)
  show ?thesis
  proof (cases ev)
    case (Opened k)
    show ?thesis unfolding e Opened net_step.simps
      by (rule quiet [OF hist_inv_onopen [OF h]]) (simp add: onopen_def Let_def)
  next
    case (Errored k)
    show ?thesis unfolding e Errored net_step.simps
      by (rule quiet) (use h in \<open>simp_all add: onerror_def hist_inv_net [OF net_frame(1)]\<close>)
  next
    case (Ended k code)
    show ?thesis unfolding e Ended net_step.simps
      by (rule quiet) (use s h hist_inv_onclose in \<open>simp_all add: live_socket_def onclose_def Let_def retry_def gone_fields\<close>)
  next
    case (Got k m)
    then show ?thesis using h hist_inv_gotMessage [OF s h]
      by (simp add: e onmessage_def pushed_same)
  next
    case TimerFires
    have r: "hist_inv h (resume now (s\<lparr>resuming := Some x\<rparr>))" if "resuming s \<noteq> None" for x
    proof (rule hist_inv_resume)
      show "hist_inv h (s\<lparr>resuming := Some x\<rparr>)" by (rule hist_inv_shrink [OF h]) (use that in auto)
      show "socks_ok (s\<lparr>resuming := Some x\<rparr>)" using o' by (simp add: socks_ok_def in_use_def)
    qed
    have r': "hist_inv h (s\<lparr>resuming := Some x\<rparr>)" if "resuming s \<noteq> None" for x
      by (rule hist_inv_shrink [OF h]) (use that in auto)
    show ?thesis unfolding e TimerFires net_step.simps
      by (rule quiet) (use h r r' in \<open>auto simp: on_timer_def Let_def split: option.split resume_timer.split\<close>)
  next
    case PingTick
    have "hist_inv h (gone 1006 (error s))"
    proof -
      have "socks_ok (call OnError s)" using o' socks_ok_same [of s "call OnError s"] by (simp add: same_socks_def)
      then show ?thesis using hist_inv_error [OF h] by (intro hist_inv_gone) (auto simp: error_def intro: silent_close)
    qed
    then show ?thesis using h quiet hist_inv_resume [OF h o'] hist_inv_error [OF h] hist_inv_send [OF s h]
      by (simp add: e PingTick ping_tick_def Let_def split: option.split tick.split)
  next
    case (AppSend ty m)
    then show ?thesis using hist_inv_send [OF s h] by (simp add: e)
  next
    case AppClose
    show ?thesis unfolding e AppClose net_step.simps by (rule quiet) (use hist_inv_close [OF h] in simp_all)
  qed
qed

lemma hist_inv_run:
  "sess_inv s \<Longrightarrow> hist_inv h s \<Longrightarrow> hist_inv (h @ history s es) (foldl net_step s es)"
proof (induction es arbitrary: s h)
  case (Cons e es)
  from Cons.IH [OF sess_inv_step [OF Cons.prems(1)] hist_inv_step [OF Cons.prems]] show ?case by simp
qed simp

lemma hist_inv_connect: "hist_inv [] (connect True t)"
proof -
  have "texts k (connect True t) = []" for k by (simp add: texts_def connect_def)
  then show ?thesis
    by (simp add: hist_inv_def sock_hist_def connecting_good_def)
      (simp add: connect_def log_rep_def SentLog_def MAX_MESSAGES_def MAX_BYTES_def)
qed

lemma hist_inv_reachable:
  "hist_inv (history (connect True t) es) (foldl net_step (connect True t) es)"
  using hist_inv_run [OF sess_inv_connect hist_inv_connect] by simp

text \<open>What a server that takes the session up again is sent.\<close>

lemma got_resumed_texts:
  assumes h: "hist_inv h s" and w: "resuming s \<noteq> None" and k: "is_open k s" and v: "version s" and a: "acts k s"
    and rest: "Option.bind (sentLog s) (\<lambda>l. after l x) = Some rest"
  shows "\<exists>n. js_integer x = Some (int n) \<and> texts k (net_step s (now, Got k (SResumed x))) = drop n h"
proof -
  obtain l where l: "sentLog s = Some l" "log_rep text_size l h" using h by (auto simp: hist_inv_def)
  obtain n where n: "js_integer x = Some (int n)" "rest = drop n h"
    using after_slice [OF l(2)] rest l(1) by auto
  have "texts k s = []"
    using h k w by (auto simp: hist_inv_def is_open_def sock_hist_def open_good_def)
  let ?s = "s\<lparr>lastServerMessage := Some now\<rparr>"
  have op: "is_open k (stopResuming ?s)" using k by (simp add: is_open_def)
  have cnt: "\<forall>p \<in> set rest. counted (fst p)"
    using h n(2) set_drop_subset [of n h] by (auto simp: hist_inv_def list_all_iff)
  have "texts k (stopResuming ?s) = texts k s" by (rule texts_cong) simp
  then have "texts k (got_resumed k x ?s) = drop n h"
    using w rest fold_texts [OF op cnt, of k] n(2) \<open>texts k s = []\<close> texts_cong [of "call c t" t k for c t]
    by (auto simp: got_resumed_def texts_def)
  moreover have "\<not> counted (js ''sozvon-resumed'')" by (simp add: counted_def)
  ultimately show ?thesis
    using n(1) k v a by (simp add: may_bring_def is_open_def onmessage_def gotMessage_def)
qed

text \<open>C11: over any run, what each socket carries of the numbered messages is an uninterrupted part of them
  in their order; an open socket of a session that is not being resumed carries everything to the last
  message; and a socket over which the server resumes the session at the count n carries exactly the
  messages after the first n.\<close>

theorem numbered_messages_in_order:
  assumes "s = foldl net_step (connect True t) es" and "h = history (connect True t) es"
  shows "contiguous (texts k s) h \<and>
    (is_open k s \<and> resuming s = None \<longrightarrow> ends_with (texts k s) h) \<and>
    (is_open k s \<and> resuming s \<noteq> None \<and> version s \<and> acts k s \<and>
       Option.bind (sentLog s) (\<lambda>l. after l x) \<noteq> None \<longrightarrow>
     (\<exists>n. js_integer x = Some (int n) \<and> texts k (net_step s (now, Got k (SResumed x))) = drop n h))"
proof (intro conjI impI)
  have inv: "hist_inv h s" unfolding assms by (rule hist_inv_reachable)
  then show "contiguous (texts k s) h"
    by (cases "k < length (socks s)") (simp_all add: hist_inv_def sock_hist_def)
  show "ends_with (texts k s) h" if "is_open k s \<and> resuming s = None"
    using inv that by (auto simp: hist_inv_def is_open_def sock_hist_def open_good_def)
  show "\<exists>n. js_integer x = Some (int n) \<and> texts k (net_step s (now, Got k (SResumed x))) = drop n h"
    if a: "is_open k s \<and> resuming s \<noteq> None \<and> version s \<and> acts k s \<and> Option.bind (sentLog s) (\<lambda>l. after l x) \<noteq> None"
  proof -
    obtain rest where "Option.bind (sentLog s) (\<lambda>l. after l x) = Some rest" using a by blast
    then show ?thesis using a by (intro got_resumed_texts [OF inv]) blast+
  qed
qed

lemmas net_eval = connect_def onopen_def acts_def ws_send_def is_open_def may_bring_def onmessage_def gotMessage_def
  call_def Let_def live_socket_def onclose_def onClose_def CLOSE_NO_RESUME_def resume_def attempt_def
  ws_close_def GIVE_UP_AFTER_def counted_def js_def hello_for_def retry_def on_timer_def close_def
  got_resumed_def stopResuming_def after_def SentLog_def push_def send_def send_logged_def
  MAX_MESSAGES_def MAX_BYTES_def

theorem numbered_messages_in_order_witness:
  "ends_with (texts 0 (foldl net_step (connect True 0) [(0, Opened 0), (1, AppSend (js ''chat'') (js ''x''))]))
     (history (connect True 0) [(0, Opened 0), (1, AppSend (js ''chat'') (js ''x''))])"
proof -
  let ?es = "[(0, Opened 0), (1, AppSend (js ''chat'') (js ''x''))]"
  have "is_open 0 (foldl net_step (connect True 0) ?es) \<and> resuming (foldl net_step (connect True 0) ?es) = None"
    by (simp add: net_eval)
  then show ?thesis using numbered_messages_in_order [OF refl refl, of 0 0 ?es] by blast
qed

section \<open>Leaving during an outage\<close>

definition outage :: "(rat \<times> net_event) list" where
  "outage = [(0, Opened 0), (0, Got 0 (SHandshake (Some [JStr (js ''2'')]))), (0, Got 0 (SSession (JStr [115]))),
     (5000, Ended 0 1006), (5100, Ended 1 1006)]"

text \<open>A user who leaves while the client pauses between two attempts to resume does not leave: the timer
  opens another socket, and if the server takes the session up again it goes on.\<close>

theorem leaving_does_not_stop_resuming:
  "let s = foldl net_step (connect True 0) (outage @
       [(6000, AppClose), (7100, TimerFires), (7200, Opened 2),
        (7300, Got 2 (SHandshake (Some [JStr (js ''2'')]))), (7300, Got 2 (SResumed (JNum (Fin 0))))])
   in leaving s \<and> \<not> closed s \<and> resuming s = None \<and> socket s = Some 2 \<and> is_open 2 s \<and> closes s = 0 \<and>
      last (calls s) = OnResumed"
  by (simp add: outage_def net_eval closes_def)

end
