(* ===== verification/ReconnectProps.thy ===== *)
theory ReconnectProps
  imports Reconnect SignallingProps
begin

text \<open>
  What the automatic reconnection promises: while the page means to stay in the call something is under
  way, an outage that lasts is given up, leaving is final. And where it is not.
\<close>

section \<open>How a session ends\<close>

lemma gone_last: "\<not> closed s \<Longrightarrow> last (calls (gone code s)) = OnClose code \<and> calls (gone code s) \<noteq> []"
  by (simp add: gone_def Let_def call_def)

definition ends_told :: "session \<Rightarrow> bool" where
  "ends_told s \<longleftrightarrow> (closed s \<longrightarrow> calls s \<noteq> [] \<and> is_close (last (calls s)))"

lemma ends_told_gone: "\<not> closed s \<Longrightarrow> ends_told (gone code s)"
  using gone_last [of s code] by (simp add: ends_told_def)

lemma ends_told_open: "\<not> closed s \<Longrightarrow> ends_told s"
  by (simp add: ends_told_def)

lemma ends_told_resume: "\<not> closed s \<Longrightarrow> ends_told (resume now s)"
  by (auto simp: resume_def Let_def intro: ends_told_gone ends_told_open)

lemma closed_writes [simp]:
  "session.closed (fold (\<lambda>(ty, m). ws_send k (TextFrame ty m)) rest s) = session.closed s"
  by (induction rest arbitrary: s) (auto simp: ws_send_def split: prod.split)

lemma ends_told_handle:
  assumes "\<not> closed s"
  shows "ends_told (handle k m s)"
proof (cases m)
  case (SResumed v)
  then show ?thesis using assms
    by (simp add: got_resumed_def stopResuming_def ends_told_gone ends_told_open split: option.split)
next
  case (SSession v)
  then show ?thesis using assms by (cases v) (simp_all add: ends_told_open)
next
  case (SNetwork v)
  then show ?thesis using assms by (cases v) (simp_all add: ends_told_open)
next
  case (SJoined kind g name perms rtc)
  then show ?thesis using assms by (cases kind) (simp_all add: ends_told_open got_joined_def leave_users_def Let_def)
next
  case (SUser kind i name perms data)
  then show ?thesis using assms by (cases kind) (simp_all add: ends_told_open set_user_def)
qed (use assms in \<open>simp_all add: ends_told_open error_def send_fields Let_def split: option.split\<close>)

lemma ends_told_message: "\<not> closed s \<Longrightarrow> ends_told (gotMessage k m now s)"
  by (simp add: gotMessage_def Let_def error_def ends_told_handle ends_told_open)

text \<open>A session that ends says so last.\<close>

lemma ends_told_step:
  assumes "\<not> closed s"
  shows "ends_told (net_step s e)"
proof -
  obtain now ev where e: "e = (now, ev)" by (cases e)
  show ?thesis
  proof (cases ev)
    case TimerFires
    then show ?thesis using assms
      by (cases "(resuming s, sentLog s \<noteq> None, current s)" rule: timer_good.cases)
        (simp_all add: e on_timer_def Let_def ends_told_resume ends_told_open)
  next
    case PingTick
    then show ?thesis using assms
      by (simp add: e ping_tick_def Let_def error_def ends_told_resume ends_told_open ends_told_gone send_fields split: option.split tick.split)
  next
    case (Ended k code)
    then show ?thesis using assms
      by (simp add: e onclose_def Let_def retry_def ends_told_resume ends_told_open ends_told_gone)
  next
    case (Got k m)
    then show ?thesis using assms by (simp add: e onmessage_def ends_told_message ends_told_open)
  qed (use assms in \<open>simp_all add: e onopen_def onerror_def Let_def ends_told_open send_fields\<close>)
qed

section \<open>What the handlers do to the connections\<close>

lemma on_conn_frame [simp]:
  "wantConnected (on_conn k f p) = wantConnected p" "reconnectLastJoin (on_conn k f p) = reconnectLastJoin p"
  "rc_timer (on_conn k f p) = rc_timer p" "reconnecting (on_conn k f p) = reconnecting p"
  "rc_incall (on_conn k f p) = rc_incall p" "operatorRoom (on_conn k f p) = operatorRoom p"
  "reconnectAttempt (on_conn k f p) = reconnectAttempt p" "length (rc_conns (on_conn k f p)) = length (rc_conns p)"
  "rc_fetches (on_conn k f p) = rc_fetches p"
  by (simp_all add: on_conn_def)

lemmas close_conn_frame [simp] = on_conn_frame [of _ close, folded close_conn_def]

lemmas cycle_defs = stopReconnect_def setConnected_def give_up_def refuse_def scheduleReconnect_def

definition conns_ok :: "rc \<Rightarrow> bool" where
  "conns_ok p \<longleftrightarrow> (\<forall>x \<in> set (rc_conns p). sess_inv (fst x) \<and> calls (fst x) = [])"

definition ended :: "rc \<Rightarrow> bool list" where
  "ended p = map (\<lambda>x. closed (fst x)) (rc_conns p)"

text \<open>The connections carry on; and the page either means to leave or goes on meaning what it meant.\<close>

definition carries_on :: "rc \<Rightarrow> rc \<Rightarrow> bool" where
  "carries_on p q \<longleftrightarrow> ended q = ended p \<and> (conns_ok p \<longrightarrow> conns_ok q)"

lemma carries_on_refl [simp]: "carries_on p p"
  by (simp add: carries_on_def)

lemma carries_on_trans [trans]: "carries_on p q \<Longrightarrow> carries_on q r \<Longrightarrow> carries_on p r"
  by (simp add: carries_on_def)

lemma carries_on_same: "rc_conns q = rc_conns p \<Longrightarrow> carries_on p q"
  by (simp add: carries_on_def ended_def conns_ok_def)

lemma carries_on_update:
  assumes "k < length (rc_conns p)" and "closed s = closed (conn k p)"
    and "sess_inv (conn k p) \<Longrightarrow> sess_inv s" and "calls s = calls (conn k p)"
  shows "carries_on p (p\<lparr>rc_conns := (rc_conns p)[k := (s, j)]\<rparr>)"
proof -
  have "ended (p\<lparr>rc_conns := (rc_conns p)[k := (s, j)]\<rparr>) = ended p"
    using assms(1,2) by (simp add: ended_def conn_def map_update list_update_same_conv)
  moreover have "conns_ok (p\<lparr>rc_conns := (rc_conns p)[k := (s, j)]\<rparr>)" if "conns_ok p"
    using assms that nth_mem [OF assms(1)] set_update_subset_insert [of "rc_conns p" k "(s, j)"]
    by (fastforce simp: conns_ok_def conn_def)
  ultimately show ?thesis by (simp add: carries_on_def)
qed

lemma carries_on_on_conn:
  assumes "closed (f (conn k p)) = closed (conn k p)" and "sess_inv (conn k p) \<Longrightarrow> sess_inv (f (conn k p))"
    and "calls (f (conn k p)) = calls (conn k p)"
  shows "carries_on p (on_conn k f p)"
  using assms by (auto simp: on_conn_def intro!: carries_on_update)

lemma carries_on_close: "carries_on p (close_conn k p)"
  unfolding close_conn_def by (rule carries_on_on_conn) (simp_all add: sess_inv_close)

lemma carries_on_flags [simp]:
  "carries_on p (stopReconnect q) = carries_on p q" "carries_on p (setConnected b q) = carries_on p q"
  "carries_on p (give_up q) = carries_on p q" "carries_on p (refuse q) = carries_on p q"
  "carries_on p (scheduleReconnect q) = carries_on p q" "carries_on p (gotClose q) = carries_on p q"
  "carries_on p (q\<lparr>rc_fetches := x\<rparr>) = carries_on p q"
  by (simp_all add: carries_on_def ended_def conns_ok_def stopReconnect_def setConnected_def give_up_def refuse_def
      scheduleReconnect_def gotClose_def)

lemma carries_on_failed: "carries_on p (join_failed again p)"
  by (simp add: join_failed_def carries_on_close)

lemma carries_on_send_join: "carries_on p (send_join J k again j p)"
proof -
  obtain s threw where s: "send (js ''join'') (J j) (conn k p) = (s, threw)" by (cases "send (js ''join'') (J j) (conn k p)")
  have c: "carries_on p (on_conn k (\<lambda>_. s) p)"
    using send_fields [of "js ''join''" "J j" "conn k p"] sess_inv_send [of "js ''join''" "J j" "conn k p"]
    by (intro carries_on_on_conn) (simp_all add: s)
  then show ?thesis using carries_on_trans [OF c carries_on_failed] by (simp add: send_join_def s Let_def)
qed

lemma carries_on_join:
  assumes "rc_conns p \<noteq> []"
  shows "carries_on p (conn_join J again j p)"
proof -
  let ?p = "p\<lparr>rc_conns := (rc_conns p)[newest p := ((conn (newest p) p)\<lparr>lastJoin := True\<rparr>, Some j)]\<rparr>"
  have "newest p < length (rc_conns p)" using assms by (simp add: newest_def)
  then have c: "carries_on p ?p"
    by (rule carries_on_update) (simp_all add: sess_inv_cong [of "session.lastJoin_update f s" s for f s] net_def)
  then show ?thesis
    using carries_on_trans [OF c carries_on_send_join] by (simp add: conn_join_def Let_def split: credentials.split)
qed

lemma carries_on_fetched: "carries_on p (join_fetched J n r p)"
  unfolding join_fetched_def
  by (auto simp: Let_def intro!: carries_on_trans [OF carries_on_same carries_on_send_join]
      carries_on_trans [OF carries_on_same carries_on_failed] split: prod.split fetched.split)

lemma carries_on_rejoin: "rc_conns p \<noteq> [] \<Longrightarrow> carries_on p (rejoinAfterReconnect J now p)"
  by (auto simp: rejoinAfterReconnect_def intro!: carries_on_trans [OF carries_on_same carries_on_join] split: option.split prod.split)

lemma carries_on_connected: "rc_conns p \<noteq> [] \<Longrightarrow> carries_on p (gotConnected J now p)"
  by (auto simp: gotConnected_def setConnected_def intro!: carries_on_rejoin carries_on_trans [OF carries_on_same carries_on_join])

lemma carries_on_fail: "rc_conns p \<noteq> [] \<Longrightarrow> carries_on p (got_fail J now k full p)"
  by (auto simp: got_fail_def refuse_def stopReconnect_def Let_def intro!: carries_on_close
      carries_on_trans [OF carries_on_same carries_on_rejoin] carries_on_trans [OF carries_on_same carries_on_close]
      carries_on_trans [OF carries_on_same carries_on_join] split: option.split prod.split)

lemma carries_on_got_join: "carries_on p (got_join hub p)"
  by (rule carries_on_same) (simp add: got_join_def stopReconnect_def Let_def)

lemma carries_on_refused: "carries_on p (close_conn k (refuse p))"
  by (rule carries_on_trans [OF _ carries_on_close]) simp

lemma carries_on_joined: "rc_conns p \<noteq> [] \<Longrightarrow> carries_on p (gotJoined J now k kind a p)"
  by (simp add: gotJoined_def carries_on_got_join carries_on_fail carries_on_refused carries_on_close
      split: joined_kind.split other_kind.split)

lemma carries_on_react: "rc_conns p \<noteq> [] \<Longrightarrow> carries_on p (react J now k e a c p)"
  by (cases c) (simp_all add: carries_on_connected carries_on_joined)

lemma carries_on_some: "carries_on p q \<Longrightarrow> rc_conns q = [] \<longleftrightarrow> rc_conns p = []"
  by (metis carries_on_def ended_def map_is_Nil_conv)

lemma carries_on_reacts: "rc_conns p \<noteq> [] \<Longrightarrow> carries_on p (fold (react J now k e a) cs p)"
proof (induction cs arbitrary: p)
  case (Cons c cs)
  have c: "carries_on p (react J now k e a c p)" using Cons.prems by (rule carries_on_react)
  then have "rc_conns (react J now k e a c p) \<noteq> []" using Cons.prems carries_on_some by blast
  from carries_on_trans [OF c Cons.IH [OF this]] show ?case by simp
qed simp

section \<open>Something is under way\<close>

definition busy :: "rc \<Rightarrow> bool" where
  "busy p \<longleftrightarrow> False \<in> set (ended p)"

definition wanted :: "rc \<Rightarrow> bool" where
  "wanted p \<longleftrightarrow> wantConnected p \<and> reconnectLastJoin p \<noteq> None"

definition waiting :: "rc \<Rightarrow> bool" where
  "waiting p \<longleftrightarrow> conns_ok p \<and> (wanted p \<longrightarrow> rc_timer p \<noteq> None \<or> busy p)"

lemma busy_carries_on: "carries_on p q \<Longrightarrow> busy q = busy p"
  by (simp add: carries_on_def busy_def)

lemma conns_ok_carries_on: "carries_on p q \<Longrightarrow> conns_ok p \<Longrightarrow> conns_ok q"
  by (simp add: carries_on_def)

lemma gotClose_waits: "wanted (gotClose p) \<longrightarrow> rc_timer (gotClose p) \<noteq> None"
  by (simp add: gotClose_def wanted_def scheduleReconnect_def stopReconnect_def setConnected_def)

lemma serverConnect_busy: "conns_ok p \<Longrightarrow> conns_ok (serverConnect res now p) \<and> busy (serverConnect res now p)"
proof -
  assume ok: "conns_ok p"
  define q where "q = (if rc_conns p \<noteq> [] \<and> socket (conn (newest p) p) \<noteq> None then close_conn (newest p) p else p)"
  have "carries_on p q" by (simp add: q_def carries_on_close)
  then have "conns_ok q" using ok conns_ok_carries_on by blast
  moreover have "serverConnect res now p = q\<lparr>rc_conns := rc_conns q @ [(connect res now, None)]\<rparr>"
    by (simp add: serverConnect_def q_def Let_def)
  moreover have "calls (connect res now) = []" "\<not> session.closed (connect res now)" by (simp_all add: connect_def)
  ultimately show ?thesis using sess_inv_connect [of res now] by (simp add: conns_ok_def busy_def ended_def)
qed

lemma reconnectNow_waiting: "conns_ok p \<Longrightarrow> waiting (reconnectNow res now p)"
proof -
  assume ok: "conns_ok p"
  then have "conns_ok (p\<lparr>rc_timer := None\<rparr>)" by (simp add: conns_ok_def)
  from serverConnect_busy [OF this] ok show ?thesis
    by (auto simp: reconnectNow_def Let_def waiting_def wanted_def stopReconnect_def give_up_def setConnected_def conns_ok_def)
qed

text \<open>A connection that has ended makes the page do nothing.\<close>

lemma net_ended:
  assumes "conns_ok p" and "k < length (rc_conns p)" and "session.closed (conn k p)" and "e \<noteq> AppClose"
  shows "\<exists>s. net_happens J now k e a p = on_conn k (\<lambda>_. s) p \<and> carries_on p (on_conn k (\<lambda>_. s) p)"
proof -
  let ?t = "net_step (conn k p) (now, e)"
  have s: "sess_inv (conn k p)" "calls (conn k p) = []" using assms(1) nth_mem [OF assms(2)] by (auto simp: conns_ok_def conn_def)
  have t: "session.closed ?t" "calls ?t = []" using closed_step [OF s(1) assms(3), of "(now, e)"] s(2) by simp_all
  have "carries_on p (on_conn k (\<lambda>_. ?t\<lparr>calls := []\<rparr>) p)"
    using s t assms(3) sess_inv_step [OF s(1), of "(now, e)"] sess_inv_cong [of "?t\<lparr>calls := []\<rparr>" ?t]
    by (intro carries_on_on_conn) (simp_all add: net_def)
  then show ?thesis using assms(2,4) t by (auto simp: net_happens_def Let_def)
qed

lemma waiting_net:
  assumes "waiting p"
  shows "waiting (net_happens J now k e a p)"
proof (cases "k < length (rc_conns p) \<and> e \<noteq> AppClose")
  case True
  let ?s = "conn k p" and ?t = "net_step (conn k p) (now, e)"
  let ?p = "on_conn k (\<lambda>_. ?t\<lparr>calls := []\<rparr>) p"
  let ?q = "fold (react J now k e a) (calls ?t) ?p"
  have q: "net_happens J now k e a p = ?q" using True by (simp add: net_happens_def Let_def)
  have mem: "rc_conns p ! k \<in> set (rc_conns p)" using True by simp
  then have s: "sess_inv ?s" "calls ?s = []" using assms by (auto simp: waiting_def conns_ok_def conn_def)
  have "sess_inv (?t\<lparr>calls := []\<rparr>)"
    using sess_inv_step [OF s(1), of "(now, e)"] sess_inv_cong [of "?t\<lparr>calls := []\<rparr>" ?t] by (simp add: net_def)
  then have ok: "conns_ok ?p"
    using True assms set_update_subset_insert [of "rc_conns p" k "(?t\<lparr>calls := []\<rparr>, snd (rc_conns p ! k))"]
    by (fastforce simp: waiting_def conns_ok_def on_conn_def)
  have e: "ended ?p = (ended p)[k := session.closed ?t]" using True by (simp add: ended_def on_conn_def map_update)
  have "rc_conns ?p \<noteq> []" using True by (auto simp: on_conn_def)
  then have c: "carries_on ?p ?q" by (rule carries_on_reacts)
  have okq: "conns_ok ?q" using c ok conns_ok_carries_on by blast
  show ?thesis
  proof (cases "session.closed ?s")
    case cl: True
    from net_ended [OF _ _ this, where e = e and J = J and now = now and a = a] assms True
    obtain s where "net_happens J now k e a p = on_conn k (\<lambda>_. s) p" "carries_on p (on_conn k (\<lambda>_. s) p)"
      by (auto simp: waiting_def)
    then show ?thesis
      using assms busy_carries_on conns_ok_carries_on by (simp add: waiting_def wanted_def)
  next
    case op: False
    show ?thesis
    proof (cases "session.closed ?t")
      case True
      then have "calls ?t \<noteq> []" "is_close (last (calls ?t))"
        using ends_told_step [OF op, of "(now, e)"] by (simp_all add: ends_told_def)
      then obtain cs code where cs: "calls ?t = cs @ [OnClose code]"
        by (metis append_butlast_last_id is_close.elims(2))
      then have "?q = gotClose (fold (react J now k e a) cs ?p)" by simp
      then have "wanted ?q \<longrightarrow> rc_timer ?q \<noteq> None" using gotClose_waits by metis
      then show ?thesis using okq q by (simp add: waiting_def)
    next
      case False
      have "busy ?p" using e False True set_update_memI [of k "ended p" "session.closed ?t"] by (simp add: busy_def ended_def)
      then have "busy ?q" using busy_carries_on [OF c] by simp
      then show ?thesis using okq q by (simp add: waiting_def)
    qed
  qed
qed (use assms in \<open>auto simp: net_happens_def\<close>)

text \<open>Sending a join changes nothing about the cycle, or ends it.\<close>

definition same_intent :: "rc \<Rightarrow> rc \<Rightarrow> bool" where
  "same_intent p q \<longleftrightarrow>
     (wantConnected q = wantConnected p \<and> reconnectLastJoin q = reconnectLastJoin p \<and> rc_timer q = rc_timer p \<and>
      reconnecting q = reconnecting p) \<or>
     (\<not> wantConnected q \<and> \<not> reconnecting q \<and> rc_timer q = None)"

lemma same_intent_send_join: "same_intent p (send_join J k again j p)"
  by (simp add: same_intent_def send_join_def join_failed_def cycle_defs Let_def split: prod.split)

lemma same_intent_fetched: "same_intent p (join_fetched J n r p)"
proof -
  have "same_intent p (send_join J k again j (p\<lparr>rc_fetches := x\<rparr>))" for k again j x
    using same_intent_send_join [of "p\<lparr>rc_fetches := x\<rparr>" J k again j] by (simp add: same_intent_def)
  moreover have "same_intent p (join_failed again (p\<lparr>rc_fetches := x\<rparr>))" for again x
    by (simp add: same_intent_def join_failed_def cycle_defs)
  moreover have "same_intent p p" by (simp add: same_intent_def)
  ultimately show ?thesis by (simp add: join_fetched_def Let_def split: prod.split fetched.split)
qed

lemma waiting_intent: "waiting p \<Longrightarrow> carries_on p q \<Longrightarrow> same_intent p q \<Longrightarrow> waiting q"
  using busy_carries_on [of p q] conns_ok_carries_on [of p q] by (auto simp: waiting_def wanted_def same_intent_def)

lemma carries_on_leave: "carries_on p (leave_call p)"
  by (simp add: leave_call_def refuse_def) (rule carries_on_trans [OF _ carries_on_close], simp add: carries_on_same)

lemma waiting_leave: "conns_ok p \<Longrightarrow> waiting (leave_call p)"
  using conns_ok_carries_on [OF carries_on_leave] by (simp add: waiting_def wanted_def leave_call_def cycle_defs)

lemma waiting_step: "waiting p \<Longrightarrow> waiting (rc_step J res p e)"
proof -
  assume p: "waiting p"
  then have ok: "conns_ok p" by (simp add: waiting_def)
  then have ok': "conns_ok (p\<lparr>reconnectLastJoin := x, rc_stores := y\<rparr>)"
    "conns_ok (setConnected True (p\<lparr>wantConnected := True, reconnecting := True\<rparr>))"
    "conns_ok (p\<lparr>rc_timer := x', reconnectAttempt := n\<rparr>)" for x y x' n
    by (simp_all add: conns_ok_def setConnected_def)
  show ?thesis
  proof (cases e)
    case (Fill f)
    then show ?thesis using p by (simp add: waiting_def wanted_def busy_def ended_def conns_ok_def)
  next
    case (Disconnect now)
    have "conns_ok (p\<lparr>rc_stores := y, reconnectLastJoin := x\<rparr>)" for x y using ok by (simp add: conns_ok_def)
    then show ?thesis using Disconnect ok by (simp add: operatorLogout_def Let_def waiting_leave)
  next
    case (Visible now online)
    then show ?thesis using p reconnectNow_waiting [OF ok'(3)] by (simp add: reconnectSoon_def)
  next
    case (Fetched n r)
    then show ?thesis using waiting_intent [OF p carries_on_fetched same_intent_fetched] by simp
  next
    case (RetryTimer now)
    then show ?thesis using p reconnectNow_waiting [OF ok] by simp
  qed (use p ok ok' waiting_leave waiting_net serverConnect_busy in \<open>simp_all add: waiting_def\<close>)
qed

interpretation reconnection: machine "rc_step J res" waiting
  by unfold_locales (rule waiting_step)


section \<open>An outage\<close>

text \<open>One attempt that fails: the timer fires and the socket of the new connection ends unopened.\<close>

definition attempt_fails :: "(join_params \<Rightarrow> jstr) \<Rightarrow> bool \<Rightarrow> rat \<times> answer \<Rightarrow> rc \<Rightarrow> rc" where
  "attempt_fails J res t p =
     (let q = rc_step J res p (RetryTimer (fst t))
      in rc_step J res q (Net (fst t) (newest q) (Ended 0 1006) (snd t)))"

definition given_up :: "rc \<Rightarrow> bool" where
  "given_up p \<longleftrightarrow> \<not> wantConnected p \<and> rc_timer p = None \<and> \<not> reconnecting p \<and> \<not> rc_incall p"

definition trying :: "rc \<Rightarrow> bool" where
  "trying p \<longleftrightarrow> wanted p \<and> rc_timer p \<noteq> None \<and> reconnecting p"

lemma unopened_ends:
  "net_step (connect res now) (now', Ended 0 1006) =
     (gone 1006 ((connect res now)\<lparr>socks := [SClosed]\<rparr>))"
  by (simp add: connect_def live_socket_def onclose_def onClose_def Let_def)

lemma unopened_calls: "calls (net_step (connect res now) (now', Ended 0 1006)) = [OnBeforeClose, CloseStreams, OnClose 1006]"
  unfolding unopened_ends by (simp add: gone_def connect_def stopResuming_def leave_users_def call_def)

lemma failed_socket:
  assumes "rc_conns q = cs @ [(connect res now, None)]"
  shows "\<exists>x. rc_step J res' q (Net now' (newest q) (Ended 0 1006) a) = gotClose (on_conn (newest q) (\<lambda>_. x) q)"
proof -
  have n: "newest q < length (rc_conns q)" and c: "conn (newest q) q = connect res now"
    using assms by (simp_all add: newest_def conn_def)
  show ?thesis
    unfolding rc_step.simps net_happens_def c unopened_calls Let_def using n by auto
qed

lemma attempt_fails_trying:
  assumes "trying p" and "reconnectAttempt p \<le> RECONNECT_MAX_ATTEMPTS \<or> operatorRoom p"
  shows "trying (attempt_fails J res t p) \<and> operatorRoom (attempt_fails J res t p) = operatorRoom p \<and>
    reconnectAttempt (attempt_fails J res t p) = reconnectAttempt p + 1 \<and>
    rc_timer (attempt_fails J res t p) = Some (delay (reconnectAttempt p)) \<and>
    length (rc_conns (attempt_fails J res t p)) = length (rc_conns p) + 1"
proof -
  let ?p = "p\<lparr>rc_timer := None\<rparr>"
  define b where "b = (if rc_conns ?p \<noteq> [] \<and> socket (conn (newest ?p) ?p) \<noteq> None then close_conn (newest ?p) ?p else ?p)"
  let ?q = "b\<lparr>rc_conns := rc_conns b @ [(connect res (fst t), None)]\<rparr>"
  have b: "wantConnected b = wantConnected p" "reconnectLastJoin b = reconnectLastJoin p" "reconnecting b = reconnecting p"
    "reconnectAttempt b = reconnectAttempt p" "operatorRoom b = operatorRoom p" "length (rc_conns b) = length (rc_conns p)"
    by (simp_all add: b_def)
  have q: "rc_step J res p (RetryTimer (fst t)) = ?q"
    using assms by (auto simp: trying_def wanted_def reconnectNow_def serverConnect_def b_def Let_def)
  obtain x where x: "rc_step J res ?q (Net (fst t) (newest ?q) (Ended 0 1006) (snd t)) = gotClose (on_conn (newest ?q) (\<lambda>_. x) ?q)"
    using failed_socket [of ?q "rc_conns b" res "fst t" J res "fst t" "snd t"] by auto
  show ?thesis
    unfolding attempt_fails_def q Let_def x
    using assms b by (simp add: gotClose_def trying_def wanted_def scheduleReconnect_def)
qed

lemma attempt_fails_gives_up:
  assumes "trying p" and "reconnectAttempt p > RECONNECT_MAX_ATTEMPTS" and "\<not> operatorRoom p"
  shows "rc_step J res p (RetryTimer now) = give_up (p\<lparr>rc_timer := None\<rparr>)"
  using assms by (auto simp: trying_def wanted_def reconnectNow_def Let_def)

lemma outage_run:
  assumes "trying p" and "reconnectAttempt p + length ts \<le> 16 \<or> operatorRoom p" and "q = fold (attempt_fails J res) ts p"
  shows "trying q \<and> operatorRoom q = operatorRoom p \<and> reconnectAttempt q = reconnectAttempt p + length ts \<and>
    length (rc_conns q) = length (rc_conns p) + length ts \<and>
    (ts \<noteq> [] \<longrightarrow> rc_timer q = Some (delay (reconnectAttempt p + length ts - 1)))"
  using assms
proof (induction ts arbitrary: p)
  case (Cons t ts)
  let ?p = "attempt_fails J res t p"
  have a: "reconnectAttempt p \<le> RECONNECT_MAX_ATTEMPTS \<or> operatorRoom p"
    using Cons.prems(2) by (auto simp: RECONNECT_MAX_ATTEMPTS_def)
  note p = attempt_fails_trying [OF Cons.prems(1) a, of J res t]
  have "reconnectAttempt ?p + length ts \<le> 16 \<or> operatorRoom ?p" using p Cons.prems(2) by auto
  from Cons.IH [OF _ this] have ih: "trying q \<and> operatorRoom q = operatorRoom ?p \<and> reconnectAttempt q = reconnectAttempt ?p + length ts \<and>
      length (rc_conns q) = length (rc_conns ?p) + length ts \<and>
      (ts \<noteq> [] \<longrightarrow> rc_timer q = Some (delay (reconnectAttempt ?p + length ts - 1)))"
    using p Cons.prems(3) by simp
  moreover have "rc_timer q = Some (delay (reconnectAttempt p + length ts))"
    using ih p Cons.prems(3) by (cases ts) simp_all
  ultimately show ?case using p by simp
qed simp

text \<open>C35: an outage. While the attempts fail, an operators' hub keeps trying, half a minute apart at most; a
  call makes fifteen attempts after the loss, and then the timer takes the page back to the login
  card.\<close>

theorem outage_ends:
  assumes "trying p" and "q = fold (attempt_fails J res) ts p"
  shows "(operatorRoom p \<longrightarrow>
      trying q \<and> length (rc_conns q) = length (rc_conns p) + length ts \<and>
      (ts \<noteq> [] \<longrightarrow> (\<exists>d. rc_timer q = Some d \<and> d \<le> RECONNECT_MAX_DELAY))) \<and>
    (\<not> operatorRoom p \<and> reconnectAttempt p + length ts = 16 \<longrightarrow>
      trying q \<and> length (rc_conns q) = length (rc_conns p) + length ts \<and> given_up (rc_step J res q (RetryTimer now)))"
proof (intro conjI impI; (elim conjE)?)
  assume "operatorRoom p"
  then show "trying q" "length (rc_conns q) = length (rc_conns p) + length ts"
    "ts \<noteq> [] \<Longrightarrow> \<exists>d. rc_timer q = Some d \<and> d \<le> RECONNECT_MAX_DELAY"
    using outage_run [OF assms(1) _ assms(2)] by (simp_all add: delay_def)
next
  assume r: "\<not> operatorRoom p" and n: "reconnectAttempt p + length ts = 16"
  note q = outage_run [OF assms(1) disjI1 assms(2), OF eq_refl [OF n]]
  then show "trying q" "length (rc_conns q) = length (rc_conns p) + length ts" by simp_all
  have "rc_step J res q (RetryTimer now) = give_up (q\<lparr>rc_timer := None\<rparr>)"
    using q r n by (intro attempt_fails_gives_up) (simp_all add: RECONNECT_MAX_ATTEMPTS_def)
  then show "given_up (rc_step J res q (RetryTimer now))" by (simp add: given_up_def cycle_defs)
qed

section \<open>Leaving\<close>

text \<open>What brings the page back in: the user, or the server's word that it is in the group.\<close>

fun brings_back :: "rc_event \<Rightarrow> bool" where
  "brings_back (Login now) = True"
| "brings_back (RejoinButton now) = True"
| "brings_back (Net now k (Got i (SJoined kind g name perms rtc)) a) = (kind = JJoin \<or> kind = JChange)"
| "brings_back e = False"

definition away_for_good :: "nat \<Rightarrow> rc \<Rightarrow> bool" where
  "away_for_good n p \<longleftrightarrow>
     \<not> wantConnected p \<and> \<not> reconnecting p \<and> rc_timer p = None \<and> length (rc_conns p) = n"

lemma away_stop: "away_for_good n p \<Longrightarrow> away_for_good n (stopReconnect p)"
  by (simp add: away_for_good_def stopReconnect_def)

lemma away_close: "away_for_good n (close_conn k p) = away_for_good n p"
  by (simp add: away_for_good_def)

lemma away_send_join: "away_for_good n p \<Longrightarrow> away_for_good n (send_join J k again j p)"
  by (simp add: away_for_good_def send_join_def join_failed_def cycle_defs Let_def split: prod.split)

lemma away_join: "away_for_good n p \<Longrightarrow> away_for_good n (conn_join J again j p)"
  by (auto simp: conn_join_def Let_def intro!: away_send_join split: credentials.split) (simp_all add: away_for_good_def)

lemma away_react:
  assumes "away_for_good n p" and "\<not> brings_back (Net now k e a)"
  shows "away_for_good n (react J now k e a c p)"
proof -
  have f: "away_for_good n (got_fail J now k full p)" for full
    using assms(1) away_join [of n]
    by (auto simp: got_fail_def Let_def away_close split: option.split) (simp_all add: away_for_good_def cycle_defs)
  show ?thesis
  proof (cases c)
    case OnConnected
    then show ?thesis
      using assms(1) away_join [of n "setConnected True p"] by (simp add: gotConnected_def) (simp add: away_for_good_def setConnected_def)
  next
    case (OnClose code)
    then show ?thesis using assms(1) by (simp add: gotClose_def away_for_good_def cycle_defs)
  next
    case OnJoined
    have "joined_as e \<noteq> JJoin" "joined_as e \<noteq> JChange" using assms(2) by (cases e rule: joined_as.cases; simp)+
    moreover have "away_for_good n (refuse p)" using assms(1) by (simp add: away_for_good_def cycle_defs)
    ultimately show ?thesis
      using OnJoined assms(1) f away_stop by (simp add: gotJoined_def away_close split: joined_kind.split other_kind.split)
  qed (use assms(1) in simp_all)
qed

lemma away_reacts:
  "away_for_good n p \<Longrightarrow> \<not> brings_back (Net now k e a) \<Longrightarrow> away_for_good n (fold (react J now k e a) cs p)"
  by (induction cs arbitrary: p) (simp_all add: away_react)

lemma away_step:
  assumes "away_for_good n p" and "\<not> brings_back e"
  shows "away_for_good n (rc_step J res p e)"
proof (cases e)
  case (Net now k ev a)
  have "away_for_good n (on_conn k (\<lambda>_. s) p)" for s using assms(1) by (simp add: away_for_good_def)
  then show ?thesis using Net assms by (simp add: net_happens_def Let_def away_reacts)
next
  case (Fetched i r)
  have "away_for_good n (join_fetched J i r p)"
    using same_intent_fetched [of p J i r] carries_on_fetched [of p J i r] assms(1)
    by (auto simp: away_for_good_def same_intent_def carries_on_def ended_def dest: map_eq_imp_length_eq)
  then show ?thesis using Fetched by simp
qed (use assms in \<open>simp_all add: away_for_good_def operatorLogout_def leave_call_def cycle_defs reconnectSoon_def Let_def\<close>)


section \<open>Samples\<close>

definition sample_form :: join_params where
  "sample_form = \<lparr>j_group = js ''g'', j_username = Some (js ''u''), j_credentials = Password []\<rparr>"

definition no_answer :: answer where
  "no_answer = \<lparr>an_full = False, an_other = Unknown, an_hub = False\<rparr>"

definition no_stores :: stores where
  "no_stores = \<lparr>remember = [], op_session = None\<rparr>"

abbreviation rc_run :: "rc_event list \<Rightarrow> rc" where
  "rc_run es \<equiv> foldl (rc_step (\<lambda>j. []) True) (rc_init (js ''g'') sample_form no_stores None False) es"

definition session_joins :: "nat \<Rightarrow> rc_event list" where
  "session_joins k =
     [Net 0 k (Opened 0) no_answer, Net 0 k (Got 0 (SHandshake (Some [JStr (js ''2'')]))) no_answer,
      Net 0 k (Got 0 (SJoined JJoin (js ''g'') None [] Null)) no_answer]"

definition dropped_call :: "rc_event list" where
  "dropped_call = [Login 0] @ session_joins 0 @ [Net 5000 0 (Ended 0 1006) no_answer]"

lemmas rc_eval = rc_init_def no_stores_def sample_form_def no_answer_def session_joins_def serverConnect_def close_conn_def
  on_conn_def conn_def newest_def net_happens_def gotConnected_def conn_join_def send_join_def gotJoined_def got_join_def
  gotClose_def cycle_defs net_eval live_socket_def onclose_def onClose_def gone_def leave_users_def got_joined_def
  reconnectNow_def leave_call_def delay_def RECONNECT_MAX_DELAY_def RECONNECT_MAX_ATTEMPTS_def

lemma dropped_call_state:
  "wantConnected (rc_run dropped_call) \<and> reconnectLastJoin (rc_run dropped_call) = Some sample_form \<and>
   rc_timer (rc_run dropped_call) = Some 1000 \<and> reconnectAttempt (rc_run dropped_call) = 1 \<and>
   reconnecting (rc_run dropped_call) \<and> rc_incall (rc_run dropped_call) \<and> \<not> operatorRoom (rc_run dropped_call) \<and>
   map (\<lambda>x. session.closed (fst x)) (rc_conns (rc_run dropped_call)) = [True] \<and> rc_fetches (rc_run dropped_call) = []"
  by (simp add: dropped_call_def rc_eval)

lemma joined_call_state:
  "wantConnected (rc_run ([Login 0] @ session_joins 0)) \<and> rc_timer (rc_run ([Login 0] @ session_joins 0)) = None \<and>
   reconnectLastJoin (rc_run ([Login 0] @ session_joins 0)) = Some sample_form"
  by (simp add: rc_eval)


theorem outage_ends_witness:
  "given_up (rc_step (\<lambda>j. []) True
     (fold (attempt_fails (\<lambda>j. []) True) (replicate 15 (0, no_answer)) (rc_run dropped_call)) (RetryTimer 0))"
proof -
  have "trying (rc_run dropped_call)" by (simp add: trying_def wanted_def dropped_call_state)
  from outage_ends [OF this refl, where J = "\<lambda>j. []" and res = True and ts = "replicate 15 (0, no_answer)" and now = 0] show ?thesis
    by (simp add: dropped_call_state)
qed


section \<open>Where it is not\<close>

text \<open>Every connection has ended, nothing is timed, and the page shows the call.\<close>

definition stranded :: "rc \<Rightarrow> bool" where
  "stranded p \<longleftrightarrow>
     conns_ok p \<and> \<not> busy p \<and> \<not> wantConnected p \<and> rc_timer p = None \<and> rc_fetches p = [] \<and> rc_incall p"

fun asks_in :: "rc_event \<Rightarrow> bool" where
  "asks_in (Login now) = True"
| "asks_in (RejoinButton now) = True"
| "asks_in e = False"

lemma stranded_carries: "stranded p \<Longrightarrow> carries_on p q \<Longrightarrow> \<not> wantConnected q \<Longrightarrow> rc_timer q = None \<Longrightarrow> rc_fetches q = [] \<Longrightarrow>
  rc_incall q \<Longrightarrow> stranded q"
  using busy_carries_on [of p q] conns_ok_carries_on [of p q] by (simp add: stranded_def)

lemma leave_call_frame:
  "\<not> wantConnected (leave_call p) \<and> rc_timer (leave_call p) = None \<and> rc_fetches (leave_call p) = rc_fetches p \<and>
   rc_incall (leave_call p) = rc_incall p"
  by (simp add: leave_call_def cycle_defs)

lemma stranded_leave: "stranded p \<Longrightarrow> stranded (leave_call p)"
  using leave_call_frame [of p] by (intro stranded_carries [OF _ carries_on_leave]) (simp_all add: stranded_def)

lemma stranded_step:
  assumes "stranded p" and "\<not> asks_in e"
  shows "stranded (rc_step J res p e)"
proof (cases e)
  case (Net now k ev a)
  show ?thesis
  proof (cases "k < length (rc_conns p) \<and> ev \<noteq> AppClose")
    case True
    have "closed (conn k p)" using True assms(1) nth_mem [of k "ended p"] by (auto simp: stranded_def busy_def ended_def conn_def)
    with net_ended [of p k ev J now a] True assms(1)
    obtain s where "net_happens J now k ev a p = on_conn k (\<lambda>_. s) p" "carries_on p (on_conn k (\<lambda>_. s) p)"
      by (auto simp: stranded_def)
    then show ?thesis using Net assms(1) stranded_carries [OF assms(1)] by (simp add: stranded_def)
  qed (use Net assms(1) in \<open>auto simp: net_happens_def\<close>)
next
  case (Disconnect now)
  have "stranded (p\<lparr>rc_stores := x, reconnectLastJoin := y\<rparr>)" for x y
    using assms(1) by (simp add: stranded_def conns_ok_def busy_def ended_def)
  then show ?thesis using Disconnect assms(1) by (simp add: operatorLogout_def Let_def stranded_leave)
next
  case (Fetched n r)
  then show ?thesis using assms(1) by (simp add: join_fetched_def stranded_def)
next
  case (Fill f)
  then show ?thesis using assms(1) by (simp add: stranded_def conns_ok_def busy_def ended_def)
qed (use assms in \<open>simp_all add: stranded_leave reconnectSoon_def\<close>, simp_all add: stranded_def)

text \<open>C39: a user who hangs up while an attempt to get back is timed is left with a page that shows the call:
  there is no connection whose end would bring the login card back, and nothing but a login, which the
  page does not offer, changes that.\<close>

theorem hanging_up_while_waiting_strands:
  assumes "conns_ok p" and "\<not> busy p" and "rc_fetches p = []" and "rc_incall p"
    and "list_all (\<lambda>e. \<not> asks_in e) es"
  shows "stranded (foldl (rc_step J res) (rc_step J res p LeaveCommand) es)"
proof -
  have "stranded (leave_call p)"
    using assms leave_call_frame [of p] busy_carries_on [OF carries_on_leave [of p]] conns_ok_carries_on [OF carries_on_leave [of p]]
    by (simp add: stranded_def)
  then have "stranded (foldl (rc_step J res) (leave_call p) es)"
    using assms(5) by (induction es rule: rev_induct) (simp_all add: stranded_step)
  then show ?thesis by simp
qed

theorem hanging_up_while_waiting_strands_witness:
  "stranded (rc_run (dropped_call @ [LeaveCommand, LeaveCommand, Visible 9000 True, RetryTimer 9000]))"
proof -
  have w: "conns_ok (rc_run dropped_call)"
    using reconnection.run_inv [of "rc_init (js ''g'') sample_form no_stores None False" "\<lambda>j. []" True dropped_call]
    by (simp add: waiting_def wanted_def conns_ok_def rc_init_def)
  have "\<not> busy (rc_run dropped_call)" using dropped_call_state by (simp add: busy_def ended_def)
  from hanging_up_while_waiting_strands [OF w this, where es = "[LeaveCommand, Visible 9000 True, RetryTimer 9000]" and
      J = "\<lambda>j. []" and res = True]
  show ?thesis by (simp add: dropped_call_state)
qed

text \<open>A user who hangs up while the session is being resumed is brought back: once the session goes on,
  a change of permissions makes the page mean to stay again.\<close>

definition resumed_after_leaving :: "rc_event list" where
  "resumed_after_leaving = [Login 0] @ session_joins 0 @
     [Net 0 0 (Got 0 (SSession (JStr [115]))) no_answer, Net 5000 0 (Ended 0 1006) no_answer,
      Net 5100 0 (Ended 1 1006) no_answer, LeaveCommand, Net 7100 0 TimerFires no_answer, Net 7200 0 (Opened 2) no_answer,
      Net 7300 0 (Got 2 (SHandshake (Some [JStr (js ''2'')]))) no_answer,
      Net 7300 0 (Got 2 (SResumed (JNum (Fin 1)))) no_answer,
      Net 9000 0 (Got 2 (SJoined JChange (js ''g'') None [] Null)) no_answer]"

theorem leaving_undone_by_resumption:
  "wantConnected (rc_run resumed_after_leaving) \<and> rc_incall (rc_run resumed_after_leaving) \<and>
   map (\<lambda>x. closed (fst x)) (rc_conns (rc_run resumed_after_leaving)) = [False]"
  by (simp add: resumed_after_leaving_def rc_eval)


end
