(* ===== verification/Password.thy ===== *)
theory Password
  imports Crypto
begin

text \<open>
  static/password-change.js: the checks on the form for a new password, the request that changes it,
  and the meaning of the answer. The \<open>Authorization\<close> header is read back the way RFC 7617 and the
  server's library have it: the base64 text, cut at the first colon.
\<close>

section \<open>The module\<close>

definition MIN_LENGTH :: nat where "MIN_LENGTH = 8"
definition MAX_PASSWORD_BYTES :: nat where "MAX_PASSWORD_BYTES = 72"

datatype complaint = EmptyField | Mismatch | TooFew | TooLong | Same

definition check :: "jstr \<Rightarrow> jstr \<Rightarrow> jstr \<Rightarrow> complaint option" where
  "check current nxt again =
     (if current = [] \<or> nxt = [] \<or> again = [] then Some EmptyField
      else if nxt \<noteq> again then Some Mismatch
      else if length (codepoints nxt) < MIN_LENGTH then Some TooFew
      else if length (utf8 nxt) > MAX_PASSWORD_BYTES then Some TooLong
      else if nxt = current then Some Same
      else None)"

definition base64 :: "jstr \<Rightarrow> jstr" where
  "base64 s = btoa (utf8 s)"

definition basicAuth :: "jstr \<Rightarrow> jstr \<Rightarrow> jstr" where
  "basicAuth user password = js ''Basic '' @ base64 (user @ [58] @ password)"

text \<open>\<open>encodeURIComponent\<close>: letters, digits and \<open>- _ . ! ~ * ' ( )\<close> stand for themselves, the UTF-8
  bytes of the rest are escaped, and a surrogate on its own is an exception.\<close>

definition unreserved :: "nat \<Rightarrow> bool" where
  "unreserved p \<longleftrightarrow>
     97 \<le> p \<and> p \<le> 122 \<or> 65 \<le> p \<and> p \<le> 90 \<or> 48 \<le> p \<and> p \<le> 57 \<or> p \<in> {45, 95, 46, 33, 126, 42, 39, 40, 41}"

definition hex_digit :: "nat \<Rightarrow> 16 word" where
  "hex_digit n = (if n < 10 then of_nat (48 + n) else of_nat (55 + n))"

definition escape_byte :: "byte \<Rightarrow> jstr" where
  "escape_byte b = [37, hex_digit (unat b div 16), hex_digit (unat b mod 16)]"

definition encodeURIComponent :: "jstr \<Rightarrow> jstr option" where
  "encodeURIComponent s =
     (if \<exists>p \<in> set (codepoints s). 0xD800 \<le> p \<and> p \<le> 0xDFFF then None
      else Some (concat (map (\<lambda>p. if unreserved p then [of_nat p] else concat (map escape_byte (utf8_point p)))
             (codepoints s))))"

fun split_on :: "16 word \<Rightarrow> jstr \<Rightarrow> jstr list" where
  "split_on d [] = [[]]"
| "split_on d (c # s) =
     (if c = d then [] # split_on d s else case split_on d s of w # ws \<Rightarrow> (c # w) # ws | [] \<Rightarrow> [[c]])"

fun join_with :: "jstr \<Rightarrow> jstr list \<Rightarrow> jstr" where
  "join_with sep [] = []"
| "join_with sep [w] = w"
| "join_with sep (w # ws) = w @ sep @ join_with sep ws"

definition all_some :: "'a option list \<Rightarrow> 'a list option" where
  "all_some xs = (if None \<in> set xs then None else Some (map the xs))"

definition passwordURL :: "jstr \<Rightarrow> jstr \<Rightarrow> jstr option" where
  "passwordURL grp user =
     Option.bind (all_some (map encodeURIComponent (split_on 47 grp))) (\<lambda>gs.
     Option.bind (encodeURIComponent user) (\<lambda>u.
       Some (js ''/galene-api/v0/.groups/'' @ join_with [47] gs @ js ''/.users/'' @ u @ js ''/.password'')))"

datatype change_outcome = ChangeOk | ChangeWrong | ChangeBanned | ChangeError

definition outcome_of :: "int \<Rightarrow> change_outcome" where
  "outcome_of status =
     (if status \<ge> 200 \<and> status < 300 then ChangeOk
      else if status = 401 \<or> status = 403 then ChangeWrong
      else if status = 429 then ChangeBanned else ChangeError)"

text \<open>\<open>change\<close>: the request is an argument of the server, whose answer is a status; nothing is
  requested when the address cannot be made.\<close>

record change_request =
  rq_url :: jstr
  rq_authorization :: jstr
  rq_body :: jstr

definition change ::
  "(change_request \<Rightarrow> int) \<Rightarrow> jstr \<Rightarrow> jstr \<Rightarrow> jstr \<Rightarrow> jstr \<Rightarrow> change_outcome option" where
  "change fetch grp user current nxt =
     map_option (\<lambda>url. outcome_of
        (fetch \<lparr>rq_url = url, rq_authorization = basicAuth user current, rq_body = nxt\<rparr>))
       (passwordURL grp user)"

section \<open>What the server reads\<close>

definition server_reads :: "jstr \<Rightarrow> (byte list \<times> byte list) option" where
  "server_reads header =
     (if starts (js ''Basic '') header
      then case atob (drop 6 header) of
             None \<Rightarrow> None
           | Some b \<Rightarrow>
               if 58 \<in> set b then Some (takeWhile (\<lambda>c. c \<noteq> 58) b, drop 1 (dropWhile (\<lambda>c. c \<noteq> 58) b)) else None
      else None)"

lemma codepoints_colon: "codepoints (u @ 58 # p) = codepoints u @ 58 # codepoints p"
proof (induction u rule: codepoints.induct)
  case 1
  then show ?case by (cases p) (simp_all add: high_surrogate_def)
next
  case (2 c)
  have "codepoints (58 # p) = 58 # codepoints p" by (cases p) (simp_all add: high_surrogate_def)
  then show ?case by (simp add: low_surrogate_def)
qed auto

lemma utf8_colon: "utf8 (u @ 58 # p) = utf8 u @ 58 # utf8 p"
  by (simp add: utf8_def codepoints_colon scalar_value_def utf8_point_def)

lemma byte_58: "n < 256 \<Longrightarrow> (of_nat n :: byte) = 58 \<longleftrightarrow> n = 58"
  using of_nat_byte_inject [of n 58] by auto

lemma utf8_point_colon: "p \<noteq> 58 \<Longrightarrow> p < 0x110000 \<Longrightarrow> 58 \<notin> set (utf8_point p)"
  by (auto simp: utf8_point_def byte_58 dest!: sym [of 58] simp del: of_nat_add)

lemma codepoints_in: "q \<in> set (codepoints s) \<Longrightarrow> q < 0x110000 \<and> (q = 58 \<longrightarrow> 58 \<in> set s)"
proof (induction s rule: codepoints.induct)
  case (2 c)
  have "unat c < 65536" using unsigned_less [of c] by simp
  then show ?case using 2 by (auto simp: word_unat_eq_iff)
next
  case (3 c d cs)
  have "unat c < 65536" using unsigned_less [of c] by simp
  then show ?case using 3
    by (auto simp: high_surrogate_def low_surrogate_def word_unat_eq_iff split: if_splits)
qed simp

lemma utf8_no_colon:
  assumes "58 \<notin> set u"
  shows "58 \<notin> set (utf8 u)"
proof -
  have "58 \<notin> set (utf8_point (scalar_value q))" if "q \<in> set (codepoints u)" for q
    using codepoints_in [OF that] assms by (intro utf8_point_colon) (auto simp: scalar_value_def)
  then show ?thesis by (auto simp: utf8_def)
qed

text \<open>The header is read back as exactly the user's name and the current password, in UTF-8,
  whatever characters they hold, unless the name holds a colon; then the name is cut there and the
  rest of it goes to the password.\<close>

theorem password_request_read_back:
  "server_reads (basicAuth user password) =
     Some (if 58 \<notin> set user then (utf8 user, utf8 password)
           else (utf8 (takeWhile (\<lambda>c. c \<noteq> 58) user),
                 utf8 (drop 1 (dropWhile (\<lambda>c. c \<noteq> 58) user) @ [58] @ password)))"
proof -
  have cut: "server_reads (basicAuth u p) = Some (utf8 u, utf8 p)" if "58 \<notin> set u" for u p
  proof -
    have "atob (base64 (u @ [58] @ p)) = Some (utf8 u @ [58] @ utf8 p)"
      using unb64_b64 by (simp add: unb64_def b64_def base64_def utf8_colon)
    moreover have "\<forall>c \<in> set (utf8 u). c \<noteq> 58" using utf8_no_colon [OF that] by auto
    ultimately show ?thesis
      by (simp add: server_reads_def basicAuth_def starts_def js_def takeWhile_append dropWhile_append)
  qed
  show ?thesis
  proof (cases "58 \<in> set user")
    case True
    let ?u = "takeWhile (\<lambda>c. c \<noteq> 58) user" and ?r = "drop 1 (dropWhile (\<lambda>c. c \<noteq> 58) user)"
    have "dropWhile (\<lambda>c. c \<noteq> 58) user = 58 # ?r"
      using True hd_dropWhile [of "\<lambda>c. c \<noteq> 58" user] by (cases "dropWhile (\<lambda>c. c \<noteq> 58) user") auto
    then have "user = ?u @ [58] @ ?r" by (metis append_Cons append_Nil takeWhile_dropWhile_id)
    then have "user @ [58] @ password = ?u @ [58] @ (?r @ [58] @ password)" by (metis append.assoc)
    then have "basicAuth user password = basicAuth ?u (?r @ [58] @ password)" unfolding basicAuth_def by metis
    moreover have "58 \<notin> set ?u" by (metis set_takeWhileD)
    ultimately show ?thesis using True cut by simp
  qed (simp add: cut)
qed

end
