(* ===== verification/Onboarding.thy ===== *)
theory Onboarding
  imports GuestName Password
begin

text \<open>
  The first-run screens of the desktop and Android apps (onboarding/): the decisions of flow.js that
  need no \<open>URL\<close> object, and minter.js, which makes the first guest link over a web socket of its own.
\<close>

section \<open>Addresses and names (flow.js)\<close>

definition strip_end :: "jstr \<Rightarrow> jstr" where
  "strip_end s = rev (dropWhile (\<lambda>c. c = 47) (rev s))"

definition strip_slashes :: "jstr \<Rightarrow> jstr" where
  "strip_slashes s = strip_end (dropWhile (\<lambda>c. c = 47) s)"

text \<open>\<open>encodeURIComponent\<close> throws on half a surrogate pair: \<open>None\<close>.\<close>

definition roomUrl :: "jstr \<Rightarrow> jstr \<Rightarrow> jstr option" where
  "roomUrl origin room =
     (let base = strip_end origin; r = strip_slashes (js_trim room)
      in if r = [] then Some (base @ js ''/'')
         else map_option (\<lambda>ws. base @ js ''/group/'' @ join_with [47] ws @ js ''/'')
                (all_some (map encodeURIComponent (split_on 47 r))))"

record deployed =
  d_origin :: "jstr option"
  d_url :: "jstr option"
  d_hostname :: jstr

fun before :: "jstr \<Rightarrow> jstr \<Rightarrow> jstr" where
  "before sep [] = []"
| "before sep (c # s) = (if starts sep (c # s) then [] else c # before sep s)"

definition deployOrigin :: "deployed \<Rightarrow> jstr" where
  "deployOrigin r =
     (case d_origin r of
        Some (c # s) \<Rightarrow> strip_end (c # s)
      | _ \<Rightarrow>
          let u = (case d_url r of None \<Rightarrow> [] | Some u \<Rightarrow> u)
          in if starts (js ''https://'') u then strip_end (before (js ''/group/'') u)
             else js ''https://'' @ d_hostname r)"

definition SLUG_CHARS :: jstr where "SLUG_CHARS = js ''abcdefghijkmnpqrstuvwxyz23456789''"

definition randomSlug :: "byte list \<Rightarrow> jstr" where
  "randomSlug bytes = map (\<lambda>b. SLUG_CHARS ! (unat b mod length SLUG_CHARS)) bytes"

definition inviteUrl :: "jstr \<Rightarrow> jstr \<Rightarrow> jstr \<Rightarrow> jstr option" where
  "inviteUrl origin slug token =
     Option.bind (encodeURIComponent slug) (\<lambda>s.
     Option.bind (encodeURIComponent token) (\<lambda>t. Some (strip_end origin @ js ''/'' @ s @ js ''/?token='' @ t)))"

section \<open>Steps (flow.js)\<close>

datatype onb_path = PInvite | PServer | POwn

datatype onb_step =
    Choose | Invite | ServerStep | Role | Media | Ready | Need | Deploy | Done
  | GuideFind | GuideSignup | GuideOrder | GuidePanel | GuideCopy | GuidePaste

fun PATHS :: "onb_path \<Rightarrow> onb_step list" where
  "PATHS PInvite = [Choose, Invite, Media, Ready]"
| "PATHS PServer = [Choose, ServerStep, Role, Media, Ready]"
| "PATHS POwn = [Choose, Need, Deploy, Done]"

definition GUIDE :: "onb_step list" where
  "GUIDE = [GuideFind, GuideSignup, GuideOrder, GuidePanel, GuideCopy, GuidePaste]"

definition visibleSteps :: "onb_path \<Rightarrow> bool \<Rightarrow> onb_step list" where
  "visibleSteps path skipMedia = (if skipMedia then filter (\<lambda>s. s \<noteq> Media) (PATHS path) else PATHS path)"

fun index_of :: "'a \<Rightarrow> 'a list \<Rightarrow> nat option" where
  "index_of x [] = None"
| "index_of x (y # ys) = (if x = y then Some 0 else map_option Suc (index_of x ys))"

definition progress :: "onb_path option \<Rightarrow> onb_step \<Rightarrow> bool \<Rightarrow> nat \<times> nat" where
  "progress path st skipMedia =
     (case path of
        None \<Rightarrow> (0, 4)
      | Some p \<Rightarrow>
          let steps = visibleSteps p skipMedia;
              st = (if st \<in> set GUIDE then Need else st)
          in (case index_of st steps of None \<Rightarrow> 0 | Some i \<Rightarrow> i + 1, length steps))"

definition nextStep :: "onb_path \<Rightarrow> onb_step \<Rightarrow> bool \<Rightarrow> onb_step option" where
  "nextStep path st skipMedia =
     (case index_of st GUIDE of
        Some g \<Rightarrow> Some (if g + 1 < length GUIDE then GUIDE ! (g + 1) else Need)
      | None \<Rightarrow>
          let steps = visibleSteps path skipMedia
          in (case index_of st steps of
                Some i \<Rightarrow> if i + 1 < length steps then Some (steps ! (i + 1)) else None
              | None \<Rightarrow> None))"

definition shouldShow :: "bool \<Rightarrow> nat \<Rightarrow> bool \<Rightarrow> bool \<Rightarrow> bool" where
  "shouldShow finished servers deepLink changeServer \<longleftrightarrow> \<not> finished \<and> \<not> servers > 0 \<and> \<not> deepLink \<and> \<not> changeServer"

section \<open>The link minter (minter.js)\<close>

record mint_params =
  mp_group :: jstr
  mp_username :: jstr
  mp_password :: jstr
  mp_slug :: jstr
  mp_origin :: jstr

datatype mint_error = Timeout | Socket | Closed | JoinRefused | NoPermission | TokenRefused

datatype mint_result = Minted jstr jstr | Failed mint_error

datatype mint_out = SayHandshake | SayJoin jstr jstr jstr | SayPong | SayMakeToken jstr jstr

datatype mint_ws = WsConnecting | WsOpen | WsClosing

text \<open>\<open>m_results\<close> has what the promise was settled with, each time it was.\<close>

record mint =
  m_ws :: mint_ws
  m_finished :: bool
  m_timer :: bool
  m_sent :: "mint_out list"
  m_results :: "mint_result list"

text \<open>What a message says: the token of a reply is there when its value holds a string of that name, and
  it may carry an error.\<close>

datatype mint_msg =
    MHandshake
  | MPing
  | MJoined bool bool "jstr list option"
  | MUserMessage jstr bool bool "jstr option"
  | MOther

datatype mint_event = WsOpened | WsMessage mint_msg | WsError | WsClosed | TimerEnds

definition finish :: "mint_result \<Rightarrow> mint \<Rightarrow> mint" where
  "finish r m =
     (if m_finished m then m
      else m\<lparr>m_finished := True, m_timer := False, m_ws := WsClosing, m_results := m_results m @ [r]\<rparr>)"

definition say :: "mint_out \<Rightarrow> mint \<Rightarrow> mint" where
  "say x m = (if m_ws m = WsOpen then m\<lparr>m_sent := m_sent m @ [x]\<rparr> else m)"

definition minted_url :: "mint_params \<Rightarrow> jstr \<Rightarrow> jstr option" where
  "minted_url p token =
     Option.bind (encodeURIComponent (mp_slug p)) (\<lambda>s.
     Option.bind (encodeURIComponent token) (\<lambda>t. Some (mp_origin p @ js ''/'' @ s @ js ''/?token='' @ t)))"

text \<open>\<open>MJoined fail join perms\<close>: the kind is \<open>fail\<close>, or \<open>join\<close>.\<close>

fun got :: "mint_params \<Rightarrow> mint_msg \<Rightarrow> mint \<Rightarrow> mint" where
  "got p MHandshake m = say (SayJoin (mp_group p) (mp_username p) (mp_password p)) m"
| "got p MPing m = say SayPong m"
| "got p (MJoined fail join perms) m =
     (if fail then finish (Failed JoinRefused) m
      else if join
      then if js ''token'' \<notin> set (case perms of None \<Rightarrow> [] | Some ps \<Rightarrow> ps) then finish (Failed NoPermission) m
           else say (SayMakeToken (mp_username p) (mp_group p @ js ''/'' @ mp_slug p)) m
      else m)"
| "got p (MUserMessage kind privileged error tok) m =
     (if kind \<noteq> js ''token'' \<or> \<not> privileged then m
      else case tok of
             None \<Rightarrow> finish (Failed TokenRefused) m
           | Some t \<Rightarrow>
               if error then finish (Failed TokenRefused) m
               else case minted_url p t of
                      None \<Rightarrow> m
                    | Some url \<Rightarrow> finish (Minted url t) m)"
| "got p MOther m = m"

text \<open>\<open>WebSocket\<close> hands messages on only while it is open.\<close>

fun mint_step :: "mint_params \<Rightarrow> mint \<Rightarrow> mint_event \<Rightarrow> mint" where
  "mint_step p m WsOpened = (if m_ws m = WsConnecting then say SayHandshake (m\<lparr>m_ws := WsOpen\<rparr>) else m)"
| "mint_step p m (WsMessage x) = (if m_ws m = WsOpen then got p x m else m)"
| "mint_step p m WsError = finish (Failed Socket) m"
| "mint_step p m WsClosed = finish (Failed Closed) (m\<lparr>m_ws := WsClosing\<rparr>)"
| "mint_step p m TimerEnds = (if m_timer m then finish (Failed Timeout) m else m)"

definition sozvonMint :: "bool \<Rightarrow> mint" where
  "sozvonMint constructed =
     (let m = \<lparr>m_ws = WsConnecting, m_finished = False, m_timer = True, m_sent = [], m_results = []\<rparr>
      in if constructed then m else finish (Failed Socket) m)"

section \<open>Steps in order\<close>

fun walk :: "nat \<Rightarrow> onb_path \<Rightarrow> bool \<Rightarrow> onb_step \<Rightarrow> onb_step list" where
  "walk 0 path b st = [st]"
| "walk (Suc n) path b st = st # (case nextStep path st b of None \<Rightarrow> [] | Some s \<Rightarrow> walk n path b s)"

text \<open>Following \<open>nextStep\<close> shows the steps of a path in order, each once, and the bar fills by one with
  each; the guide leads back to the step it was left from.\<close>

theorem steps_in_order:
  "walk (length (PATHS path)) path b Choose = visibleSteps path b \<and>
   map (\<lambda>st. progress (Some path) st b) (visibleSteps path b) =
     map (\<lambda>i. (i, length (visibleSteps path b))) [1..<Suc (length (visibleSteps path b))] \<and>
   walk 8 POwn b GuideFind = GUIDE @ tl (PATHS POwn)"
  by (cases path; cases b; simp add: visibleSteps_def progress_def GUIDE_def Let_def eval_nat_numeral nextStep_def)

section \<open>What the minter answers\<close>

definition mint_ok :: "mint_params \<Rightarrow> mint_event list \<Rightarrow> mint \<Rightarrow> bool" where
  "mint_ok p es m \<longleftrightarrow>
     (if m_finished m then \<exists>r. m_results m = [r] \<and> m_ws m = WsClosing \<and> \<not> m_timer m \<and>
        (\<forall>url t. r = Minted url t \<longrightarrow>
           minted_url p t = Some url \<and> WsMessage (MUserMessage (js ''token'') True False (Some t)) \<in> set es)
      else m_results m = [] \<and> m_timer m \<and> set es \<inter> {TimerEnds, WsClosed, WsError} = {})"

lemma say_frame [simp]:
  "m_finished (say x m) = m_finished m" "m_timer (say x m) = m_timer m" "m_results (say x m) = m_results m"
  "m_ws (say x m) = m_ws m"
  by (simp_all add: say_def)

lemma mint_ok_step: "mint_ok p es m \<Longrightarrow> mint_ok p (es @ [e]) (mint_step p m e)"
proof (cases e)
  case (WsMessage x)
  assume m: "mint_ok p es m"
  show ?thesis
  proof (cases x)
    case (MUserMessage kind priv err tok)
    then show ?thesis using m WsMessage
      by (auto simp: mint_ok_def finish_def split: option.split)
  next
    case (MJoined fail join perms)
    then show ?thesis using m WsMessage by (auto simp: mint_ok_def finish_def split: option.split)
  qed (use m WsMessage in \<open>auto simp: mint_ok_def\<close>)
qed (auto simp: mint_ok_def finish_def)

lemma mint_ok_run: "mint_ok p es (foldl (mint_step p) (sozvonMint c) es)"
  by (induction es rule: rev_induct)
    (simp_all add: mint_ok_step, simp add: mint_ok_def sozvonMint_def finish_def Let_def)

lemma mint_settled: "m_finished m \<Longrightarrow> m_ws m = WsClosing \<Longrightarrow> \<not> m_timer m \<Longrightarrow> mint_step p m e = m"
  by (cases e) (simp_all add: finish_def)

text \<open>C36: the minter settles its promise once at most, and has settled it once its time is up or the socket
  has failed or closed; a link is made only of a token that a privileged reply brought, and after the
  answer nothing is sent.\<close>

theorem mint_answers_once:
  assumes "m = foldl (mint_step p) (sozvonMint c) es"
  shows "length (m_results m) \<le> 1 \<and>
    (set es \<inter> {TimerEnds, WsClosed, WsError} \<noteq> {} \<longrightarrow> length (m_results m) = 1) \<and>
    (Minted url t \<in> set (m_results m) \<longrightarrow>
       minted_url p t = Some url \<and> WsMessage (MUserMessage (js ''token'') True False (Some t)) \<in> set es) \<and>
    (m_results m \<noteq> [] \<longrightarrow> foldl (mint_step p) m es' = m)"
proof -
  have ok: "mint_ok p es m" unfolding assms by (rule mint_ok_run)
  have "foldl (mint_step p) m es' = m" if "m_results m \<noteq> []"
  proof -
    have "m_finished m \<and> m_ws m = WsClosing \<and> \<not> m_timer m" using ok that by (auto simp: mint_ok_def split: if_splits)
    then show ?thesis by (induction es') (simp_all add: mint_settled)
  qed
  then show ?thesis using ok by (auto simp: mint_ok_def split: if_splits)
qed

definition sample_mint :: mint_params where
  "sample_mint = \<lparr>mp_group = js ''hub'', mp_username = js ''op'', mp_password = js ''secret'', mp_slug = js ''room'',
     mp_origin = js ''https://h''\<rparr>"

definition mint_run :: "mint_event list" where
  "mint_run = [WsOpened, WsMessage MHandshake, WsMessage (MJoined False True (Some [js ''token''])),
     WsMessage (MUserMessage (js ''token'') True False (Some (js ''t'')))]"

theorem mint_answers_once_witness:
  "foldl (mint_step sample_mint) (sozvonMint True) (mint_run @ [TimerEnds, WsClosed]) =
   foldl (mint_step sample_mint) (sozvonMint True) mint_run"
proof -
  have "m_results (foldl (mint_step sample_mint) (sozvonMint True) mint_run) \<noteq> []"
    by (simp add: mint_run_def sozvonMint_def sample_mint_def say_def finish_def minted_url_def encodeURIComponent_def js_def)
  then show ?thesis using mint_answers_once [OF refl, of sample_mint True mint_run "[]" "[]" "[TimerEnds, WsClosed]"] by simp
qed

end
