(* ===== verification/Bitrate.thy ===== *)
theory Bitrate
  imports Prelude
begin

text \<open>
  static/bitrate-control.js: receiver-driven caps on the bitrate of incoming video. A controller per
  stream judges each interval of playback and decides what cap to ask the sender for; the sender
  keeps the requests per stream and applies the tightest fresh one. Numbers are exact rationals
  (the rounding of doubles is not modelled), \<open>null\<close> is \<open>None\<close>, and a time of \<open>-Infinity\<close> is \<open>None\<close>.
\<close>

section \<open>Constants\<close>

record limits =
  lim_audioDelay :: rat
  lim_videoDelay :: rat
  lim_concealed :: rat
  lim_freeze :: rat

record delays =
  audioDelay :: rat
  videoDelay :: rat

definition CONGESTED :: limits where
  "CONGESTED = \<lparr>lim_audioDelay = 25 / 100, lim_videoDelay = 4 / 10, lim_concealed = 5 / 100, lim_freeze = 3 / 10\<rparr>"

definition HEALTHY :: limits where
  "HEALTHY = \<lparr>lim_audioDelay = 12 / 100, lim_videoDelay = 2 / 10, lim_concealed = 1 / 100, lim_freeze = 0\<rparr>"

definition EXCESS_CONGESTED :: delays where
  "EXCESS_CONGESTED = \<lparr>audioDelay = 15 / 100, videoDelay = 2 / 10\<rparr>"

definition EXCESS_HEALTHY :: delays where
  "EXCESS_HEALTHY = \<lparr>audioDelay = 5 / 100, videoDelay = 8 / 100\<rparr>"

definition PROVEN_BELOW :: rat where "PROVEN_BELOW = 7 / 10"
definition PATH_MEMORY :: rat where "PATH_MEMORY = 300000"
definition PATH_LOWER_AFTER :: nat where "PATH_LOWER_AFTER = 3"
definition SETTLE :: rat where "SETTLE = 4000"
definition MIN_CAP :: rat where "MIN_CAP = 150000"
definition MAX_CAP :: rat where "MAX_CAP = 100000000"
definition RELEASE_AT :: rat where "RELEASE_AT = 3000000"

text \<open>The last bound is \<open>Infinity\<close>.\<close>

definition CAMERA_CEILING :: "(rat option \<times> rat) list" where
  "CAMERA_CEILING = [(Some 540, 2500000), (Some 800, 4000000), (None, 6000000)]"

definition START_CAP :: rat where "START_CAP = 1000000"
definition DECREASE :: rat where "DECREASE = 6 / 10"
definition INCREASE :: rat where "INCREASE = 13 / 10"
definition INCREASE_UNUSED :: rat where "INCREASE_UNUSED = 2"
definition UNUSED_BELOW :: rat where "UNUSED_BELOW = 7 / 10"
definition BAD_TO_DECREASE :: nat where "BAD_TO_DECREASE = 2"
definition GOOD_TO_INCREASE :: nat where "GOOD_TO_INCREASE = 8"
definition MIN_DECREASE_GAP :: rat where "MIN_DECREASE_GAP = 6000"
definition MIN_INCREASE_GAP :: rat where "MIN_INCREASE_GAP = 15000"
definition WARMUP :: rat where "WARMUP = 10000"
definition REFRESH :: rat where "REFRESH = 10000"
definition TTL :: rat where "TTL = 35000"

lemmas bitrate_consts =
  CONGESTED_def HEALTHY_def EXCESS_CONGESTED_def EXCESS_HEALTHY_def PROVEN_BELOW_def PATH_MEMORY_def
  PATH_LOWER_AFTER_def SETTLE_def MIN_CAP_def MAX_CAP_def RELEASE_AT_def CAMERA_CEILING_def
  START_CAP_def DECREASE_def INCREASE_def INCREASE_UNUSED_def UNUSED_BELOW_def BAD_TO_DECREASE_def
  GOOD_TO_INCREASE_def MIN_DECREASE_GAP_def MIN_INCREASE_GAP_def WARMUP_def REFRESH_def TTL_def

section \<open>Small helpers\<close>

text \<open>Whatever another client sent as a cap.\<close>

fun sanitizeCap :: "jsval \<Rightarrow> rat option" where
  "sanitizeCap (JNum (Fin cap)) =
     (if \<not> cap > 0 then None else if cap > MAX_CAP then None
      else Some (max MIN_CAP (jsround cap)))"
| "sanitizeCap _ = None"

abbreviation number :: "rat \<Rightarrow> jsval" where
  "number x \<equiv> JNum (Fin x)"

definition addKnown :: "rat option \<Rightarrow> rat option \<Rightarrow> rat option" where
  "addKnown acc v =
     (case v of None \<Rightarrow> acc | Some x \<Rightarrow> Some ((case acc of None \<Rightarrow> 0 | Some y \<Rightarrow> y) + x))"

definition perItem :: "rat option \<Rightarrow> rat option \<Rightarrow> rat \<Rightarrow> rat option" where
  "perItem before after items =
     (case (before, after) of
        (Some b, Some a) \<Rightarrow> if \<not> items > 0 then None else Some (max 0 (a - b) / items)
      | _ \<Rightarrow> None)"

text \<open>\<open>x || 0\<close>.\<close>

definition num0 :: "rat option \<Rightarrow> rat" where
  "num0 v = (case v of None \<Rightarrow> 0 | Some x \<Rightarrow> x)"

section \<open>Snapshots of the statistics\<close>

text \<open>An entry of a statistics report; \<open>None\<close> is a field the browser does not give.\<close>

record stat =
  rs_type :: string
  rs_kind :: "string option"
  rs_mediaType :: "string option"
  jitterBufferDelay :: "rat option"
  jitterBufferEmittedCount :: "rat option"
  concealedSamples :: "rat option"
  silentConcealedSamples :: "rat option"
  totalSamplesReceived :: "rat option"
  jitter :: "rat option"
  jitterBufferTargetDelay :: "rat option"
  jitterBufferMinimumDelay :: "rat option"
  totalFreezesDuration :: "rat option"
  bytesReceived :: "rat option"
  totalProcessingDelay :: "rat option"
  framesDecoded :: "rat option"
  totalDecodeTime :: "rat option"
  frameHeight :: "rat option"
  frameWidth :: "rat option"

record snap =
  time :: rat
  audio :: bool
  video :: bool
  aDelay :: rat
  aEmitted :: rat
  aConcealed :: rat
  aSamples :: rat
  vDelay :: rat
  vEmitted :: rat
  vFreeze :: rat
  vBytes :: rat
  aJitter :: rat
  vProcessing :: rat
  vDecoded :: rat
  vDecode :: "rat option"
  aTarget :: "rat option"
  aMinimum :: "rat option"
  vTarget :: "rat option"
  vMinimum :: "rat option"
  vWidth :: rat
  vHeight :: rat

definition snap_init :: "rat \<Rightarrow> snap" where
  "snap_init now =
     \<lparr>time = now, audio = False, video = False, aDelay = 0, aEmitted = 0, aConcealed = 0,
      aSamples = 0, vDelay = 0, vEmitted = 0, vFreeze = 0, vBytes = 0, aJitter = 0,
      vProcessing = 0, vDecoded = 0, vDecode = None, aTarget = None, aMinimum = None,
      vTarget = None, vMinimum = None, vWidth = 0, vHeight = 0\<rparr>"

definition stat_kind :: "stat \<Rightarrow> string option" where
  "stat_kind r = (case rs_kind r of Some k \<Rightarrow> if k = [] then rs_mediaType r else Some k | None \<Rightarrow> rs_mediaType r)"

definition snap_audio :: "stat \<Rightarrow> snap \<Rightarrow> snap" where
  "snap_audio r s =
     s\<lparr>audio := True,
       aDelay := aDelay s + num0 (jitterBufferDelay r),
       aEmitted := aEmitted s + num0 (jitterBufferEmittedCount r),
       aConcealed := aConcealed s + max 0 (num0 (concealedSamples r) - num0 (silentConcealedSamples r)),
       aSamples := aSamples s + num0 (totalSamplesReceived r),
       aJitter := max (aJitter s) (num0 (jitter r)),
       aTarget := addKnown (aTarget s) (jitterBufferTargetDelay r),
       aMinimum := addKnown (aMinimum s) (jitterBufferMinimumDelay r)\<rparr>"

definition snap_video :: "stat \<Rightarrow> snap \<Rightarrow> snap" where
  "snap_video r s =
     (let s = s\<lparr>video := True,
       vDelay := vDelay s + num0 (jitterBufferDelay r),
       vEmitted := vEmitted s + num0 (jitterBufferEmittedCount r),
       vFreeze := vFreeze s + num0 (totalFreezesDuration r),
       vBytes := vBytes s + num0 (bytesReceived r),
       vProcessing := vProcessing s + num0 (totalProcessingDelay r),
       vDecoded := vDecoded s + num0 (framesDecoded r),
       vDecode := addKnown (vDecode s) (totalDecodeTime r),
       vTarget := addKnown (vTarget s) (jitterBufferTargetDelay r),
       vMinimum := addKnown (vMinimum s) (jitterBufferMinimumDelay r)\<rparr>
      in if num0 (frameHeight r) > vHeight s
         then s\<lparr>vHeight := num0 (frameHeight r), vWidth := num0 (frameWidth r)\<rparr> else s)"

definition snap_stat :: "snap \<Rightarrow> stat \<Rightarrow> snap" where
  "snap_stat s r =
     (if rs_type r \<noteq> ''inbound-rtp'' then s
      else if stat_kind r = Some ''audio'' then snap_audio r s
      else if stat_kind r = Some ''video'' then snap_video r s
      else s)"

definition snapshot :: "stat list \<Rightarrow> rat \<Rightarrow> snap" where
  "snapshot report now = foldl snap_stat (snap_init now) report"

section \<open>Judging an interval\<close>

datatype judgement = Unknown | Bad | Good | Hold

record sample = delays +
  judged :: judgement
  videoBps :: rat
  concealed :: rat
  freeze :: rat
  sm_jitter :: rat
  processing :: rat
  decode :: "rat option"
  width :: rat
  height :: rat
  fps :: rat
  audioPlayed :: bool
  videoPlayed :: bool
  audioTarget :: "rat option"
  audioMinimum :: "rat option"
  videoTarget :: "rat option"
  videoMinimum :: "rat option"
  sm_path :: "delays option"

definition sample_init :: "delays option \<Rightarrow> sample" where
  "sample_init path =
     \<lparr>audioDelay = 0, videoDelay = 0, judged = Unknown, videoBps = 0, concealed = 0, freeze = 0,
      sm_jitter = 0, processing = 0, decode = None, width = 0, height = 0, fps = 0,
      audioPlayed = False, videoPlayed = False, audioTarget = None, audioMinimum = None,
      videoTarget = None, videoMinimum = None, sm_path = path\<rparr>"

text \<open>The thresholds an interval is judged by.\<close>

definition congested_limits :: "delays option \<Rightarrow> limits" where
  "congested_limits path =
     (case path of
        None \<Rightarrow> CONGESTED
      | Some p \<Rightarrow> CONGESTED\<lparr>
          lim_audioDelay := max (lim_audioDelay CONGESTED) (audioDelay p + audioDelay EXCESS_CONGESTED),
          lim_videoDelay := max (lim_videoDelay CONGESTED) (videoDelay p + videoDelay EXCESS_CONGESTED)\<rparr>)"

definition healthy_limits :: "delays option \<Rightarrow> limits" where
  "healthy_limits path =
     (case path of
        None \<Rightarrow> HEALTHY
      | Some p \<Rightarrow> HEALTHY\<lparr>
          lim_audioDelay := max (lim_audioDelay HEALTHY) (audioDelay p + audioDelay EXCESS_HEALTHY),
          lim_videoDelay := max (lim_videoDelay HEALTHY) (videoDelay p + videoDelay EXCESS_HEALTHY)\<rparr>)"

definition verdict :: "delays option \<Rightarrow> sample \<Rightarrow> judgement" where
  "verdict path r =
     (let congested = congested_limits path; healthy = healthy_limits path
      in if audioDelay r > lim_audioDelay congested \<or> videoDelay r > lim_videoDelay congested \<or>
            concealed r > lim_concealed congested \<or> freeze r > lim_freeze congested
         then Bad
         else if audioDelay r \<le> lim_audioDelay healthy \<and> videoDelay r \<le> lim_videoDelay healthy \<and>
                 concealed r \<le> lim_concealed HEALTHY \<and> freeze r \<le> lim_freeze HEALTHY
         then Good
         else Hold)"

text \<open>The figures of an interval, before it is judged.\<close>

definition measure_interval :: "snap \<Rightarrow> snap \<Rightarrow> delays option \<Rightarrow> sample" where
  "measure_interval prev cur path =
     (let dt = (time cur - time prev) / 1000;
          de = aEmitted cur - aEmitted prev;
          ds = aSamples cur - aSamples prev;
          dv = vEmitted cur - vEmitted prev;
          dd = vDecoded cur - vDecoded prev;
          r = sample_init path;
          r = (if de > 0 then r\<lparr>audioDelay := (aDelay cur - aDelay prev) / de, audioPlayed := True\<rparr> else r);
          r = r\<lparr>audioTarget := perItem (aTarget prev) (aTarget cur) de,
                audioMinimum := perItem (aMinimum prev) (aMinimum cur) de\<rparr>;
          r = (if ds > 0 then r\<lparr>concealed := max 0 (aConcealed cur - aConcealed prev) / ds\<rparr> else r);
          r = (if dv > 0 then r\<lparr>videoDelay := (vDelay cur - vDelay prev) / dv, videoPlayed := True\<rparr> else r);
          r = r\<lparr>videoTarget := perItem (vTarget prev) (vTarget cur) dv,
                videoMinimum := perItem (vMinimum prev) (vMinimum cur) dv,
                sm_jitter := aJitter cur\<rparr>;
          r = (if dd > 0 then r\<lparr>processing := max 0 (vProcessing cur - vProcessing prev) / dd\<rparr> else r);
          r = r\<lparr>decode := perItem (vDecode prev) (vDecode cur) dd\<rparr>
      in if video cur
         then r\<lparr>width := vWidth cur, height := vHeight cur, fps := max 0 dd / dt,
                freeze := max 0 (vFreeze cur - vFreeze prev),
                videoBps := max 0 (vBytes cur - vBytes prev) * 8 / dt\<rparr>
         else r)"

definition assess :: "snap option \<Rightarrow> snap \<Rightarrow> delays option \<Rightarrow> sample" where
  "assess prev cur path =
     (case prev of
        None \<Rightarrow> sample_init path
      | Some p \<Rightarrow>
          if time cur \<le> time p then sample_init path
          else let r = measure_interval p cur path
               in if \<not> (aEmitted cur - aEmitted p > 0 \<or> vEmitted cur - vEmitted p > 0) then r
                  else r\<lparr>judged := verdict path r\<rparr>)"

section \<open>The receiver's controller\<close>

record seen_delay = delays +
  sn_time :: rat
  sn_cap :: rat

record controller =
  startCap :: "rat option"
  camera :: bool
  maxLines :: rat
  started :: bool
  cap :: "rat option"
  prev :: "snap option"
  bad :: nat
  good :: nat
  changedAt :: "rat option"
  sentAt :: "rat option"
  startedAt :: "rat option"
  rates :: "rat list"
  seen :: "seen_delay list"
  path :: "delays option"
  pathUntil :: "rat option"
  recent :: "delays list"

definition Controller :: "jsval \<Rightarrow> string \<Rightarrow> controller" where
  "Controller start label =
     \<lparr>startCap = sanitizeCap start, camera = (label = ''camera''), maxLines = 0, started = False,
      cap = None, prev = None, bad = 0, good = 0, changedAt = None, sentAt = None,
      startedAt = None, rates = [], seen = [], path = None, pathUntil = None, recent = []\<rparr>"

text \<open>\<open>now - t >= gap\<close> where \<open>t\<close> may be \<open>-Infinity\<close>.\<close>

definition elapsed :: "rat option \<Rightarrow> rat \<Rightarrow> rat \<Rightarrow> bool" where
  "elapsed t now gap = (case t of None \<Rightarrow> True | Some x \<Rightarrow> now - x \<ge> gap)"

definition max_from :: "rat option \<Rightarrow> rat \<Rightarrow> rat" where
  "max_from t x = (case t of None \<Rightarrow> x | Some y \<Rightarrow> max y x)"

fun ceiling_for :: "rat \<Rightarrow> (rat option \<times> rat) list \<Rightarrow> rat option" where
  "ceiling_for lines [] = None"
| "ceiling_for lines ((edge, c) # rest) =
     (if (case edge of None \<Rightarrow> True | Some u \<Rightarrow> lines \<le> u) then Some c else ceiling_for lines rest)"

definition cam_ceiling :: "controller \<Rightarrow> rat option" where
  "cam_ceiling c = (if \<not> camera c then None else ceiling_for (maxLines c) CAMERA_CEILING)"

text \<open>Whether a delay seen at cap \<open>x\<close> is the path's, judged at the current cap.\<close>

definition proves :: "rat option \<Rightarrow> rat \<Rightarrow> bool" where
  "proves current x \<longleftrightarrow>
     \<not> (x > MIN_CAP \<and> (case current of None \<Rightarrow> False | Some c \<Rightarrow> x > c * PROVEN_BELOW))"

fun least_delay :: "rat option \<Rightarrow> delays option \<Rightarrow> seen_delay list \<Rightarrow> delays option" where
  "least_delay current p [] = p"
| "least_delay current p (e # es) =
     least_delay current
       (if \<not> proves current (sn_cap e) then p
        else case p of
               None \<Rightarrow> Some \<lparr>audioDelay = audioDelay e, videoDelay = videoDelay e\<rparr>
             | Some d \<Rightarrow> Some \<lparr>audioDelay = min (audioDelay d) (audioDelay e),
                              videoDelay = min (videoDelay d) (videoDelay e)\<rparr>) es"

definition pathEvidence :: "rat \<Rightarrow> controller \<Rightarrow> controller \<times> delays option" where
  "pathEvidence now c =
     (let c = c\<lparr>seen := dropWhile (\<lambda>e. now - sn_time e > PATH_MEMORY) (seen c)\<rparr>
      in (c, least_delay (cap c) None (seen c)))"

definition pathDelay :: "rat \<Rightarrow> controller \<Rightarrow> controller \<times> delays option" where
  "pathDelay now c =
     (let (c, evidence) = pathEvidence now c;
          c = (case evidence of
                 Some e \<Rightarrow> c\<lparr>path := Some e, pathUntil := Some (max_from (pathUntil c) (now + PATH_MEMORY))\<rparr>
               | None \<Rightarrow>
                   if path c \<noteq> None \<and> elapsed (pathUntil c) now 0 then c\<lparr>path := None\<rparr> else c)
      in (c, path c))"

text \<open>\<open>push\<close> followed by \<open>shift\<close> once there are more than \<open>n\<close>.\<close>

definition push_keep :: "nat \<Rightarrow> 'a \<Rightarrow> 'a list \<Rightarrow> 'a list" where
  "push_keep n x xs = (let ys = xs @ [x] in if length ys > n then tl ys else ys)"

definition max_list :: "rat list \<Rightarrow> rat" where
  "max_list xs = foldl max (hd xs) (tl xs)"

definition confirmPath :: "sample \<Rightarrow> rat \<Rightarrow> controller \<Rightarrow> controller" where
  "confirmPath sample now c =
     (let c = c\<lparr>recent := push_keep PATH_LOWER_AFTER
               \<lparr>audioDelay = audioDelay sample, videoDelay = videoDelay sample\<rparr> (recent c)\<rparr>
      in case path c of
           None \<Rightarrow> c
         | Some p \<Rightarrow>
             let c = (if judged sample \<noteq> Bad
                      then c\<lparr>pathUntil := Some (max_from (pathUntil c) (now + PATH_MEMORY))\<rparr> else c)
             in if length (recent c) \<ge> PATH_LOWER_AFTER
                then let a = max_list (map audioDelay (recent c)); v = max_list (map videoDelay (recent c))
                     in c\<lparr>path := Some \<lparr>audioDelay = min (audioDelay p) a, videoDelay = min (videoDelay p) v\<rparr>\<rparr>
                else c)"

text \<open>\<open>update\<close>, part by part: the evidence it keeps, no video arriving, video starting, the counts,
  and the change of the cap.\<close>

record answer =
  an_cap :: "rat option"
  changed :: bool
  send :: bool
  an_sample :: sample

definition is_warming :: "rat \<Rightarrow> controller \<Rightarrow> bool" where
  "is_warming now c = (case startedAt c of None \<Rightarrow> True | Some t \<Rightarrow> now - t < WARMUP)"

definition keep_evidence :: "sample \<Rightarrow> rat \<Rightarrow> controller \<Rightarrow> controller" where
  "keep_evidence sample now c =
     (if \<not> is_warming now c \<and> judged sample \<noteq> Unknown
      then confirmPath sample now
             (case cap c of
                Some x \<Rightarrow>
                  if elapsed (changedAt c) now SETTLE
                  then c\<lparr>seen := seen c @ [\<lparr>audioDelay = audioDelay sample,
                         videoDelay = videoDelay sample, sn_time = now, sn_cap = x\<rparr>]\<rparr>
                  else c
              | None \<Rightarrow> c)
      else c)"

definition see_picture :: "sample \<Rightarrow> controller \<Rightarrow> controller" where
  "see_picture sample c =
     (let lines = (if width sample > 0 then min (width sample) (height sample) else height sample)
      in if lines > maxLines c then c\<lparr>maxLines := lines\<rparr> else c)"

definition mark_start :: "sample \<Rightarrow> rat \<Rightarrow> controller \<Rightarrow> controller" where
  "mark_start sample now c =
     (if startedAt c = None \<and> judged sample \<noteq> Unknown then c\<lparr>startedAt := Some now\<rparr> else c)"

definition observe :: "snap \<Rightarrow> controller \<Rightarrow> controller \<times> sample" where
  "observe sn c =
     (let now = time sn;
          (c, p) = pathDelay now c;
          sample = assess (prev c) sn p;
          c = see_picture sample c;
          c = mark_start sample now (c\<lparr>prev := Some sn\<rparr>)
      in (keep_evidence sample now c, sample))"

definition no_video :: "sample \<Rightarrow> rat \<Rightarrow> controller \<Rightarrow> controller \<times> answer" where
  "no_video sample now c =
     (let old = cap c;
          c = c\<lparr>started := False, rates := [], bad := 0, good := 0, cap := None\<rparr>;
          changed = (old \<noteq> None);
          c = (if changed then c\<lparr>changedAt := Some now, sentAt := Some now\<rparr> else c)
      in (c, \<lparr>an_cap = None, changed = changed, send = changed, an_sample = sample\<rparr>))"

definition start_video :: "rat \<Rightarrow> controller \<Rightarrow> controller" where
  "start_video now c =
     (if started c then c
      else let c = c\<lparr>started := True\<rparr>
           in if startCap c \<noteq> None \<and> cap c = None
              then c\<lparr>cap := startCap c, changedAt := Some now\<rparr> else c)"

definition tally :: "sample \<Rightarrow> bool \<Rightarrow> controller \<Rightarrow> controller" where
  "tally sample warming c =
     (let c = (if judged sample \<noteq> Unknown then c\<lparr>rates := push_keep 3 (videoBps sample) (rates c)\<rparr> else c)
      in case judged sample of
           Bad \<Rightarrow> if warming then c\<lparr>bad := 0, good := 0\<rparr> else c\<lparr>bad := bad c + 1, good := 0\<rparr>
         | Good \<Rightarrow> c\<lparr>good := good c + 1, bad := 0\<rparr>
         | Hold \<Rightarrow> c\<lparr>bad := 0, good := 0\<rparr>
         | Unknown \<Rightarrow> c)"

definition arriving :: "controller \<Rightarrow> rat" where
  "arriving c = (if rates c = [] then 0 else max_list (rates c))"

definition decrease :: "rat \<Rightarrow> controller \<Rightarrow> controller" where
  "decrease now c =
     (let base = (case cap c of None \<Rightarrow> arriving c | Some x \<Rightarrow> min x (arriving c));
          c = (case sanitizeCap (number (base * DECREASE)) of
                 None \<Rightarrow> c
               | Some n \<Rightarrow>
                   if (case cap c of None \<Rightarrow> True | Some x \<Rightarrow> n < x)
                   then c\<lparr>cap := Some n, changedAt := Some now\<rparr> else c)
      in c\<lparr>bad := 0\<rparr>)"

definition increase :: "rat \<Rightarrow> rat \<Rightarrow> controller \<Rightarrow> controller" where
  "increase now x c =
     (let factor = (if arriving c > 0 \<and> arriving c < x * UNUSED_BELOW then INCREASE_UNUSED else INCREASE);
          n = sanitizeCap (number (x * factor));
          c = (case cam_ceiling c of
                 Some hi \<Rightarrow>
                   if x < hi
                   then c\<lparr>cap := Some (min (case n of None \<Rightarrow> hi | Some m \<Rightarrow> m) hi), changedAt := Some now\<rparr>
                   else c
               | None \<Rightarrow>
                   c\<lparr>cap := (case n of None \<Rightarrow> None | Some m \<Rightarrow> if m \<ge> RELEASE_AT then None else Some m),
                     changedAt := Some now\<rparr>)
      in c\<lparr>good := 0\<rparr>)"

definition adjust :: "rat \<Rightarrow> controller \<Rightarrow> controller" where
  "adjust now c =
     (if bad c \<ge> BAD_TO_DECREASE \<and> arriving c > 0 \<and> elapsed (changedAt c) now MIN_DECREASE_GAP
      then decrease now c
      else case cap c of
             Some x \<Rightarrow>
               if good c \<ge> GOOD_TO_INCREASE \<and> elapsed (changedAt c) now MIN_INCREASE_GAP
               then increase now x c else c
           | None \<Rightarrow> c)"

definition update :: "snap \<Rightarrow> controller \<Rightarrow> controller \<times> answer" where
  "update sn c =
     (let now = time sn; old = cap c; (c, sample) = observe sn c
      in if \<not> video sn then no_video sample now c
         else let c = start_video now c;
                  c = tally sample (is_warming now c) c;
                  c = adjust now c;
                  changed = (cap c \<noteq> old);
                  send = (changed \<or> cap c \<noteq> None \<and> elapsed (sentAt c) now REFRESH);
                  c = (if send then c\<lparr>sentAt := Some now\<rparr> else c)
              in (c, \<lparr>an_cap = cap c, changed = changed, send = send, an_sample = sample\<rparr>))"

section \<open>The sender's registry\<close>

record request =
  rq_cap :: rat
  rq_at :: rat

type_synonym caps = "(jstr, (jstr, request) jsmap) jsmap"

definition tightest :: "rat option \<Rightarrow> request \<Rightarrow> rat option" where
  "tightest m e = (case m of None \<Rightarrow> Some (rq_cap e) | Some x \<Rightarrow> if rq_cap e < x then Some (rq_cap e) else m)"

text \<open>Reading drops the requests that are too old, and the stream with its last one.\<close>

definition caps_get :: "jstr \<Rightarrow> rat \<Rightarrow> caps \<Rightarrow> caps \<times> rat option" where
  "caps_get stream now s =
     (case map_get s stream of
        None \<Rightarrow> (s, None)
      | Some m \<Rightarrow>
          let fresh = filter (\<lambda>(u, e). \<not> now - rq_at e > TTL) m
          in (if fresh = [] then map_delete stream s else map_set stream fresh s,
              foldl tightest None (map snd fresh)))"

definition caps_set :: "jstr \<Rightarrow> jstr \<Rightarrow> jsval \<Rightarrow> rat \<Rightarrow> caps \<Rightarrow> caps \<times> bool" where
  "caps_set stream sender x now s =
     (let (s, before) = caps_get stream now s;
          m = map_get s stream;
          s = (case sanitizeCap x of
                 None \<Rightarrow>
                   (case m of
                      None \<Rightarrow> s
                    | Some m \<Rightarrow>
                        let m = map_delete sender m
                        in if m = [] then map_delete stream s else map_set stream m s)
               | Some c \<Rightarrow>
                   map_set stream (map_set sender \<lparr>rq_cap = c, rq_at = now\<rparr> (case m of None \<Rightarrow> [] | Some m \<Rightarrow> m)) s);
          (s, after) = caps_get stream now s
      in (s, after \<noteq> before))"

text \<open>The loop over the streams deletes from the map it iterates, which skips nothing.\<close>

fun caps_forget :: "jstr \<Rightarrow> caps \<Rightarrow> caps \<times> jstr list" where
  "caps_forget sender [] = ([], [])"
| "caps_forget sender ((stream, m) # s) =
     (let (s', touched) = caps_forget sender s;
          m' = map_delete sender m
      in (if m' = [] then s' else (stream, m') # s',
          (if map_get m sender \<noteq> None then [stream] else []) @ touched))"

definition combine :: "rat option \<Rightarrow> rat option \<Rightarrow> rat option" where
  "combine setting x =
     (case x of
        None \<Rightarrow> setting
      | Some c \<Rightarrow> (case setting of None \<Rightarrow> Some c | Some s \<Rightarrow> if s \<le> 0 then Some c else Some (min s c)))"

section \<open>Reports\<close>

record ask_report = delays +
  ar_cap :: "rat option"
  ar_jitter :: rat
  ar_processing :: rat
  ar_decode :: "rat option"
  ar_freeze :: rat
  ar_concealed :: rat
  ar_audioTarget :: "rat option"
  ar_audioMinimum :: "rat option"
  ar_videoTarget :: "rat option"
  ar_videoMinimum :: "rat option"
  pathAudio :: "rat option"
  pathVideo :: "rat option"

definition askReport :: "rat option \<Rightarrow> sample \<Rightarrow> ask_report" where
  "askReport x s =
     \<lparr>audioDelay = audioDelay s, videoDelay = videoDelay s, ar_cap = x, ar_jitter = sm_jitter s,
      ar_processing = processing s, ar_decode = decode s, ar_freeze = freeze s,
      ar_concealed = concealed s, ar_audioTarget = audioTarget s, ar_audioMinimum = audioMinimum s,
      ar_videoTarget = videoTarget s, ar_videoMinimum = videoMinimum s,
      pathAudio = map_option audioDelay (sm_path s), pathVideo = map_option videoDelay (sm_path s)\<rparr>"

datatype figure = FAudioDelay | FAudioTarget | FAudioMinimum | FVideoDelay | FVideoTarget | FVideoMinimum

definition PICTURE_DELAYS :: "figure list" where
  "PICTURE_DELAYS = [FAudioDelay, FAudioTarget, FAudioMinimum, FVideoDelay, FVideoTarget, FVideoMinimum]"

text \<open>The figure of a sample, where the interval played out anything to have it.\<close>

fun figure_of :: "sample \<Rightarrow> figure \<Rightarrow> rat option" where
  "figure_of s FAudioDelay = (if audioPlayed s then Some (audioDelay s) else None)"
| "figure_of s FAudioTarget = (if audioPlayed s then audioTarget s else None)"
| "figure_of s FAudioMinimum = (if audioPlayed s then audioMinimum s else None)"
| "figure_of s FVideoDelay = (if videoPlayed s then Some (videoDelay s) else None)"
| "figure_of s FVideoTarget = (if videoPlayed s then videoTarget s else None)"
| "figure_of s FVideoMinimum = (if videoPlayed s then videoMinimum s else None)"

record picture =
  interval :: rat
  since :: "rat option"
  pn :: nat
  pfps :: rat
  minFps :: "rat option"
  pbps :: rat
  pwidth :: rat
  pheight :: rat
  pdelays :: "figure \<Rightarrow> (rat \<times> nat) option"

record picture_report =
  pr_width :: rat
  pr_height :: rat
  pr_fps :: rat
  pr_minFps :: "rat option"
  pr_rate :: rat
  pr_cap :: "rat option"
  pr_delays :: "(figure \<times> rat option) list"

definition picture_reset :: "rat option \<Rightarrow> picture \<Rightarrow> picture" where
  "picture_reset now p =
     p\<lparr>since := now, pn := 0, pfps := 0, minFps := None, pbps := 0, pwidth := 0, pheight := 0,
       pdelays := (\<lambda>_. None)\<rparr>"

definition Picture :: "rat \<Rightarrow> picture" where
  "Picture i =
     \<lparr>interval = i, since = None, pn = 0, pfps = 0, minFps = None, pbps = 0, pwidth = 0, pheight = 0,
      pdelays = (\<lambda>_. None)\<rparr>"

definition add_figure :: "sample \<Rightarrow> (figure \<Rightarrow> (rat \<times> nat) option) \<Rightarrow> figure \<Rightarrow> (figure \<Rightarrow> (rat \<times> nat) option)" where
  "add_figure s d k =
     (case figure_of s k of
        None \<Rightarrow> d
      | Some v \<Rightarrow> d(k \<mapsto> (case d k of None \<Rightarrow> (v, 1) | Some (t, n) \<Rightarrow> (t + v, n + 1))))"

definition picture_gather :: "sample \<Rightarrow> rat \<Rightarrow> picture \<Rightarrow> picture" where
  "picture_gather s now p =
     p\<lparr>since := (case since p of None \<Rightarrow> Some now | Some t \<Rightarrow> Some t), pn := pn p + 1,
       pfps := pfps p + fps s,
       minFps := Some (case minFps p of None \<Rightarrow> fps s | Some m \<Rightarrow> min m (fps s)),
       pbps := pbps p + videoBps s, pwidth := width s, pheight := height s,
       pdelays := foldl (add_figure s) (pdelays p) PICTURE_DELAYS\<rparr>"

definition picture_add :: "sample \<Rightarrow> rat option \<Rightarrow> rat \<Rightarrow> picture \<Rightarrow> picture \<times> picture_report option" where
  "picture_add s x now p =
     (if judged s = Unknown \<or> \<not> fps s > 0 then (p, None)
      else let p = picture_gather s now p
           in if \<not> elapsed (since p) now (interval p) then (p, None)
              else (picture_reset None p,
                    Some \<lparr>pr_width = pwidth p, pr_height = pheight p, pr_fps = pfps p / of_nat (pn p),
                          pr_minFps = minFps p, pr_rate = pbps p / of_nat (pn p), pr_cap = x,
                          pr_delays = map (\<lambda>k. (k, map_option (\<lambda>(t, n). t / of_nat n) (pdelays p k)))
                            PICTURE_DELAYS\<rparr>))"

end
