(* ===== verification/BitrateProps.thy ===== *)
theory BitrateProps
  imports Bitrate
begin

text \<open>
  What the bitrate controller and the sender's registry guarantee over any sequence of polls and
  requests.
\<close>

section \<open>Caps stay in range\<close>

definition in_range :: "rat \<Rightarrow> bool" where
  "in_range x \<longleftrightarrow> MIN_CAP \<le> x \<and> x \<le> MAX_CAP"

lemma sanitizeCap_range: "sanitizeCap v = Some x \<Longrightarrow> in_range x"
proof (induction v rule: sanitizeCap.induct)
  case (1 y)
  then have "y \<le> 100000000" "x = max MIN_CAP (jsround y)"
    by (auto simp: MAX_CAP_def split: if_splits)
  moreover have "jsround y \<le> jsround 100000000" if "y \<le> 100000000"
    using that by (rule jsround_mono)
  ultimately show ?case by (simp add: in_range_def bitrate_consts)
qed simp_all

lemma sanitizeCap_near:
  "sanitizeCap (number y) = Some x \<Longrightarrow> x \<le> max MIN_CAP (y + 1 / 2)"
  using jsround_bounds(2) [of y] by (auto split: if_splits simp: max_def)

lemma ceiling_for_camera: "\<exists>t. ceiling_for lines CAMERA_CEILING = Some t \<and> 2500000 \<le> t \<and> t \<le> 6000000"
  by (simp add: CAMERA_CEILING_def)

lemma ceiling_for_mono:
  "l \<le> m \<Longrightarrow> the (ceiling_for l CAMERA_CEILING) \<le> the (ceiling_for m CAMERA_CEILING)"
  by (simp add: CAMERA_CEILING_def)

section \<open>Which parts change what\<close>

lemma pathDelay_fields [simp]:
  "cap (fst (pathDelay now c)) = cap c" "startCap (fst (pathDelay now c)) = startCap c"
  "started (fst (pathDelay now c)) = started c" "camera (fst (pathDelay now c)) = camera c"
  "maxLines (fst (pathDelay now c)) = maxLines c" "changedAt (fst (pathDelay now c)) = changedAt c"
  "startedAt (fst (pathDelay now c)) = startedAt c" "prev (fst (pathDelay now c)) = prev c"
  by (simp_all add: pathDelay_def pathEvidence_def Let_def split: option.split)

lemma confirmPath_fields [simp]:
  "cap (confirmPath sm now c) = cap c" "startCap (confirmPath sm now c) = startCap c"
  "started (confirmPath sm now c) = started c" "camera (confirmPath sm now c) = camera c"
  "maxLines (confirmPath sm now c) = maxLines c" "changedAt (confirmPath sm now c) = changedAt c"
  by (simp_all add: confirmPath_def Let_def split: option.split)

lemma keep_evidence_fields [simp]:
  "cap (keep_evidence sm now c) = cap c" "startCap (keep_evidence sm now c) = startCap c"
  "started (keep_evidence sm now c) = started c" "camera (keep_evidence sm now c) = camera c"
  "maxLines (keep_evidence sm now c) = maxLines c" "changedAt (keep_evidence sm now c) = changedAt c"
  by (simp_all add: keep_evidence_def split: option.split)

lemma see_picture_fields [simp]:
  "cap (see_picture sm c) = cap c" "startCap (see_picture sm c) = startCap c"
  "started (see_picture sm c) = started c" "camera (see_picture sm c) = camera c"
  "maxLines c \<le> maxLines (see_picture sm c)" "changedAt (see_picture sm c) = changedAt c"
  by (simp_all add: see_picture_def Let_def)

lemma mark_start_fields [simp]:
  "cap (mark_start sm now c) = cap c" "startCap (mark_start sm now c) = startCap c"
  "started (mark_start sm now c) = started c" "camera (mark_start sm now c) = camera c"
  "maxLines (mark_start sm now c) = maxLines c" "changedAt (mark_start sm now c) = changedAt c"
  by (simp_all add: mark_start_def)

lemma observe_fields:
  assumes "observe sn c = (c', sm)"
  shows "cap c' = cap c" "startCap c' = startCap c" "started c' = started c" "camera c' = camera c"
    "maxLines c \<le> maxLines c'" "changedAt c' = changedAt c"
proof -
  obtain d p where d: "pathDelay (time sn) c = (d, p)" by (cases "pathDelay (time sn) c")
  then have "cap d = cap c" "startCap d = startCap c" "started d = started c" "camera d = camera c"
    "maxLines d = maxLines c" "changedAt d = changedAt c"
    using pathDelay_fields [of "time sn" c] by simp_all
  then show "cap c' = cap c" "startCap c' = startCap c" "started c' = started c" "camera c' = camera c"
    "maxLines c \<le> maxLines c'" "changedAt c' = changedAt c"
    using assms see_picture_fields(5) [of d "assess (prev d) sn p"]
    by (auto simp: observe_def d Let_def)
qed

lemma tally_fields [simp]:
  "cap (tally sm w c) = cap c" "startCap (tally sm w c) = startCap c" "started (tally sm w c) = started c"
  "camera (tally sm w c) = camera c" "maxLines (tally sm w c) = maxLines c"
  "changedAt (tally sm w c) = changedAt c" "sentAt (tally sm w c) = sentAt c"
  by (simp_all add: tally_def Let_def split: judgement.split)

lemma start_video_fields [simp]:
  "startCap (start_video now c) = startCap c" "started (start_video now c)"
  "camera (start_video now c) = camera c" "maxLines (start_video now c) = maxLines c"
  "started c \<Longrightarrow> start_video now c = c"
  by (simp_all add: start_video_def Let_def)

lemma decrease_fields [simp]:
  "startCap (decrease now c) = startCap c" "started (decrease now c) = started c"
  "camera (decrease now c) = camera c" "maxLines (decrease now c) = maxLines c"
  by (simp_all add: decrease_def Let_def split: option.split)

lemma increase_fields [simp]:
  "startCap (increase now x c) = startCap c" "started (increase now x c) = started c"
  "camera (increase now x c) = camera c" "maxLines (increase now x c) = maxLines c"
  by (simp_all add: increase_def Let_def split: option.split)

lemma adjust_fields [simp]:
  "startCap (adjust now c) = startCap c" "started (adjust now c) = started c"
  "camera (adjust now c) = camera c" "maxLines (adjust now c) = maxLines c"
  by (simp_all add: adjust_def split: option.split)

text \<open>A decrease lowers the cap, an increase keeps below the ceiling.\<close>

lemma decrease_cap:
  "cap (decrease now c) = cap c \<or>
   (\<exists>n. cap (decrease now c) = Some n \<and> in_range n \<and> (\<forall>x. cap c = Some x \<longrightarrow> n < x) \<and>
        changedAt (decrease now c) = Some now)"
  using sanitizeCap_range
  by (auto simp: decrease_def Let_def simp del: sanitizeCap.simps split: option.split)

lemma increase_cap:
  assumes "cap (increase now x c) = Some n" and "cap c = Some x" and "in_range x"
  shows "in_range n" and "cam_ceiling c = Some t \<Longrightarrow> n \<le> max x t"
proof -
  show "in_range n"
  proof (cases "cam_ceiling c")
    case None
    then show ?thesis
      using assms sanitizeCap_range
      by (auto simp: increase_def Let_def simp del: sanitizeCap.simps split: option.splits if_splits)
  next
    case (Some t)
    then have t: "2500000 \<le> t" "t \<le> 6000000"
      using ceiling_for_camera [of "maxLines c"] by (auto simp: cam_ceiling_def split: if_splits)
    show ?thesis
    proof (cases "x < t")
      case True
      then have "n = t \<or> (\<exists>m. n = min m t \<and> in_range m)"
        using assms(1) Some sanitizeCap_range
        by (auto simp: increase_def Let_def simp del: sanitizeCap.simps split: option.splits)
      then show ?thesis using t by (auto simp: in_range_def bitrate_consts)
    next
      case False
      then show ?thesis using assms Some by (simp add: increase_def Let_def)
    qed
  qed
  show "n \<le> max x t" if "cam_ceiling c = Some t"
    using assms(1,2) that
    by (auto simp: increase_def Let_def simp del: sanitizeCap.simps split: if_splits)
qed

definition cap_inv :: "controller \<Rightarrow> bool" where
  "cap_inv c \<longleftrightarrow> (\<forall>x. startCap c = Some x \<longrightarrow> in_range x) \<and> (\<forall>x. cap c = Some x \<longrightarrow> in_range x)"

lemma cap_inv_adjust:
  assumes "cap_inv c"
  shows "cap_inv (adjust now c)"
proof -
  have "in_range n" if "cap (decrease now c) = Some n" for n
    using that assms decrease_cap [of now c] by (auto simp: cap_inv_def)
  moreover have "in_range n" if "cap (increase now x c) = Some n" "cap c = Some x" for n x
    using increase_cap(1) [OF that] assms that(2) by (simp add: cap_inv_def)
  ultimately show ?thesis
    using assms by (auto simp: adjust_def cap_inv_def split: option.splits)
qed

text \<open>The controller \<open>update\<close> leaves when video arrives, up to the time of the last message.\<close>

definition adjusted :: "snap \<Rightarrow> controller \<Rightarrow> controller" where
  "adjusted sn c =
     (let c' = fst (observe sn c); d = start_video (time sn) c'
      in adjust (time sn) (tally (snd (observe sn c)) (is_warming (time sn) d) d))"

lemma update_video:
  assumes "video sn"
  shows "cap (fst (update sn c)) = cap (adjusted sn c)"
    "an_cap (snd (update sn c)) = cap (adjusted sn c)"
    "startCap (fst (update sn c)) = startCap (adjusted sn c)"
    "started (fst (update sn c)) = started (adjusted sn c)"
    "camera (fst (update sn c)) = camera (adjusted sn c)"
    "maxLines (fst (update sn c)) = maxLines (adjusted sn c)"
    "changedAt (fst (update sn c)) = changedAt (adjusted sn c)"
  using assms by (simp_all add: update_def adjusted_def Let_def split: prod.split)

lemma no_video_fields [simp]:
  "cap (fst (no_video sm now c)) = None" "startCap (fst (no_video sm now c)) = startCap c"
  "\<not> started (fst (no_video sm now c))" "camera (fst (no_video sm now c)) = camera c"
  "maxLines (fst (no_video sm now c)) = maxLines c"
  by (simp_all add: no_video_def Let_def)

lemma update_no_video:
  assumes "\<not> video sn"
  shows "cap (fst (update sn c)) = None" "startCap (fst (update sn c)) = startCap c"
    "\<not> started (fst (update sn c))" "camera (fst (update sn c)) = camera c"
    "maxLines c \<le> maxLines (fst (update sn c))"
proof -
  obtain d sm where o: "observe sn c = (d, sm)" by (cases "observe sn c")
  have "fst (update sn c) = fst (no_video sm (time sn) d)" using assms by (simp add: update_def o)
  then show "cap (fst (update sn c)) = None" "startCap (fst (update sn c)) = startCap c"
    "\<not> started (fst (update sn c))" "camera (fst (update sn c)) = camera c"
    "maxLines c \<le> maxLines (fst (update sn c))"
    using observe_fields [OF o] by simp_all
qed

lemma cap_inv_update: "cap_inv c \<Longrightarrow> cap_inv (fst (update sn c))"
proof (cases "video sn")
  case True
  assume i: "cap_inv c"
  obtain d sm where o: "observe sn c = (d, sm)" by (cases "observe sn c")
  have "cap_inv (start_video (time sn) d)"
    using i observe_fields [OF o] by (auto simp: cap_inv_def start_video_def Let_def)
  then have "cap_inv (adjusted sn c)"
    unfolding adjusted_def o Let_def by (intro cap_inv_adjust) (simp add: cap_inv_def)
  then show ?thesis using update_video [OF True, of c] by (simp add: cap_inv_def)
next
  case False
  assume "cap_inv c"
  then show ?thesis using update_no_video [OF False, of c] by (simp add: cap_inv_def)
qed

interpretation receiver: machine "\<lambda>c sn. fst (update sn c)" cap_inv
  by unfold_locales (rule cap_inv_update)

lemma cap_inv_init: "cap_inv (Controller v l)"
  using sanitizeCap_range by (auto simp: cap_inv_def Controller_def simp del: sanitizeCap.simps)

abbreviation polls :: "controller \<Rightarrow> snap list \<Rightarrow> controller" where
  "polls c sns \<equiv> foldl (\<lambda>c sn. fst (update sn c)) c sns"

text \<open>C25: whatever is polled, a cap that stands is between the floor and the largest meaningful one.\<close>

theorem standing_cap_in_range:
  assumes "cap (polls (Controller v l) sns) = Some x"
  shows "MIN_CAP \<le> x \<and> x \<le> MAX_CAP"
  using receiver.run_inv [OF cap_inv_init, of v l sns] assms
  by (simp add: cap_inv_def in_range_def)

definition playing :: "rat \<Rightarrow> snap" where
  "playing t = (snap_init t)\<lparr>video := True, vEmitted := t, vDelay := t, vBytes := 100 * t\<rparr>"

theorem standing_cap_in_range_witness: "MIN_CAP \<le> (1000000 :: rat) \<and> (1000000 :: rat) \<le> MAX_CAP"
  by (rule standing_cap_in_range [of "number 1000000" "''camera''" "[playing 0]"])
    (simp add: Controller_def playing_def snap_init_def update_def observe_def see_picture_def mark_start_def pathDelay_def
      pathEvidence_def assess_def sample_init_def keep_evidence_def start_video_def tally_def
      adjust_def arriving_def is_warming_def bitrate_consts elapsed_def)

section \<open>A camera is not lifted\<close>

definition cam_inv :: "controller \<Rightarrow> bool" where
  "cam_inv c \<longleftrightarrow>
     camera c \<and> (\<exists>s. startCap c = Some s \<and> s \<le> 2500000) \<and>
     (if started c then \<exists>x t. cap c = Some x \<and> cam_ceiling c = Some t \<and> x \<le> t else cap c = None)"

lemma cam_ceiling_Some:
  "camera c \<Longrightarrow> \<exists>t. cam_ceiling c = Some t \<and> 2500000 \<le> t \<and> t \<le> 6000000"
  using ceiling_for_camera [of "maxLines c"] by (simp add: cam_ceiling_def)

lemma cam_ceiling_cong:
  "camera d = camera c \<Longrightarrow> maxLines d = maxLines c \<Longrightarrow> cam_ceiling d = cam_ceiling c"
  by (simp add: cam_ceiling_def)

lemma cam_inv_cong:
  "cam_inv c \<Longrightarrow> camera d = camera c \<Longrightarrow> maxLines d = maxLines c \<Longrightarrow> startCap d = startCap c \<Longrightarrow>
   started d = started c \<Longrightarrow> cap d = cap c \<Longrightarrow> cam_inv d"
  using cam_ceiling_cong [of d c] by (auto simp: cam_inv_def split: if_splits)

lemma cam_ceiling_mono:
  assumes "camera c" "camera d" "maxLines c \<le> maxLines d" "cam_ceiling c = Some t"
  shows "\<exists>u. cam_ceiling d = Some u \<and> t \<le> u"
  using assms ceiling_for_mono [OF assms(3)] ceiling_for_camera [of "maxLines d"]
  by (auto simp: cam_ceiling_def)

lemma cam_inv_adjust:
  assumes i: "cam_inv c" "started c"
  shows "cam_inv (adjust now c)"
proof -
  obtain x t where x: "cap c = Some x" and t: "cam_ceiling c = Some t" and le: "x \<le> t"
    using i by (auto simp: cam_inv_def)
  have top: "cam_ceiling (decrease now c) = Some t" "cam_ceiling (increase now x c) = Some t"
    using t cam_ceiling_cong [of "decrease now c" c] cam_ceiling_cong [of "increase now x c" c]
    by simp_all
  have d: "\<exists>y. cap (decrease now c) = Some y \<and> y \<le> t"
    using decrease_cap [of now c] x le by fastforce
  have u: "\<exists>y. cap (increase now x c) = Some y \<and> y \<le> t"
    using x t le by (auto simp: increase_def Let_def simp del: sanitizeCap.simps)
  show ?thesis
    using i x t le d u top by (auto simp: adjust_def cam_inv_def)
qed

lemma cam_inv_update: "cam_inv c \<Longrightarrow> cam_inv (fst (update sn c))"
proof (cases "video sn")
  case True
  assume i: "cam_inv c"
  obtain d sm where o: "observe sn c = (d, sm)" by (cases "observe sn c")
  note f = observe_fields [OF o]
  let ?d = "start_video (time sn) d"
  have "cam_inv ?d"
  proof (cases "started c")
    case True
    then have "?d = d" using f(3) by simp
    then show ?thesis using i True f cam_ceiling_mono [of c d] by (fastforce simp: cam_inv_def)
  next
    case False
    moreover have "camera d" using i f(4) by (simp add: cam_inv_def)
    ultimately show ?thesis
      using i f cam_ceiling_Some [of "?d"] by (auto simp: cam_inv_def start_video_def Let_def)
  qed
  then have "cam_inv (tally sm w ?d)" for w by (rule cam_inv_cong) simp_all
  then have "cam_inv (adjusted sn c)"
    unfolding adjusted_def o Let_def by (intro cam_inv_adjust) simp_all
  then show ?thesis using update_video [OF True, of c] by - (erule cam_inv_cong, simp_all)
next
  case False
  assume "cam_inv c"
  then show ?thesis using update_no_video [OF False, of c] by (simp add: cam_inv_def)
qed

interpretation camera_receiver: machine "\<lambda>c sn. fst (update sn c)" cam_inv
  by unfold_locales (rule cam_inv_update)

text \<open>The receiver of a camera that starts capped, at no more than the lowest ceiling, always
  answers a poll that shows video with a cap, and never one above the ceiling for the largest
  picture seen.\<close>

theorem camera_stays_below_ceiling:
  assumes "sanitizeCap v = Some s" and "s \<le> 2500000" and "video sn"
    and "c = polls (Controller v ''camera'') sns"
  shows "\<exists>x t. an_cap (snd (update sn c)) = Some x \<and>
    ceiling_for (maxLines (fst (update sn c))) CAMERA_CEILING = Some t \<and> x \<le> t"
proof -
  have "cam_inv (Controller v ''camera'')"
    using assms(1,2) by (simp add: cam_inv_def Controller_def del: sanitizeCap.simps)
  then have "cam_inv (polls (Controller v ''camera'') (sns @ [sn]))"
    by (rule camera_receiver.run_inv)
  then have "cam_inv (fst (update sn c))" using assms(4) by simp
  moreover have "started (fst (update sn c))"
    using update_video(4) [OF assms(3), of c] by (simp add: adjusted_def Let_def)
  ultimately show ?thesis
    using update_video(1,2) [OF assms(3), of c] by (auto simp: cam_inv_def cam_ceiling_def)
qed

theorem camera_stays_below_ceiling_witness:
  "\<exists>x t. an_cap (snd (update (playing 2000) (polls (Controller (number 1000000) ''camera'') [playing 0]))) = Some x \<and>
    ceiling_for (maxLines (fst (update (playing 2000)
      (polls (Controller (number 1000000) ''camera'') [playing 0])))) CAMERA_CEILING = Some t \<and> x \<le> t"
  by (rule camera_stays_below_ceiling [of "number 1000000" 1000000, OF _ _ _ refl])
    (simp_all add: bitrate_consts playing_def)

section \<open>Changes are spaced\<close>

fun change_times :: "controller \<Rightarrow> snap list \<Rightarrow> rat list" where
  "change_times c [] = []"
| "change_times c (sn # sns) =
     (let c' = fst (update sn c) in (if cap c' \<noteq> cap c then [time sn] else []) @ change_times c' sns)"

lemma adjust_change:
  "changedAt (adjust now c) = changedAt c \<and> cap (adjust now c) = cap c \<or>
   changedAt (adjust now c) = Some now \<and> elapsed (changedAt c) now MIN_DECREASE_GAP"
proof -
  have "changedAt (decrease now c) = changedAt c \<and> cap (decrease now c) = cap c \<or>
      changedAt (decrease now c) = Some now"
    by (auto simp: decrease_def Let_def simp del: sanitizeCap.simps split: option.split)
  moreover have u: "changedAt (increase now x c) = changedAt c \<and> cap (increase now x c) = cap c \<or>
      changedAt (increase now x c) = Some now" for x
    by (auto simp: increase_def Let_def simp del: sanitizeCap.simps split: option.split)
  moreover have "elapsed (changedAt c) now MIN_INCREASE_GAP \<Longrightarrow> elapsed (changedAt c) now MIN_DECREASE_GAP"
    by (auto simp: elapsed_def bitrate_consts split: option.splits)
  ultimately show ?thesis
    using u [of "the (cap c)"] unfolding adjust_def by (cases "cap c") simp_all
qed

lemma update_change:
  assumes "video sn" and "started c"
  shows "started (fst (update sn c))"
    and "changedAt (fst (update sn c)) = changedAt c \<and> cap (fst (update sn c)) = cap c \<or>
      changedAt (fst (update sn c)) = Some (time sn) \<and> elapsed (changedAt c) (time sn) MIN_DECREASE_GAP"
proof -
  obtain d sm where o: "observe sn c = (d, sm)" by (cases "observe sn c")
  note f = observe_fields [OF o]
  have "start_video (time sn) d = d" using assms(2) f(3) by simp
  then have a: "adjusted sn c = adjust (time sn) (tally sm (is_warming (time sn) d) d)"
    by (simp add: adjusted_def o Let_def)
  then show "started (fst (update sn c))" using update_video(4) [OF assms(1), of c] assms(2) f(3) by simp
  show "changedAt (fst (update sn c)) = changedAt c \<and> cap (fst (update sn c)) = cap c \<or>
      changedAt (fst (update sn c)) = Some (time sn) \<and> elapsed (changedAt c) (time sn) MIN_DECREASE_GAP"
    using adjust_change [of "time sn" "tally sm (is_warming (time sn) d) d"] f
      update_video(1,7) [OF assms(1), of c] by (simp add: a)
qed

lemma elapsed_trans:
  "elapsed c t MIN_DECREASE_GAP \<Longrightarrow> elapsed (Some t) u MIN_DECREASE_GAP \<Longrightarrow> elapsed c u MIN_DECREASE_GAP"
  by (auto simp: elapsed_def bitrate_consts split: option.splits)

lemma change_times_after:
  assumes "started c" and "\<forall>sn\<in>set sns. video sn" and "u \<in> set (change_times c sns)"
  shows "elapsed (changedAt c) u MIN_DECREASE_GAP"
  using assms
proof (induction c sns rule: change_times.induct)
  case (2 c sn sns)
  have v: "video sn" using "2.prems" by simp
  note ch = update_change [OF v "2.prems"(1)]
  show ?case
  proof (cases "u \<in> set (change_times (fst (update sn c)) sns)")
    case True
    have "elapsed (changedAt (fst (update sn c))) u MIN_DECREASE_GAP"
      using "2.IH" [OF refl ch(1)] "2.prems"(2) True by simp
    then show ?thesis using ch(2) elapsed_trans by metis
  next
    case False
    then show ?thesis using "2.prems"(3) ch(2) by (auto simp: Let_def split: if_splits)
  qed
qed simp

text \<open>While video keeps arriving the cap changes at most once every six seconds.\<close>

theorem cap_changes_spaced:
  assumes "started c" and "\<forall>sn\<in>set sns. video sn"
  shows "sorted_wrt (\<lambda>s t. s + 6000 \<le> t) (change_times c sns)"
  using assms
proof (induction c sns rule: change_times.induct)
  case (2 c sn sns)
  let ?c = "fst (update sn c)"
  have v: "video sn" "\<forall>x\<in>set sns. video x" using "2.prems" by simp_all
  note ch = update_change [OF v(1) "2.prems"(1)]
  have s: "sorted_wrt (\<lambda>s t. s + 6000 \<le> t) (change_times ?c sns)"
    by (rule "2.IH" [OF refl ch(1) v(2)])
  have "time sn + 6000 \<le> u" if "cap ?c \<noteq> cap c" "u \<in> set (change_times ?c sns)" for u
    using change_times_after [OF ch(1) v(2) that(2)] ch(2) that(1)
    by (auto simp: elapsed_def bitrate_consts)
  then show ?case using s by (simp add: Let_def)
qed simp

theorem cap_changes_spaced_witness:
  "sorted_wrt (\<lambda>s t. s + 6000 \<le> t)
     (change_times ((Controller Null ''screenshare'')\<lparr>started := True\<rparr>) [playing 0, playing 2000])"
  by (rule cap_changes_spaced) (simp_all add: playing_def)

section \<open>The path's own delay only excuses\<close>

text \<open>Judged against a path's delay an interval is never worse, and never less good, than judged
  against the fixed thresholds alone.\<close>

theorem path_only_excuses:
  "(verdict (Some p) r = Bad \<longrightarrow> verdict None r = Bad) \<and>
   (verdict None r = Good \<longrightarrow> verdict (Some p) r = Good)"
  by (auto simp: verdict_def Let_def congested_limits_def healthy_limits_def bitrate_consts
      split: if_splits)

theorem path_only_excuses_witness:
  "verdict None ((sample_init None)\<lparr>audioDelay := 1 / 10\<rparr>) = Good \<and>
   verdict (Some \<lparr>audioDelay = 1, videoDelay = 1\<rparr>) ((sample_init None)\<lparr>audioDelay := 1 / 10\<rparr>) = Good"
proof -
  have n: "verdict None ((sample_init None)\<lparr>audioDelay := 1 / 10\<rparr>) = Good"
    by (simp add: verdict_def Let_def congested_limits_def healthy_limits_def bitrate_consts sample_init_def)
  then show ?thesis
    using path_only_excuses [of "\<lparr>audioDelay = 1, videoDelay = 1\<rparr>"
        "(sample_init None)\<lparr>audioDelay := 1 / 10\<rparr>"] by blast
qed

section \<open>The registry of requests\<close>

definition request_of :: "caps \<Rightarrow> jstr \<Rightarrow> jstr \<Rightarrow> request option" where
  "request_of s stream u = Option.bind (map_get s stream) (\<lambda>m. map_get m u)"

definition fresh :: "rat \<Rightarrow> request \<Rightarrow> bool" where
  "fresh now e \<longleftrightarrow> \<not> now - rq_at e > TTL"

definition caps_ok :: "caps \<Rightarrow> bool" where
  "caps_ok s \<longleftrightarrow> well_keyed s \<and> (\<forall>(stream, m) \<in> set s. well_keyed m)"

lemma map_of_filter_value:
  assumes "distinct (map fst m)"
  shows "map_of (filter (\<lambda>(u, e). P e) m) u = (case map_of m u of None \<Rightarrow> None | Some e \<Rightarrow> if P e then Some e else None)"
  using assms
proof (induction m)
  case (Cons ue m)
  obtain v e where ue: "ue = (v, e)" by (cases ue)
  have "map_of m v = None" using Cons.prems ue by (simp add: map_of_eq_None_iff)
  then show ?case using Cons by (auto simp: ue split: option.split)
qed simp

lemma caps_ok_stream: "caps_ok s \<Longrightarrow> map_get s stream = Some m \<Longrightarrow> well_keyed m"
  by (auto simp: caps_ok_def dest: map_of_SomeD)

lemma well_keyed_filter: "well_keyed m \<Longrightarrow> well_keyed (filter P m)"
  unfolding well_keyed_def by (rule distinct_map_filter)

lemma request_of_get:
  assumes "caps_ok s"
  shows "request_of (fst (caps_get stream now s)) st u =
    (case request_of s st u of None \<Rightarrow> None
     | Some e \<Rightarrow> if st = stream \<and> \<not> fresh now e then None else Some e)"
proof (cases "map_get s stream")
  case None
  then show ?thesis by (auto simp: caps_get_def request_of_def split: option.split)
next
  case (Some m)
  let ?f = "filter (\<lambda>(u, e). \<not> now - rq_at e > TTL) m"
  have m: "map_of ?f u = (case map_of m u of None \<Rightarrow> None | Some e \<Rightarrow> if fresh now e then Some e else None)" for u
    using map_of_filter_value [of m "\<lambda>e. \<not> now - rq_at e > TTL" u] caps_ok_stream [OF assms Some]
    by (simp add: well_keyed_def fresh_def split: option.split)
  show ?thesis
  proof (cases "?f = []")
    case True
    then have "map_of ?f u = None" by simp
    then show ?thesis
      using True m [of u] Some
      by (cases "st = stream") (auto simp: caps_get_def request_of_def js_store.get_drop split: option.split if_splits)
  next
    case False
    then show ?thesis
      using m [of u] Some
      by (cases "st = stream") (auto simp: caps_get_def request_of_def Let_def js_store.get_put split: option.split)
  qed
qed

lemma set_update_subset: "set (AList.update k v m) \<subseteq> insert (k, v) (set m)"
  by (induction m) auto

lemma caps_ok_put: "caps_ok s \<Longrightarrow> well_keyed m \<Longrightarrow> caps_ok (map_set k m s)"
  using set_update_subset [of k m s] js_store.ok_put [of s k m] by (fastforce simp: caps_ok_def)

lemma caps_ok_drop: "caps_ok s \<Longrightarrow> caps_ok (map_delete k s)"
  using js_store.ok_drop [of s k] by (auto simp: caps_ok_def AList.delete_eq)

lemma caps_ok_get: "caps_ok s \<Longrightarrow> caps_ok (fst (caps_get stream now s))"
  using caps_ok_stream [of s stream]
  by (auto simp: caps_get_def Let_def intro!: caps_ok_put caps_ok_drop well_keyed_filter split: option.split)

lemma well_keyed_single [simp]: "well_keyed [(k, v)]"
  by (simp add: well_keyed_def)

lemma caps_ok_Nil [simp]: "caps_ok []"
  by (simp add: caps_ok_def)

lemma least_request_from:
  "foldl tightest (Some x) es = Some (Min (insert x (rq_cap ` set es)))"
proof (induction es arbitrary: x)
  case (Cons e es)
  have "tightest (Some x) e = Some (min (rq_cap e) x)" by (simp add: tightest_def min_def)
  moreover have "Min (insert (min (rq_cap e) x) S) = Min (insert x (insert (rq_cap e) S))" if "finite S" for S
    using that by (cases "S = {}") (simp_all add: ac_simps)
  ultimately show ?case by (simp add: Cons.IH)
qed simp

lemma least_request:
  "foldl tightest None es = (if es = [] then None else Some (Min (rq_cap ` set es)))"
  by (cases es) (simp_all add: least_request_from tightest_def)

text \<open>The cap a stream is held to is the least one asked for by a request that is still fresh, and
  there is none when no request is.\<close>

theorem caps_get_least:
  assumes "caps_ok s"
  shows "snd (caps_get stream now s) =
    (let R = {e. \<exists>u. request_of s stream u = Some e \<and> fresh now e}
     in if R = {} then None else Some (Min (rq_cap ` R)))"
proof (cases "map_get s stream")
  case None
  then show ?thesis by (simp add: caps_get_def request_of_def)
next
  case (Some m)
  let ?f = "filter (\<lambda>(u, e). \<not> now - rq_at e > TTL) m"
  have "distinct (map fst m)" using caps_ok_stream [OF assms Some] by (simp add: well_keyed_def)
  then have "{e. \<exists>u. request_of s stream u = Some e \<and> fresh now e} = set (map snd ?f)"
    using Some by (force simp: request_of_def fresh_def)
  moreover have "(map snd ?f = []) = (set (map snd ?f) = {})" by (metis set_empty)
  ultimately show ?thesis
    using Some least_request [of "map snd ?f"]
    by (simp add: caps_get_def Let_def del: set_map)
qed

theorem caps_get_least_witness:
  "snd (caps_get (js ''v'') 40000 [(js ''v'', [(js ''a'', \<lparr>rq_cap = 300000, rq_at = 0\<rparr>),
      (js ''b'', \<lparr>rq_cap = 500000, rq_at = 10000\<rparr>)])]) =
    (let R = {e. \<exists>u. request_of [(js ''v'', [(js ''a'', \<lparr>rq_cap = 300000, rq_at = 0\<rparr>),
        (js ''b'', \<lparr>rq_cap = 500000, rq_at = 10000\<rparr>)])] (js ''v'') u = Some e \<and> fresh 40000 e}
     in if R = {} then None else Some (Min (rq_cap ` R)))"
  by (rule caps_get_least) (simp add: caps_ok_def well_keyed_def js_def)

text \<open>A request replaces the one its sender had for the stream, a value that is no cap withdraws it,
  and of the others only those of the same stream that had run out are gone.\<close>

theorem caps_set_requests:
  assumes "caps_ok s"
  shows "request_of (fst (caps_set stream sender v now s)) st u =
    (if st = stream \<and> u = sender then map_option (\<lambda>c. \<lparr>rq_cap = c, rq_at = now\<rparr>) (sanitizeCap v)
     else case request_of s st u of None \<Rightarrow> None
       | Some e \<Rightarrow> if st = stream \<and> \<not> fresh now e then None else Some e)"
proof -
  let ?s = "fst (caps_get stream now s)" and ?m = "map_get (fst (caps_get stream now s)) stream"
  let ?t = "case sanitizeCap v of
      None \<Rightarrow> (case ?m of None \<Rightarrow> ?s
        | Some m \<Rightarrow> let m = map_delete sender m in if m = [] then map_delete stream ?s else map_set stream m ?s)
    | Some c \<Rightarrow> map_set stream (map_set sender \<lparr>rq_cap = c, rq_at = now\<rparr> (case ?m of None \<Rightarrow> [] | Some m \<Rightarrow> m)) ?s"
  have ok: "caps_ok ?s" by (rule caps_ok_get [OF assms])
  have wm: "well_keyed m" if "?m = Some m" for m using caps_ok_stream [OF ok that] .
  have t: "caps_ok ?t"
    using ok wm by (auto simp: Let_def intro!: caps_ok_put caps_ok_drop js_store.ok_put js_store.ok_drop
        split: option.split)
  have e: "fst (caps_set stream sender v now s) = fst (caps_get stream now ?t)"
    by (simp add: caps_set_def Let_def case_prod_beta)
  have none: "map_of m u = None" if "map_delete sender m = []" "u \<noteq> sender" for m :: "(jstr, request) jsmap" and u
    using that js_store.get_drop [of sender m u] by simp
  have r: "request_of ?t st u =
      (if st = stream \<and> u = sender then map_option (\<lambda>c. \<lparr>rq_cap = c, rq_at = now\<rparr>) (sanitizeCap v)
       else request_of ?s st u)" for st u
    using none
    by (auto simp: request_of_def Let_def js_store.get_put js_store.get_drop split: option.split)
  have "fresh now \<lparr>rq_cap = c, rq_at = now\<rparr>" for c by (simp add: fresh_def TTL_def)
  then show ?thesis
    unfolding e request_of_get [OF t] r request_of_get [OF assms]
    by (auto split: option.splits)
qed

theorem caps_set_requests_witness:
  "request_of (fst (caps_set (js ''v'') (js ''a'') (number 300000) 5 [])) (js ''v'') (js ''a'') =
    Some \<lparr>rq_cap = 300000, rq_at = 5\<rparr>"
  using caps_set_requests [OF caps_ok_Nil, of "js ''v''" "js ''a''" "number 300000" 5 "js ''v''" "js ''a''"]
  by (simp add: bitrate_consts)

lemma caps_forget_not_key: "map_get s st = None \<Longrightarrow> map_get (fst (caps_forget u s)) st = None"
  by (induction s) (auto simp: Let_def case_prod_beta split: if_splits)

text \<open>Forgetting a receiver removes its requests from every stream and no other.\<close>

theorem caps_forget_requests:
  assumes "well_keyed s"
  shows "request_of (fst (caps_forget sender s)) st u = (if u = sender then None else request_of s st u)"
  using assms
proof (induction s)
  case Nil
  then show ?case by (simp add: request_of_def)
next
  case (Cons x s)
  obtain k m where x: "x = (k, m)" by (cases x)
  have w: "well_keyed s" and k: "map_get s k = None"
    using Cons.prems by (auto simp: well_keyed_def x map_of_eq_None_iff)
  have none: "map_of m u = None" if "map_delete sender m = []" "u \<noteq> sender"
    using that js_store.get_drop [of sender m u] by simp
  show ?case
    using Cons.IH [OF w] k caps_forget_not_key [OF k, of sender] none
    by (auto simp: x request_of_def Let_def case_prod_beta js_store.get_drop)
qed

theorem caps_forget_requests_witness:
  "request_of (fst (caps_forget (js ''a'') [(js ''v'', [(js ''a'', \<lparr>rq_cap = 300000, rq_at = 0\<rparr>)])]))
     (js ''v'') (js ''a'') = None"
  using caps_forget_requests [of "[(js ''v'', [(js ''a'', \<lparr>rq_cap = 300000, rq_at = 0\<rparr>)])]"
      "js ''a''" "js ''v''" "js ''a''"] by simp

section \<open>What a picture report says\<close>

fun gather :: "picture \<Rightarrow> (sample \<times> rat) list \<Rightarrow> picture" where
  "gather p [] = p"
| "gather p ((s, now) # r) = gather (picture_gather s now p) r"

definition present :: "figure \<Rightarrow> sample list \<Rightarrow> rat list" where
  "present k ss = List.map_filter (\<lambda>s. figure_of s k) ss"

definition total :: "(rat \<times> nat) option \<Rightarrow> rat list \<Rightarrow> (rat \<times> nat) option" where
  "total d vs = (if vs = [] then d else Some (case d of None \<Rightarrow> (sum_list vs, length vs)
     | Some (t, n) \<Rightarrow> (t + sum_list vs, n + length vs)))"

lemma add_figures:
  "foldl (add_figure s) d PICTURE_DELAYS k =
    (case figure_of s k of None \<Rightarrow> d k
     | Some v \<Rightarrow> Some (case d k of None \<Rightarrow> (v, 1) | Some (t, n) \<Rightarrow> (t + v, n + 1)))"
  by (cases k) (simp_all add: PICTURE_DELAYS_def add_figure_def split: option.split)

lemma gather_fields:
  "pn (gather p ss) = pn p + length ss"
  "pfps (gather p ss) = pfps p + sum_list (map (fps \<circ> fst) ss)"
  "pbps (gather p ss) = pbps p + sum_list (map (videoBps \<circ> fst) ss)"
  "interval (gather p ss) = interval p"
  "since (gather p ss) = (case since p of Some t \<Rightarrow> Some t | None \<Rightarrow> if ss = [] then None else Some (snd (hd ss)))"
  by (induction p ss rule: gather.induct) (auto simp: picture_gather_def split: option.split)

lemma gather_figures:
  "pdelays (gather p ss) k = total (pdelays p k) (present k (map fst ss))"
proof (induction p ss rule: gather.induct)
  case (1 p)
  then show ?case by (simp add: total_def present_def map_filter_def)
next
  case (2 p s now r)
  have "pdelays (picture_gather s now p) k =
      (case figure_of s k of None \<Rightarrow> pdelays p k
       | Some v \<Rightarrow> Some (case pdelays p k of None \<Rightarrow> (v, 1) | Some (t, n) \<Rightarrow> (t + v, n + 1)))"
    by (simp add: picture_gather_def add_figures)
  then show ?case
    using 2 by (auto simp: total_def present_def map_filter_def split: option.splits)
qed

lemma gather_least: "ss \<noteq> [] \<Longrightarrow> minFps p = None \<Longrightarrow> minFps (gather p ss) = Some (Min (fps ` fst ` set ss))"
proof -
  have from_some: "minFps (gather p ss) = Some (Min (insert m (fps ` fst ` set ss)))"
    if "minFps p = Some m" for p ss m
    using that
  proof (induction p ss arbitrary: m rule: gather.induct)
    case (2 p s now r)
    have "Min (insert (min m x) S) = Min (insert m (insert x S))" if "finite S" for S and x :: rat
      using that by (cases "S = {}") (simp_all add: ac_simps)
    then show ?case using 2 by (simp add: picture_gather_def)
  qed simp
  assume "ss \<noteq> []" "minFps p = None"
  then show ?thesis
    by (cases ss) (auto simp: picture_gather_def from_some)
qed

text \<open>The report made after an interval gives the averages over exactly the polls gathered in it, the
  least frame rate among them, and of each playout figure the average over the polls that had it.\<close>

theorem picture_report_averages:
  assumes "picture_add s x now (gather (Picture i) ss) = (p, Some r)"
  shows "pr_fps r = sum_list (map fps (map fst ss @ [s])) / of_nat (length ss + 1) \<and>
    pr_rate r = sum_list (map videoBps (map fst ss @ [s])) / of_nat (length ss + 1) \<and>
    pr_minFps r = Some (Min (fps ` set (map fst ss @ [s]))) \<and>
    (\<forall>k v. (k, v) \<in> set (pr_delays r) \<longrightarrow>
      v = (let vs = present k (map fst ss @ [s])
           in if vs = [] then None else Some (sum_list vs / of_nat (length vs)))) \<and>
    p = Picture i"
proof -
  let ?g = "gather (Picture i) (ss @ [(s, now)])"
  have g: "gather q (ss @ [(s, now)]) = picture_gather s now (gather q ss)" for q
    by (induction q ss rule: gather.induct) simp_all
  have r: "r = \<lparr>pr_width = pwidth ?g, pr_height = pheight ?g, pr_fps = pfps ?g / of_nat (pn ?g),
      pr_minFps = minFps ?g, pr_rate = pbps ?g / of_nat (pn ?g), pr_cap = x,
      pr_delays = map (\<lambda>k. (k, map_option (\<lambda>(t, n). t / of_nat n) (pdelays ?g k))) PICTURE_DELAYS\<rparr>"
    and p: "p = picture_reset None ?g"
    using assms by (auto simp: picture_add_def Let_def g split: if_splits)
  have P: "pn (Picture i) = 0" "pfps (Picture i) = 0" "pbps (Picture i) = 0" "minFps (Picture i) = None"
    "pdelays (Picture i) k = None" "interval (Picture i) = i" for k
    by (simp_all add: Picture_def)
  have "pr_fps r = sum_list (map fps (map fst ss @ [s])) / of_nat (length ss + 1)"
    "pr_rate r = sum_list (map videoBps (map fst ss @ [s])) / of_nat (length ss + 1)"
    by (simp_all add: r gather_fields P)
  moreover have "pr_minFps r = Some (Min (fps ` set (map fst ss @ [s])))"
    by (simp add: r gather_least P image_image)
  moreover have "v = (let vs = present k (map fst ss @ [s])
      in if vs = [] then None else Some (sum_list vs / of_nat (length vs)))"
    if "(k, v) \<in> set (pr_delays r)" for k v
    using that by (auto simp: r gather_figures P total_def Let_def)
  moreover have "p = Picture i"
    by (simp add: p picture_reset_def Picture_def gather_fields)
  ultimately show ?thesis by blast
qed

definition shown :: "rat \<Rightarrow> sample" where
  "shown f = (sample_init None)\<lparr>judged := Good, fps := f, videoBps := 1000\<rparr>"

theorem picture_report_averages_witness:
  "\<exists>p r. picture_add (shown 30) None 2000 (gather (Picture 2000) [(shown 10, 0)]) = (p, Some r) \<and>
     pr_fps r = 20 \<and> p = Picture 2000"
proof -
  obtain p r where pr: "picture_add (shown 30) None 2000 (gather (Picture 2000) [(shown 10, 0)]) = (p, Some r)"
    by (simp add: picture_add_def shown_def Let_def picture_gather_def Picture_def elapsed_def)
  show ?thesis
    using pr picture_report_averages [OF pr] by (auto simp: shown_def)
qed

end
