(* ===== verification/Quality.thy ===== *)
theory Quality
  imports Prelude
begin

text \<open>
  static/connection-quality.js: the judgement of a call's quality from WebRTC statistics, and the
  tracker that moves the settled level only when the evidence persists. Numbers are rationals.
\<close>

section \<open>Levels\<close>

datatype level = QGood | QWeak | QBad | QLost

definition LEVELS :: "level list" where
  "LEVELS = [QGood, QWeak, QBad, QLost]"

fun index_from :: "nat \<Rightarrow> 'a list \<Rightarrow> 'a \<Rightarrow> int" where
  "index_from i [] y = -1"
| "index_from i (x # xs) y = (if x = y then int i else index_from (Suc i) xs y)"

definition rank :: "level \<Rightarrow> int" where
  "rank l = (let i = index_from 0 LEVELS l in if i < 0 then 0 else i)"

lemma rank_simps [simp]: "rank QGood = 0" "rank QWeak = 1" "rank QBad = 2" "rank QLost = 3"
  by (simp_all add: rank_def LEVELS_def)

lemma rank_inject: "rank l = rank m \<Longrightarrow> l = m"
  by (cases l; cases m) simp_all

instantiation level :: linorder
begin

definition less_eq_level :: "level \<Rightarrow> level \<Rightarrow> bool" where
  "less_eq_level l m \<longleftrightarrow> rank l \<le> rank m"

definition less_level :: "level \<Rightarrow> level \<Rightarrow> bool" where
  "less_level l m \<longleftrightarrow> rank l < rank m"

instance
  by standard (auto simp: less_eq_level_def less_level_def intro: rank_inject)

end

text \<open>An argument that is null or empty is skipped.\<close>

definition worst :: "level option list \<Rightarrow> level" where
  "worst levels =
     foldl (\<lambda>w l. case l of None \<Rightarrow> w | Some l \<Rightarrow> if rank l > rank w then l else w) QGood levels"

section \<open>Snapshots\<close>

record thresholds =
  th_loss :: rat
  th_rtt :: rat
  th_jitter :: rat

definition WEAK :: thresholds where
  "WEAK = \<lparr>th_loss = 3 / 100, th_rtt = 35 / 100, th_jitter = 5 / 100\<rparr>"

definition BAD :: thresholds where
  "BAD = \<lparr>th_loss = 10 / 100, th_rtt = 8 / 10, th_jitter = 15 / 100\<rparr>"

definition MIN_PACKETS :: rat where "MIN_PACKETS = 20"
definition WORSEN_AFTER :: nat where "WORSEN_AFTER = 2"
definition IMPROVE_AFTER :: nat where "IMPROVE_AFTER = 3"

record qstat =
  qs_type :: string
  packetsReceived :: "rat option"
  packetsLost :: "rat option"
  qs_jitter :: "rat option"
  fractionLost :: "rat option"
  roundTripTime :: "rat option"
  nominated :: bool
  qs_state :: string
  currentRoundTripTime :: "rat option"

record qsnap =
  q_time :: rat
  received :: rat
  lost :: rat
  jitter :: rat
  inbound :: bool
  remoteLoss :: rat
  remoteRtt :: rat
  outbound :: bool
  rtt :: rat

definition or0 :: "rat option \<Rightarrow> rat" where
  "or0 v = (case v of None \<Rightarrow> 0 | Some x \<Rightarrow> x)"

definition snap_stat :: "qsnap \<Rightarrow> qstat \<Rightarrow> qsnap" where
  "snap_stat s r =
     (if qs_type r = ''inbound-rtp'' then
        s\<lparr>inbound := True, received := received s + or0 (packetsReceived r),
          lost := lost s + max 0 (or0 (packetsLost r)), jitter := max (jitter s) (or0 (qs_jitter r))\<rparr>
      else if qs_type r = ''remote-inbound-rtp'' then
        s\<lparr>outbound := True, remoteLoss := max (remoteLoss s) (or0 (fractionLost r)),
          remoteRtt := max (remoteRtt s) (or0 (roundTripTime r))\<rparr>
      else if qs_type r = ''candidate-pair'' then
        (case currentRoundTripTime r of
           Some x \<Rightarrow> if nominated r \<and> qs_state r = ''succeeded'' then s\<lparr>rtt := max (rtt s) x\<rparr> else s
         | None \<Rightarrow> s)
      else s)"

definition snapshot :: "qstat list \<Rightarrow> rat \<Rightarrow> qsnap" where
  "snapshot report now =
     foldl snap_stat \<lparr>q_time = now, received = 0, lost = 0, jitter = 0, inbound = False,
       remoteLoss = 0, remoteRtt = 0, outbound = False, rtt = 0\<rparr> report"

section \<open>One interval\<close>

record figures =
  fg_level :: "level option"
  fg_loss :: rat
  fg_rtt :: rat
  fg_jitter :: rat

definition level_for :: "rat \<Rightarrow> rat \<Rightarrow> rat \<Rightarrow> level" where
  "level_for loss r j =
     (if loss \<ge> th_loss BAD \<or> r \<ge> th_rtt BAD \<or> j \<ge> th_jitter BAD then QBad
      else if loss \<ge> th_loss WEAK \<or> r \<ge> th_rtt WEAK \<or> j \<ge> th_jitter WEAK then QWeak
      else QGood)"

text \<open>The loss over the interval, where enough packets passed to speak of it.\<close>

definition received_loss :: "qsnap option \<Rightarrow> qsnap \<Rightarrow> rat option" where
  "received_loss prev cur =
     (case prev of
        None \<Rightarrow> None
      | Some p \<Rightarrow>
          let r = received cur - received p; l = lost cur - lost p
          in if inbound cur \<and> r \<ge> 0 \<and> l \<ge> 0 \<and> r + l \<ge> MIN_PACKETS then Some (l / (r + l)) else None)"

definition assess :: "qsnap option \<Rightarrow> qsnap \<Rightarrow> figures" where
  "assess prev cur =
     (let r = max (rtt cur) (remoteRtt cur);
          inl = received_loss prev cur;
          loss = (case inl of None \<Rightarrow> 0 | Some l \<Rightarrow> l);
          judged = (inl \<noteq> None);
          (loss, judged) = (if outbound cur then (max loss (remoteLoss cur), True) else (loss, judged));
          judged = (judged \<or> r > 0);
          j = (if inbound cur then jitter cur else 0)
      in \<lparr>fg_level = (if judged then Some (level_for loss r j) else None),
          fg_loss = loss, fg_rtt = r, fg_jitter = j\<rparr>)"

section \<open>The tracker\<close>

record tracker =
  tk_level :: level
  tk_prev :: "qsnap option"
  tk_pending :: "level option"
  tk_count :: nat
  tk_last :: "figures option"

definition Tracker :: tracker where
  "Tracker = \<lparr>tk_level = QGood, tk_prev = None, tk_pending = None, tk_count = 0, tk_last = None\<rparr>"

record change =
  ch_level :: level
  ch_previous :: level
  ch_changed :: bool

definition answer :: "level \<Rightarrow> tracker \<Rightarrow> change" where
  "answer previous t = \<lparr>ch_level = tk_level t, ch_previous = previous, ch_changed = (previous \<noteq> tk_level t)\<rparr>"

text \<open>What a poll says by itself, and the statistics kept from it.\<close>

definition judge :: "ice \<Rightarrow> qsnap option \<Rightarrow> tracker \<Rightarrow> tracker \<times> level option" where
  "judge i sn t =
     (if i = IceDisconnected
      then (t\<lparr>tk_prev := None, tk_last := None\<rparr>, if tk_level t = QLost then None else Some QLost)
      else case sn of
             Some s \<Rightarrow>
               let f = assess (tk_prev t) s
               in (t\<lparr>tk_last := Some f, tk_prev := Some s\<rparr>, fg_level f)
           | None \<Rightarrow> (t, None))"

definition settle :: "level \<Rightarrow> tracker \<Rightarrow> tracker" where
  "settle raw t =
     (let t = (if Some raw \<noteq> tk_pending t then t\<lparr>tk_pending := Some raw, tk_count := 0\<rparr> else t);
          t = t\<lparr>tk_count := tk_count t + 1\<rparr>;
          needed = (if rank raw > rank (tk_level t) then WORSEN_AFTER else IMPROVE_AFTER)
      in if tk_count t \<ge> needed then t\<lparr>tk_level := raw, tk_pending := None, tk_count := 0\<rparr> else t)"

definition update :: "ice \<Rightarrow> qsnap option \<Rightarrow> tracker \<Rightarrow> tracker \<times> change" where
  "update i sn t =
     (let previous = tk_level t in
      if i = IceFailed
      then let t = t\<lparr>tk_level := QLost, tk_prev := None, tk_last := None, tk_pending := None, tk_count := 0\<rparr>
           in (t, answer previous t)
      else
        let (t, raw) = judge i sn t in
        if tk_level t = QLost
        then let t = (if i = IceConnected \<or> i = IceCompleted
                      then t\<lparr>tk_level := (case raw of Some l \<Rightarrow> if l \<noteq> QGood then l else QGood | None \<Rightarrow> QGood),
                             tk_pending := None, tk_count := 0\<rparr>
                      else t)
             in (t, answer previous t)
        else case raw of
               None \<Rightarrow> let t = t\<lparr>tk_pending := None, tk_count := 0\<rparr> in (t, answer previous t)
             | Some l \<Rightarrow>
                 if l = tk_level t then let t = t\<lparr>tk_pending := None, tk_count := 0\<rparr> in (t, answer previous t)
                 else let t = settle l t in (t, answer previous t))"

abbreviation feed :: "tracker \<Rightarrow> ice \<times> qsnap option \<Rightarrow> tracker" where
  "feed t p \<equiv> fst (update (fst p) (snd p) t)"

section \<open>Properties\<close>

text \<open>The worst of some levels is their maximum in the order good, weak, bad, lost.\<close>

theorem worst_is_max:
  "worst ls = Max (insert QGood {l. Some l \<in> set ls})"
proof -
  have "foldl (\<lambda>w l. case l of None \<Rightarrow> w | Some l \<Rightarrow> if rank l > rank w then l else w) a ls =
      Max (insert a {l. Some l \<in> set ls})" for a
  proof (induction ls arbitrary: a)
    case (Cons x ls)
    show ?case
    proof (cases x)
      case None
      then show ?thesis using Cons.IH [of a] by simp
    next
      case (Some l)
      let ?S = "{l. Some l \<in> set ls}"
      have f: "finite ?S" by (rule finite_subset [of _ "the ` set ls"]) (auto intro: image_eqI [of _ _ "Some _"])
      have "(if rank l > rank a then l else a) = max a l"
        by (auto simp: max_def less_eq_level_def dest: rank_inject)
      moreover have "{m. Some m \<in> set (x # ls)} = insert l ?S" using Some by auto
      moreover have "Max (insert (max a l) ?S) = Max (insert a (insert l ?S))"
        using f by (cases "?S = {}") (simp_all add: ac_simps)
      ultimately show ?thesis using Some Cons.IH [of "max a l"] by simp
    qed
  qed simp
  then show ?thesis by (simp add: worst_def)
qed

text \<open>A level waiting to be settled is not the settled one, and has been seen too few times.\<close>

definition tracker_inv :: "tracker \<Rightarrow> bool" where
  "tracker_inv t \<longleftrightarrow>
     (case tk_pending t of
        None \<Rightarrow> tk_count t = 0
      | Some l \<Rightarrow> l \<noteq> tk_level t \<and> tk_level t \<noteq> QLost \<and> 0 < tk_count t \<and>
          tk_count t < (if rank l > rank (tk_level t) then WORSEN_AFTER else IMPROVE_AFTER))"

lemma judge_fields:
  "judge i sn t = (u, raw) \<Longrightarrow>
   tk_level u = tk_level t \<and> tk_pending u = tk_pending t \<and> tk_count u = tk_count t"
  by (auto simp: judge_def Let_def split: if_splits option.splits)

lemma tracker_inv_settle:
  "tracker_inv t \<Longrightarrow> l \<noteq> tk_level t \<Longrightarrow> tk_level t \<noteq> QLost \<Longrightarrow> tracker_inv (settle l t)"
  by (auto simp: tracker_inv_def settle_def Let_def WORSEN_AFTER_def IMPROVE_AFTER_def split: option.splits)

lemma tracker_inv_update: "tracker_inv t \<Longrightarrow> tracker_inv (fst (update i sn t))"
proof -
  assume t: "tracker_inv t"
  obtain u raw where j: "judge i sn t = (u, raw)" by (cases "judge i sn t")
  have u: "tracker_inv u"
    using t judge_fields [OF j] by (auto simp: tracker_inv_def split: option.splits if_splits)
  then show ?thesis
    by (auto simp: update_def j Let_def tracker_inv_settle split: option.split)
      (simp_all add: tracker_inv_def)
qed

interpretation quality: machine "\<lambda>t p. fst (update (fst p) (snd p) t)" tracker_inv
  by unfold_locales (rule tracker_inv_update)

lemma tracker_inv_init: "tracker_inv Tracker"
  by (simp add: tracker_inv_def Tracker_def)

text \<open>A change that is not announced at once needs the same level from the poll before.\<close>

lemma change_needs_pending:
  assumes "tracker_inv t" and "tk_level (fst (update i sn t)) \<noteq> tk_level t"
  shows "i = IceFailed \<or> tk_level t = QLost \<and> (i = IceConnected \<or> i = IceCompleted) \<or>
    tk_pending t = Some (tk_level (fst (update i sn t)))"
proof -
  obtain u raw where j: "judge i sn t = (u, raw)" by (cases "judge i sn t")
  note f = judge_fields [OF j]
  show ?thesis
    using assms f
    by (auto simp: update_def j Let_def settle_def tracker_inv_def WORSEN_AFTER_def IMPROVE_AFTER_def
        split: option.splits if_splits)
qed

lemma pending_from_poll:
  assumes "tk_pending (fst (update i sn t)) = Some l" and "tracker_inv t"
  shows "snd (judge i sn t) = Some l \<and> i \<noteq> IceFailed"
proof -
  obtain u raw where j: "judge i sn t = (u, raw)" by (cases "judge i sn t")
  show ?thesis
    using assms judge_fields [OF j]
    by (auto simp: update_def j Let_def settle_def tracker_inv_def split: option.splits if_splits)
qed

text \<open>One poll alone does not change the level: unless ICE failed, or media is back after it was
  lost, the level that is announced is one the poll before had already judged.\<close>

theorem level_needs_two_polls:
  assumes "t = foldl feed Tracker ps" and "u = feed t (i, sn)"
    and "tk_level (fst (update j sm u)) \<noteq> tk_level u" and "j \<noteq> IceFailed" and "tk_level u \<noteq> QLost"
  shows "snd (judge i sn t) = Some (tk_level (fst (update j sm u)))"
proof -
  have t: "tracker_inv t" unfolding assms(1) by (rule quality.run_inv) (rule tracker_inv_init)
  then have "tracker_inv u" unfolding assms(2) by (simp add: tracker_inv_update)
  then have "tk_pending u = Some (tk_level (fst (update j sm u)))"
    using change_needs_pending [OF _ assms(3)] assms(4,5) by blast
  then show ?thesis using pending_from_poll [OF _ t] assms(2) by simp
qed

theorem level_needs_two_polls_witness:
  "snd (judge IceDisconnected None Tracker) =
    Some (tk_level (fst (update IceDisconnected None (feed Tracker (IceDisconnected, None)))))"
  by (rule level_needs_two_polls [of _ "[]", OF _ refl])
    (simp_all add: Tracker_def update_def judge_def settle_def Let_def WORSEN_AFTER_def IMPROVE_AFTER_def)

lemma judged_never_lost:
  assumes "i \<noteq> IceDisconnected"
  shows "snd (judge i sn t) \<noteq> Some QLost"
proof -
  have "level_for a b c \<noteq> QLost" for a b c by (simp add: level_for_def)
  then have "fg_level (assess p s) \<noteq> Some QLost" for p s
    by (simp add: assess_def Let_def case_prod_beta)
  then show ?thesis
    using assms by (simp add: judge_def Let_def split: option.split)
qed

lemma update_lost:
  assumes "tk_level t = QLost" and "i \<noteq> IceFailed" and "judge i sn t = (v, raw)"
  shows "tk_level (fst (update i sn t)) =
    (if i = IceConnected \<or> i = IceCompleted then (case raw of Some l \<Rightarrow> l | None \<Rightarrow> QGood) else QLost)"
proof -
  have v: "tk_level v = QLost" using assms(1) judge_fields [OF assms(3)] by simp
  have g: "(if l \<noteq> QGood then l else QGood) = l" for l by simp
  show ?thesis
  proof (cases "i = IceConnected \<or> i = IceCompleted")
    case True
    then show ?thesis by (simp only: update_def Let_def assms(2,3) v g prod.case if_True if_False fst_conv) simp
  next
    case False
    then show ?thesis by (simp only: update_def Let_def assms(2,3) v g prod.case if_True if_False fst_conv) (simp add: v)
  qed
qed

text \<open>A lost connection is announced as back exactly by a poll that finds ICE connected, and a failed
  one is announced as lost at once.\<close>

theorem lost_is_from_ice:
  assumes "tk_level t = QLost"
  shows "(tk_level (fst (update i sn t)) \<noteq> QLost \<longleftrightarrow> i = IceConnected \<or> i = IceCompleted) \<and>
    tk_level (fst (update IceFailed sn u)) = QLost"
proof -
  obtain v raw where j: "judge i sn t = (v, raw)" by (cases "judge i sn t")
  have failed: "tk_level (fst (update IceFailed s w)) = QLost" for s w by (simp add: update_def Let_def)
  show ?thesis
  proof (cases "i = IceFailed")
    case True
    then show ?thesis by (simp add: failed)
  next
    case False
    then show ?thesis
      using judged_never_lost [of i sn t] j
      by (cases raw) (auto simp: failed update_lost [OF assms False j])
  qed
qed

theorem lost_is_from_ice_witness:
  "tk_level (fst (update IceCompleted None (feed Tracker (IceFailed, None)))) \<noteq> QLost"
proof -
  have "tk_level (feed Tracker (IceFailed, None)) = QLost" by (simp add: update_def Let_def)
  from lost_is_from_ice [OF this, of IceCompleted None Tracker] show ?thesis by simp
qed

end
