(* ===== verification/TurnFallback.thy ===== *)
theory TurnFallback
  imports Prelude
begin

text \<open>
  static/turn-fallback.js: which configurations reach a relay over UDP, the copy of a configuration
  without UDP, the watcher that says when UDP should be given up, and the memory of that decision.
  What \<open>localStorage\<close> holds under the key is its text as \<open>JSON.parse\<close> sees it.
\<close>

definition DISCONNECTED_FOR :: rat where "DISCONNECTED_FOR = 6000"
definition LOSS :: rat where "LOSS = 15 / 100"
definition LOSS_POLLS :: nat where "LOSS_POLLS = 5"
definition REMEMBER :: rat where "REMEMBER = 6 * 3600 * 1000"
definition NETWORKS :: nat where "NETWORKS = 16"

section \<open>Configurations\<close>

text \<open>The URLs of a server: absent, one, or an array.\<close>

datatype urls = OneUrl jsval | ManyUrls "jsval list"

record 'c server =
  server_urls :: urls
  credentials :: 'c

record ('c, 'd) conf =
  iceServers :: "'c server option list option"
  iceTransportPolicy :: "jstr option"
  other_fields :: "(jstr \<times> 'd) list"

text \<open>The first match of \<open>/[?&]transport=([a-z]+)/i\<close>, and its group.\<close>

fun transport_param :: "jstr \<Rightarrow> jstr option" where
  "transport_param [] = None"
| "transport_param (c # cs) =
     (if [c] \<in> {js ''?'', js ''&''} \<and> starts (js ''transport='') (lower cs) \<and>
         takeWhile letter (drop 10 cs) \<noteq> []
      then Some (takeWhile letter (drop 10 cs))
      else transport_param cs)"

fun isUdpRelay :: "jsval \<Rightarrow> bool" where
  "isUdpRelay (JStr url) =
     (if starts (js ''turn:'') (lower url)
      then (case transport_param url of None \<Rightarrow> True | Some m \<Rightarrow> lower m = js ''udp'')
      else False)"
| "isUdpRelay _ = False"

definition urlsOf :: "'c server option \<Rightarrow> jsval list" where
  "urlsOf server =
     (case server of
        None \<Rightarrow> []
      | Some s \<Rightarrow> (case server_urls s of
                   OneUrl u \<Rightarrow> if truthy u then [u] else []
                 | ManyUrls us \<Rightarrow> us))"

definition servers_of :: "('c, 'd) conf option \<Rightarrow> 'c server option list" where
  "servers_of conf =
     (case conf of None \<Rightarrow> [] | Some c \<Rightarrow> (case iceServers c of None \<Rightarrow> [] | Some ss \<Rightarrow> ss))"

definition hasUdpRelay :: "('c, 'd) conf option \<Rightarrow> bool" where
  "hasUdpRelay conf \<longleftrightarrow> list_ex (\<lambda>s. list_ex isUdpRelay (urlsOf s)) (servers_of conf)"

definition offersUdp :: "('c, 'd) conf option \<Rightarrow> bool" where
  "offersUdp conf \<longleftrightarrow> hasUdpRelay conf \<or>
     (case conf of None \<Rightarrow> False | Some c \<Rightarrow> iceTransportPolicy c \<noteq> Some (js ''relay''))"

definition without_udp_server :: "'c server option \<Rightarrow> 'c server option" where
  "without_udp_server s =
     (let urls = filter (\<lambda>u. \<not> isUdpRelay u) (urlsOf s) in
      if urls = [] then None else map_option (\<lambda>s. s\<lparr>server_urls := ManyUrls urls\<rparr>) s)"

definition withoutUdp :: "('c, 'd) conf option \<Rightarrow> ('c, 'd) conf" where
  "withoutUdp conf =
     \<lparr>iceServers = Some (filter (\<lambda>s. s \<noteq> None) (map without_udp_server (servers_of conf))),
      iceTransportPolicy = Some (js ''relay''),
      other_fields = (case conf of None \<Rightarrow> [] | Some c \<Rightarrow> other_fields c)\<rparr>"

text \<open>\<open>/^turns?:/i\<close> on a URL.\<close>

fun is_turn_url :: "jsval \<Rightarrow> bool" where
  "is_turn_url (JStr u) = (starts (js ''turn:'') (lower u) \<or> starts (js ''turns:'') (lower u))"
| "is_turn_url _ = False"

definition canDropUdp :: "('c, 'd) conf option \<Rightarrow> bool" where
  "canDropUdp conf \<longleftrightarrow>
     list_ex (\<lambda>s. list_ex is_turn_url (urlsOf s)) (servers_of (Some (withoutUdp conf)))"

section \<open>The path in use\<close>

record stat_entry =
  st_id :: jstr
  st_type :: string
  selectedCandidatePairId :: "jstr option"
  pair_selected :: bool
  localCandidateId :: "jstr option"
  candidateType :: "jstr option"
  relayProtocol :: "jstr option"
  protocol :: "jstr option"

record path =
  path_type :: jstr
  path_relay :: "jstr option"

definition nonempty :: "jstr option \<Rightarrow> jstr option" where
  "nonempty s = (if s = Some [] then None else s)"

definition or_else :: "'a option \<Rightarrow> 'a option \<Rightarrow> 'a option" where
  "or_else a b = (case a of Some x \<Rightarrow> Some x | None \<Rightarrow> b)"

definition select_step ::
  "(jstr, stat_entry) jsmap \<times> jstr option \<times> jstr option \<Rightarrow> stat_entry \<Rightarrow>
   (jstr, stat_entry) jsmap \<times> jstr option \<times> jstr option" where
  "select_step acc r =
     (case acc of (byId, selectedId, fallbackId) \<Rightarrow>
        (map_set (st_id r) r byId,
         (if st_type r = ''transport'' \<and> nonempty (selectedCandidatePairId r) \<noteq> None
          then selectedCandidatePairId r else selectedId),
         (if st_type r = ''transport'' \<and> nonempty (selectedCandidatePairId r) \<noteq> None then fallbackId
          else if st_type r = ''candidate-pair'' \<and> pair_selected r then Some (st_id r) else fallbackId)))"

definition path_of :: "stat_entry \<Rightarrow> path option" where
  "path_of l =
     (case nonempty (candidateType l) of
        None \<Rightarrow> None
      | Some ct \<Rightarrow>
          (case nonempty (relayProtocol l) of
             Some rp \<Rightarrow> Some \<lparr>path_type = js ''relay'', path_relay = Some (lower rp)\<rparr>
           | None \<Rightarrow>
               Some \<lparr>path_type = ct,
                 path_relay = (if ct = js ''relay'' then None
                               else map_option lower (nonempty (protocol l)))\<rparr>))"

definition selectedPath :: "stat_entry list \<Rightarrow> path option" where
  "selectedPath stats =
     (case foldl select_step ([], None, None) stats of
        (byId, selectedId, fallbackId) \<Rightarrow>
          Option.bind (or_else (nonempty selectedId) fallbackId) (\<lambda>i.
          Option.bind (map_get byId i) (\<lambda>pair.
          Option.bind (localCandidateId pair) (\<lambda>j.
          Option.bind (map_get byId j) path_of))))"

section \<open>The watcher\<close>

record entry =
  en_path :: "path option"
  disconnectedSince :: "rat option"
  lossPolls :: nat

record poll =
  p_ice :: ice
  p_path :: "path option"
  p_loss :: "rat option"

datatype reason = RFailed | RDisconnected | RLoss

definition entry_init :: entry where
  "entry_init = \<lparr>en_path = None, disconnectedSince = None, lossPolls = 0\<rparr>"

definition up :: "ice \<Rightarrow> bool" where
  "up i \<longleftrightarrow> i = IceConnected \<or> i = IceCompleted"

text \<open>What one poll does to the entry of its stream.\<close>

definition note_poll :: "poll \<Rightarrow> rat \<Rightarrow> entry \<Rightarrow> entry" where
  "note_poll o' now s =
     (let s = (if p_path o' \<noteq> None \<and> up (p_ice o') then s\<lparr>en_path := p_path o'\<rparr> else s);
          s = (if p_ice o' = IceDisconnected
               then (if disconnectedSince s = None then s\<lparr>disconnectedSince := Some now\<rparr> else s)
               else s\<lparr>disconnectedSince := None\<rparr>);
          bad = (case p_loss o' of None \<Rightarrow> False | Some l \<Rightarrow> l \<ge> LOSS \<and> up (p_ice o'))
      in if bad then s\<lparr>lossPolls := lossPolls s + 1\<rparr> else s\<lparr>lossPolls := 0\<rparr>)"

definition on_udp :: "entry \<Rightarrow> bool" where
  "on_udp s \<longleftrightarrow> (case en_path s of None \<Rightarrow> False | Some p \<Rightarrow> path_relay p = Some (js ''udp''))"

definition reason_for :: "poll \<Rightarrow> rat \<Rightarrow> entry \<Rightarrow> reason option" where
  "reason_for o' now s =
     (if \<not> on_udp s then None
      else if p_ice o' = IceFailed then Some RFailed
      else if (case disconnectedSince s of None \<Rightarrow> False | Some d \<Rightarrow> now - d \<ge> DISCONNECTED_FOR)
      then Some RDisconnected
      else if lossPolls s \<ge> LOSS_POLLS then Some RLoss
      else None)"

type_synonym watcher = "(jstr, entry) jsmap"

definition entry_of :: "watcher \<Rightarrow> jstr \<Rightarrow> entry" where
  "entry_of w i = (case map_get w i of None \<Rightarrow> entry_init | Some s \<Rightarrow> s)"

definition watcher_update :: "watcher \<Rightarrow> jstr \<Rightarrow> poll \<times> rat \<Rightarrow> watcher \<times> reason option" where
  "watcher_update w i o' =
     (let s = note_poll (fst o') (snd o') (entry_of w i)
      in (map_set i s w, reason_for (fst o') (snd o') s))"

definition watcher_forget :: "jstr \<Rightarrow> watcher \<Rightarrow> watcher" where
  "watcher_forget i w = map_delete i w"

definition watch_one :: "entry \<Rightarrow> poll \<times> rat \<Rightarrow> entry \<times> reason option" where
  "watch_one s o' = (let s = note_poll (fst o') (snd o') s in (s, reason_for (fst o') (snd o') s))"

section \<open>The memory of the decision\<close>

datatype item = Absent | Malformed | JsonObject "(jstr, jsval) jsmap" | JsonOther

record storage =
  readable :: bool
  writable :: bool
  item :: item

fun fresh_time :: "rat \<Rightarrow> jsval \<Rightarrow> rat option" where
  "fresh_time now (JNum (Fin t)) = (if now - t \<ge> 0 \<and> now - t < REMEMBER then Some t else None)"
| "fresh_time now _ = None"

text \<open>None when \<open>getItem\<close> or \<open>JSON.parse\<close> throws; the outer option is the storage that may be missing.\<close>

definition load :: "storage option \<Rightarrow> rat \<Rightarrow> (jstr, rat) jsmap option" where
  "load st now =
     (case st of
        None \<Rightarrow> None
      | Some s \<Rightarrow>
          if \<not> readable s then None
          else case item s of
                 Absent \<Rightarrow> Some []
               | Malformed \<Rightarrow> None
               | JsonOther \<Rightarrow> Some []
               | JsonObject v \<Rightarrow>
                   Some (concat (map (\<lambda>(k, t). case fresh_time now t of None \<Rightarrow> [] | Some x \<Rightarrow> [(k, x)]) v)))"

definition remembered :: "storage option \<Rightarrow> rat \<Rightarrow> jstr option \<Rightarrow> bool" where
  "remembered st now network =
     (case load st now of
        None \<Rightarrow> False
      | Some v \<Rightarrow> map_get v (case network of None \<Rightarrow> [] | Some n \<Rightarrow> n) \<noteq> None)"

definition newest :: "(jstr, rat) jsmap \<Rightarrow> (jstr, rat) jsmap" where
  "newest v = take NETWORKS (sort_key (\<lambda>kt. - snd kt) v)"

definition remember :: "storage option \<Rightarrow> rat \<Rightarrow> jstr option \<Rightarrow> storage option" where
  "remember st now network =
     (let v = (case load st now of None \<Rightarrow> [] | Some v \<Rightarrow> v);
          v = map_set (case network of None \<Rightarrow> [] | Some n \<Rightarrow> n) now v
      in case st of
           None \<Rightarrow> None
         | Some s \<Rightarrow>
             if writable s then Some (s\<lparr>item := JsonObject (map (\<lambda>(k, t). (k, JNum (Fin t))) (newest v))\<rparr>)
             else Some s)"

section \<open>Without UDP\<close>

lemma urlsOf_without_udp:
  "without_udp_server s = Some t \<Longrightarrow>
   urlsOf (Some t) = filter (\<lambda>u. \<not> isUdpRelay u) (urlsOf s) \<and> urlsOf (Some t) \<noteq> []"
  by (auto simp: without_udp_server_def Let_def urlsOf_def split: if_splits)

lemma servers_withoutUdp:
  "servers_of (Some (withoutUdp conf)) = filter (\<lambda>s. s \<noteq> None) (map without_udp_server (servers_of conf))"
  by (simp add: servers_of_def withoutUdp_def)

lemma server_withoutUdpE:
  assumes "s \<in> set (servers_of (Some (withoutUdp conf)))"
  obtains r t where "r \<in> set (servers_of conf)" and "s = Some t" and "without_udp_server r = Some t"
  using assms unfolding servers_withoutUdp by auto

lemma without_udp_server_again: "without_udp_server s = Some t \<Longrightarrow> without_udp_server (Some t) = Some t"
  using urlsOf_without_udp [of s t]
  by (auto simp: without_udp_server_def Let_def split: if_splits)

lemma withoutUdp_no_relay: "\<not> hasUdpRelay (Some (withoutUdp conf))"
  unfolding hasUdpRelay_def list_ex_iff
  by (auto elim!: server_withoutUdpE dest!: urlsOf_without_udp)

lemma urls_withoutUdp:
  "(\<exists>s \<in> set (servers_of (Some (withoutUdp conf))). u \<in> set (urlsOf s)) \<longleftrightarrow>
   (\<exists>s \<in> set (servers_of conf). u \<in> set (urlsOf s)) \<and> \<not> isUdpRelay u" (is "?l \<longleftrightarrow> ?r")
proof
  assume ?l
  then obtain s where s: "s \<in> set (servers_of (Some (withoutUdp conf)))" "u \<in> set (urlsOf s)" by blast
  from s(1) show ?r
  proof (rule server_withoutUdpE)
    fix r t assume "r \<in> set (servers_of conf)" and "s = Some t" and "without_udp_server r = Some t"
    then show ?r using urlsOf_without_udp [of r t] s(2) by auto
  qed
next
  assume ?r
  then obtain s where s: "s \<in> set (servers_of conf)" "u \<in> set (urlsOf s)" "\<not> isUdpRelay u" by blast
  then have "without_udp_server s \<noteq> None"
    by (auto simp: without_udp_server_def Let_def urlsOf_def filter_empty_conv split: option.splits)
  then obtain t where t: "without_udp_server s = Some t" by blast
  have "u \<in> set (urlsOf (Some t))" using urlsOf_without_udp [OF t] s by simp
  moreover have "Some t \<in> set (servers_of (Some (withoutUdp conf)))"
    using s(1) t unfolding servers_withoutUdp by force
  ultimately show ?l by blast
qed

lemma withoutUdp_again: "withoutUdp (Some (withoutUdp conf)) = withoutUdp conf"
proof -
  have same: "filter (\<lambda>s. s \<noteq> None) (map without_udp_server (filter (\<lambda>s. s \<noteq> None) (map without_udp_server ss))) =
      filter (\<lambda>s. s \<noteq> None) (map without_udp_server ss)" for ss :: "'a server option list"
  proof (induction ss)
    case (Cons a ss)
    then show ?case by (cases "without_udp_server a") (simp_all add: without_udp_server_again)
  qed simp
  show ?thesis
    unfolding withoutUdp_def [of "Some _"] servers_withoutUdp same by (simp add: withoutUdp_def)
qed

text \<open>The copy of a configuration without UDP offers no path over UDP, still names every URL the
  configuration had that is not a relay over UDP and no other, and copying it again changes nothing.\<close>

theorem without_udp_clean:
  "\<not> offersUdp (Some (withoutUdp conf)) \<and>
   withoutUdp (Some (withoutUdp conf)) = withoutUdp conf \<and>
   (\<Union>s \<in> set (servers_of (Some (withoutUdp conf))). set (urlsOf s)) =
     (\<Union>s \<in> set (servers_of conf). set (urlsOf s)) - Collect isUdpRelay"
proof (intro conjI)
  show "\<not> offersUdp (Some (withoutUdp conf))"
    using withoutUdp_no_relay [of conf] by (simp add: offersUdp_def) (simp add: withoutUdp_def)
  show "withoutUdp (Some (withoutUdp conf)) = withoutUdp conf" by (rule withoutUdp_again)
  show "(\<Union>s \<in> set (servers_of (Some (withoutUdp conf))). set (urlsOf s)) =
     (\<Union>s \<in> set (servers_of conf). set (urlsOf s)) - Collect isUdpRelay"
    using urls_withoutUdp [of conf] by (simp add: set_eq_iff)
qed

text \<open>Giving UDP up leaves something to connect through exactly when there is a relay over TCP or TLS.\<close>

lemma canDropUdp_iff:
  "canDropUdp conf \<longleftrightarrow> (\<exists>s \<in> set (servers_of conf). \<exists>u \<in> set (urlsOf s). is_turn_url u \<and> \<not> isUdpRelay u)"
proof -
  have "canDropUdp conf \<longleftrightarrow>
      (\<exists>u. is_turn_url u \<and> (\<exists>s \<in> set (servers_of (Some (withoutUdp conf))). u \<in> set (urlsOf s)))"
    by (auto simp: canDropUdp_def list_ex_iff)
  then show ?thesis unfolding urls_withoutUdp by blast
qed

section \<open>The watcher, stream by stream\<close>

lemma watcher_update_eq:
  "watcher_update w i o' = (map_set i (fst (watch_one (entry_of w i) o')) w, snd (watch_one (entry_of w i) o'))"
  by (simp add: watcher_update_def watch_one_def Let_def)

interpretation watcher: stream_monitor watcher_update entry_of watch_one
  by unfold_locales (simp_all add: watcher_update_eq entry_of_def js_store.get_put)

definition watch :: "watcher \<Rightarrow> (jstr \<times> poll \<times> rat) list \<Rightarrow> watcher" where
  "watch w ps = foldl (\<lambda>w (i, o'). fst (watcher_update w i o')) w ps"

text \<open>What the polls of a stream say: the last path it had while connected, and whether a poll found it
  disconnected or losing packets.\<close>

fun last_path :: "(poll \<times> rat) list \<Rightarrow> path option" where
  "last_path [] = None"
| "last_path (x # os) =
     (case last_path os of
        Some p \<Rightarrow> Some p
      | None \<Rightarrow> if up (p_ice (fst x)) then p_path (fst x) else None)"

definition is_down :: "poll \<times> rat \<Rightarrow> bool" where
  "is_down x \<longleftrightarrow> p_ice (fst x) = IceDisconnected"

definition lossy :: "poll \<times> rat \<Rightarrow> bool" where
  "lossy x \<longleftrightarrow> up (p_ice (fst x)) \<and> (case p_loss (fst x) of None \<Rightarrow> False | Some l \<Rightarrow> l \<ge> LOSS)"

definition after_polls :: "(poll \<times> rat) list \<Rightarrow> entry" where
  "after_polls os = foldl (\<lambda>s x. fst (watch_one s x)) entry_init os"

lemma after_polls_snoc: "after_polls (os @ [x]) = note_poll (fst x) (snd x) (after_polls os)"
  by (simp add: after_polls_def watch_one_def Let_def)

lemma last_path_snoc:
  "last_path (os @ [x]) = (if p_path (fst x) \<noteq> None \<and> up (p_ice (fst x)) then p_path (fst x) else last_path os)"
  by (induction os) (auto split: option.splits)

lemma path_after_polls: "en_path (after_polls os) = last_path os"
proof (induction os rule: rev_induct)
  case Nil
  then show ?case by (simp add: after_polls_def entry_init_def)
next
  case (snoc x os)
  then show ?case by (simp add: after_polls_snoc note_poll_def Let_def last_path_snoc)
qed

lemma lossPolls_after_polls: "lossPolls (after_polls os) = length (takeWhile lossy (rev os))"
proof (induction os rule: rev_induct)
  case Nil
  then show ?case by (simp add: after_polls_def entry_init_def)
next
  case (snoc x os)
  then show ?case by (auto simp: after_polls_snoc note_poll_def Let_def lossy_def split: option.split)
qed

lemma down_after_polls:
  "disconnectedSince (after_polls os) =
     (case takeWhile is_down (rev os) of [] \<Rightarrow> None | d # ds \<Rightarrow> Some (snd (last (d # ds))))"
proof (induction os rule: rev_induct)
  case Nil
  then show ?case by (simp add: after_polls_def entry_init_def)
next
  case (snoc x os)
  then show ?case
    by (auto simp: after_polls_snoc note_poll_def Let_def is_down_def split: list.split)
qed

text \<open>C27: when the watcher says to give UDP up on a stream, the polls of that stream alone, whatever came
  between them, show why: its last path was over UDP, and ICE has failed, or every poll for at least
  six seconds found it disconnected, or the last five found heavy loss.\<close>

theorem udp_given_up_on_evidence:
  assumes "snd (watcher_update (watch [] ps) i x) = Some r"
    and "polls = map snd (filter (\<lambda>p. fst p = i) ps) @ [x]"
  shows "map_option path_relay (last_path polls) = Some (Some (js ''udp'')) \<and>
    (case r of
       RFailed \<Rightarrow> p_ice (fst x) = IceFailed
     | RDisconnected \<Rightarrow> \<exists>y \<in> set (takeWhile is_down (rev polls)). snd x - snd y \<ge> DISCONNECTED_FOR
     | RLoss \<Rightarrow> LOSS_POLLS \<le> length (takeWhile lossy (rev polls)))"
proof -
  let ?s = "after_polls polls"
  have "snd (watcher_update (watch [] ps) i x) = reason_for (fst x) (snd x) ?s"
    using watcher.next_result [of "[]" ps i x]
    by (simp add: watch_def entry_of_def assms(2) after_polls_snoc after_polls_def watch_one_def Let_def)
  then have r: "reason_for (fst x) (snd x) ?s = Some r" using assms(1) by simp
  then have "on_udp ?s" by (auto simp: reason_for_def split: if_splits)
  then have path: "map_option path_relay (last_path polls) = Some (Some (js ''udp''))"
    by (auto simp: on_udp_def path_after_polls split: option.splits)
  have down: "\<exists>y \<in> set (takeWhile is_down (rev polls)). snd x - snd y \<ge> DISCONNECTED_FOR" if "r = RDisconnected"
    using r that down_after_polls [of polls] last_in_set [of "takeWhile is_down (rev polls)"]
    by (force simp: reason_for_def split: if_splits option.splits list.splits)
  show ?thesis
    using path down r by (auto simp: reason_for_def lossPolls_after_polls split: reason.split if_splits)
qed

definition udp_poll :: "ice \<Rightarrow> poll" where
  "udp_poll i = \<lparr>p_ice = i, p_path = Some \<lparr>path_type = js ''host'', path_relay = Some (js ''udp'')\<rparr>, p_loss = None\<rparr>"

theorem udp_given_up_on_evidence_witness:
  "LOSS_POLLS \<le> 5 \<and> p_ice (udp_poll IceFailed) = IceFailed"
proof -
  have "snd (watcher_update (watch [] [(js ''a'', udp_poll IceConnected, 0)]) (js ''a'') (udp_poll IceFailed, 1)) = Some RFailed"
    by (simp add: watch_def watcher_update_def Let_def note_poll_def entry_of_def entry_init_def udp_poll_def
        up_def reason_for_def on_udp_def)
  from udp_given_up_on_evidence [OF this refl] show ?thesis by (simp add: LOSS_POLLS_def)
qed

section \<open>Remembering\<close>

lemma load_written:
  assumes "\<forall>(k, t) \<in> set v. t \<le> now" and "readable s"
  shows "load (Some (s\<lparr>item := JsonObject (map (\<lambda>(k, t). (k, JNum (Fin t))) v)\<rparr>)) now =
    Some (filter (\<lambda>(k, t). now - t < REMEMBER) v)"
proof -
  have "concat (map (\<lambda>(k, t). case fresh_time now t of None \<Rightarrow> [] | Some x \<Rightarrow> [(k, x)])
      (map (\<lambda>(k, t). (k, JNum (Fin t))) v)) = filter (\<lambda>(k, t). now - t < REMEMBER) v"
    using assms(1)
  proof (induction v)
    case (Cons a v)
    then show ?case by (cases a) auto
  qed simp
  then show ?thesis using assms(2) by (simp add: load_def)
qed

lemma fresh_time_le: "fresh_time now x = Some t \<Longrightarrow> t \<le> now"
  by (auto elim!: fresh_time.elims split: if_splits)

lemma load_not_later: "load st now = Some v \<Longrightarrow> \<forall>(k, t) \<in> set v. t \<le> now"
  by (auto simp: load_def split: option.splits if_splits item.splits dest!: sym [of "Some _"] fresh_time_le)

lemma newest_first:
  assumes "(n, now) \<in> set v" and "\<forall>(k, t) \<in> set v. k = n \<or> t < now" and "\<forall>(k, t) \<in> set v. t \<le> now"
  shows "(n, now) \<in> set (newest v)"
proof -
  let ?s = "sort_key (\<lambda>kt. - snd kt) v"
  have set_s: "set ?s = set v" by simp
  obtain x xs where s: "?s = x # xs" using assms(1) set_s by (cases ?s) auto
  have "sorted (map (\<lambda>kt. - snd kt) ?s)" by simp
  moreover have "(n, now) \<in> set ?s" using assms(1) set_s by simp
  moreover have "x \<in> set v" using set_s unfolding s by auto
  ultimately have "now \<le> snd x" unfolding s by auto
  then have "x = (n, now)" using assms(2,3) \<open>x \<in> set v\<close> by (cases x) fastforce
  then show ?thesis by (simp add: newest_def s NETWORKS_def)
qed

lemma newest_subset: "set (newest v) \<subseteq> set v"
  unfolding newest_def using set_take_subset [of NETWORKS "sort_key (\<lambda>kt. - snd kt) v"] by simp

text \<open>A decision to give UDP up is remembered for its network for six hours when the storage can be read
  and written, and at most sixteen networks are kept.\<close>

theorem remembered_for_six_hours:
  assumes "load (Some s) now = Some v" and "writable s"
    and "n = (case network of None \<Rightarrow> [] | Some n \<Rightarrow> n)"
    and "\<forall>(k, t) \<in> set v. k = n \<or> t \<noteq> now" and "now \<le> later" and "later - now < REMEMBER"
  shows "remembered (remember (Some s) now network) later network \<and>
    (\<exists>w. remember (Some s) now network = Some (s\<lparr>item := JsonObject w\<rparr>) \<and> length w \<le> NETWORKS)"
proof -
  let ?v = "map_set n now v"
  let ?w = "map (\<lambda>(k, t). (k, JNum (Fin t))) (newest ?v)"
  have readable: "readable s" using assms(1) by (auto simp: load_def split: if_splits)
  have written: "remember (Some s) now network = Some (s\<lparr>item := JsonObject ?w\<rparr>)"
    using assms(1,2,3) by (simp add: remember_def)
  have sub: "set ?v \<subseteq> insert (n, now) (set v)" by (induction v) auto
  have le: "\<forall>(k, t) \<in> set ?v. t \<le> now" using load_not_later [OF assms(1)] sub by fastforce
  have "(n, now) \<in> set ?v" by (induction v) auto
  moreover have "\<forall>(k, t) \<in> set ?v. k = n \<or> t < now" using assms(4) le sub by fastforce
  ultimately have new: "(n, now) \<in> set (newest ?v)" using le by (rule newest_first)
  have "\<forall>(k, t) \<in> set (newest ?v). t \<le> later" using newest_subset le assms(5) by fastforce
  from load_written [OF this readable]
  have "load (Some (s\<lparr>item := JsonObject ?w\<rparr>)) later = Some (filter (\<lambda>(k, t). later - t < REMEMBER) (newest ?v))"
    by simp
  moreover have "map_get (filter (\<lambda>(k, t). later - t < REMEMBER) (newest ?v)) n \<noteq> None"
    using new assms(6) by (auto simp: map_of_eq_None_iff image_iff intro!: bexI [of _ "(n, now)"])
  ultimately have "remembered (remember (Some s) now network) later network"
    using assms(3) by (simp add: written remembered_def)
  moreover have "length ?w \<le> NETWORKS" by (simp add: newest_def)
  ultimately show ?thesis using written by blast
qed

theorem remembered_for_six_hours_witness:
  "remembered (remember (Some \<lparr>readable = True, writable = True, item = Absent\<rparr>) 1000 None) 5000 None"
proof -
  have "load (Some \<lparr>readable = True, writable = True, item = Absent\<rparr>) 1000 = Some []" by (simp add: load_def)
  from remembered_for_six_hours [OF this _ refl, of None 5000] show ?thesis by (simp add: REMEMBER_def)
qed

end
