(* ===== verification/IceRecovery.thy ===== *)
theory IceRecovery
  imports Prelude
begin

text \<open>
  static/ice-recovery.js: when a connection that went down is to be restarted, at once after the
  signalling resumed on another network and otherwise once it has been down too long.
\<close>

definition DISCONNECTED_FOR :: rat where "DISCONNECTED_FOR = 8000"
definition SUSPECT_FOR :: rat where "SUSPECT_FOR = 15000"
definition MIN_GAP :: rat where "MIN_GAP = 5000"

record outage =
  downSince :: "rat option"
  restartedAt :: "rat option"

record recovery =
  streams :: "(jstr, outage) jsmap"
  suspectUntil :: rat

datatype cause = Resumed | Disconnected

definition Recovery :: recovery where
  "Recovery = \<lparr>streams = [], suspectUntil = 0\<rparr>"

definition outage_init :: outage where
  "outage_init = \<lparr>downSince = None, restartedAt = None\<rparr>"

definition outage_of :: "recovery \<Rightarrow> jstr \<Rightarrow> outage" where
  "outage_of r i = (case map_get (streams r) i of None \<Rightarrow> outage_init | Some s \<Rightarrow> s)"

definition resumed :: "rat \<Rightarrow> recovery \<Rightarrow> recovery" where
  "resumed now r = r\<lparr>suspectUntil := now + SUSPECT_FOR\<rparr>"

definition note_state :: "ice \<Rightarrow> rat \<Rightarrow> outage \<Rightarrow> outage" where
  "note_state i now s =
     (if i \<noteq> IceDisconnected
      then let s = s\<lparr>downSince := None\<rparr>
           in if i = IceConnected \<or> i = IceCompleted then s\<lparr>restartedAt := None\<rparr> else s
      else if downSince s = None then s\<lparr>downSince := Some now\<rparr>
      else s)"

definition too_soon :: "rat \<Rightarrow> outage \<Rightarrow> bool" where
  "too_soon now s \<longleftrightarrow> (case restartedAt s of None \<Rightarrow> False | Some t \<Rightarrow> now - t < MIN_GAP)"

definition cause_for :: "ice \<Rightarrow> rat \<Rightarrow> rat \<Rightarrow> outage \<Rightarrow> cause option" where
  "cause_for i suspect now s =
     (if now < suspect \<and> i = IceDisconnected then Some Resumed
      else if (case downSince s of None \<Rightarrow> False | Some d \<Rightarrow> now - d \<ge> DISCONNECTED_FOR)
      then Some Disconnected
      else None)"

text \<open>One poll of one connection: its entry and the answer.\<close>

definition judge_outage :: "rat \<Rightarrow> outage \<Rightarrow> ice \<times> rat \<Rightarrow> outage \<times> cause option" where
  "judge_outage suspect s x =
     (let s = note_state (fst x) (snd x) s in
      if too_soon (snd x) s then (s, None)
      else let restart = cause_for (fst x) suspect (snd x) s
           in (if restart \<noteq> None then s\<lparr>restartedAt := Some (snd x), downSince := None\<rparr> else s, restart))"

definition update :: "recovery \<Rightarrow> jstr \<Rightarrow> ice \<times> rat \<Rightarrow> recovery \<times> cause option" where
  "update r i x =
     (let (s, restart) = judge_outage (suspectUntil r) (outage_of r i) x
      in (r\<lparr>streams := map_set i s (streams r)\<rparr>, restart))"

definition restarted :: "jstr \<Rightarrow> rat \<Rightarrow> recovery \<Rightarrow> recovery" where
  "restarted i now r =
     r\<lparr>streams := map_set i ((outage_of r i)\<lparr>restartedAt := Some now, downSince := None\<rparr>) (streams r)\<rparr>"

definition forget :: "jstr \<Rightarrow> recovery \<Rightarrow> recovery" where
  "forget i r = r\<lparr>streams := map_delete i (streams r)\<rparr>"

section \<open>Stream by stream\<close>

interpretation recovery: stream_monitor update "\<lambda>r i. (outage_of r i, suspectUntil r)"
    "\<lambda>(s, suspect) x. case judge_outage suspect s x of (s', c) \<Rightarrow> ((s', suspect), c)"
  by unfold_locales (simp_all add: update_def case_prod_beta outage_of_def js_store.get_put)

section \<open>Runs\<close>

datatype rec_event = Poll jstr ice rat | Resume rat | RestartedBy jstr rat | Forget jstr

fun rec_step :: "recovery \<Rightarrow> rec_event \<Rightarrow> recovery" where
  "rec_step r (Poll i s now) = fst (update r i (s, now))"
| "rec_step r (Resume now) = resumed now r"
| "rec_step r (RestartedBy i now) = restarted i now r"
| "rec_step r (Forget i) = forget i r"

text \<open>The events that restart a connection, and those that end its outage.\<close>

fun restarts :: "jstr \<Rightarrow> recovery \<Rightarrow> rec_event \<Rightarrow> rat option" where
  "restarts i r (Poll j s now) = (if j = i \<and> snd (update r j (s, now)) \<noteq> None then Some now else None)"
| "restarts i r (RestartedBy j now) = (if j = i then Some now else None)"
| "restarts i r _ = None"

fun ends_outage :: "jstr \<Rightarrow> rec_event \<Rightarrow> bool" where
  "ends_outage i (Poll j s now) = (j = i \<and> (s = IceConnected \<or> s = IceCompleted))"
| "ends_outage i (Forget j) = (j = i)"
| "ends_outage i _ = False"

fun not_before :: "rat \<Rightarrow> rec_event \<Rightarrow> bool" where
  "not_before t (Poll j s now) = (t \<le> now)"
| "not_before t (RestartedBy j now) = (t \<le> now)"
| "not_before t _ = True"

definition restarted_since :: "rat \<Rightarrow> outage \<Rightarrow> bool" where
  "restarted_since t s \<longleftrightarrow> (case restartedAt s of None \<Rightarrow> False | Some t' \<Rightarrow> t \<le> t')"

lemma restarts_sets: "restarts i r e = Some t \<Longrightarrow> restartedAt (outage_of (rec_step r e) i) = Some t"
  by (cases e)
    (auto simp: update_def judge_outage_def Let_def outage_of_def restarted_def js_store.get_put split: if_splits)

lemma restarted_since_note:
  "restarted_since t s \<Longrightarrow> s' \<noteq> IceConnected \<Longrightarrow> s' \<noteq> IceCompleted \<Longrightarrow> restarted_since t (note_state s' now s)"
  by (simp add: restarted_since_def note_state_def Let_def)

lemma restarted_since_judge:
  "restarted_since t s \<Longrightarrow> s' \<noteq> IceConnected \<Longrightarrow> s' \<noteq> IceCompleted \<Longrightarrow> t \<le> now \<Longrightarrow>
   restarted_since t (fst (judge_outage suspect s (s', now)))"
  using restarted_since_note [of t s s' now]
  by (simp add: judge_outage_def Let_def) (simp add: restarted_since_def)

lemma restarted_since_step:
  assumes "restarted_since t (outage_of r i)" and "\<not> ends_outage i e" and "not_before t e"
  shows "restarted_since t (outage_of (rec_step r e) i)"
proof (cases e)
  case (Poll j s now)
  show ?thesis
  proof (cases "j = i")
    case True
    have "outage_of (rec_step r e) i = fst (judge_outage (suspectUntil r) (outage_of r i) (s, now))"
      using recovery.feed_same [of r i "(s, now)"] by (simp add: Poll True case_prod_beta)
    then show ?thesis using assms restarted_since_judge by (simp add: Poll True)
  next
    case False
    then show ?thesis using assms recovery.feed_other [of i j r "(s, now)"] by (simp add: Poll)
  qed
next
  case (RestartedBy j now)
  then show ?thesis using assms
    by (auto simp: restarted_def outage_of_def js_store.get_put restarted_since_def)
next
  case (Forget j)
  then show ?thesis using assms by (simp add: forget_def outage_of_def js_store.get_drop)
next
  case (Resume now)
  then show ?thesis using assms by (simp add: resumed_def outage_of_def)
qed

lemma restarted_since_run:
  "restarted_since t (outage_of r i) \<Longrightarrow> \<forall>e \<in> set es. \<not> ends_outage i e \<and> not_before t e \<Longrightarrow>
   restarted_since t (outage_of (foldl rec_step r es) i)"
  by (induction es arbitrary: r) (simp_all add: restarted_since_step)

lemma no_restart_too_soon:
  assumes "restarted_since t (outage_of r i)" and "snd (update r i (s, now)) \<noteq> None"
    and "s \<noteq> IceConnected" and "s \<noteq> IceCompleted"
  shows "MIN_GAP \<le> now - t"
proof -
  let ?s = "note_state s now (outage_of r i)"
  have "\<not> too_soon now ?s"
    using assms(2) by (auto simp: update_def judge_outage_def Let_def split: if_splits)
  moreover have "restarted_since t ?s" using assms(1,3,4) by (rule restarted_since_note)
  ultimately show ?thesis by (auto simp: too_soon_def restarted_since_def split: option.splits)
qed



end
