(* ===== verification/FileTransfer.thy ===== *)
theory FileTransfer
  imports Prelude
begin

text \<open>
  The file transfers of static/protocol.js: the operations on one \<open>TransferredFile\<close>, the table of a
  \<open>ServerConnection\<close> and the messages of kind \<open>filetransfer\<close>. An operation returns the transfer and
  its effects in order. Each \<open>await\<close> on the peer connection is recorded in the transfer, and what
  follows it is a continuation that other events may precede; a closed peer connection settles none
  of its promises. The callback \<open>onevent\<close> only displays (galene.js, gotFileTransferEvent).
\<close>

section \<open>Data\<close>

datatype fstate = Start | Inviting | Connecting | Connected | FDone | Cancelled | Closed

datatype fmsg =
    Invite "jsval list option" jstr jstr "rat option" jstr
  | Offer "jsval list option" jstr jsval
  | Answer jstr jsval
  | IceCandidate jstr jsval
  | CancelMsg jstr "jsval option"
  | Obsolete jstr
  | UnknownMsg

datatype chan_msg = Bytes "byte list" | TextMsg jstr

datatype fdata = NoData | Why jsval | Blob "byte list"

datatype effect =
    Say jstr fmsg
  | Event fstate fdata
  | Unlist
  | ClosePc
  | AddIce jsval
  | Transmit chan_msg

text \<open>The promises a transfer waits for.\<close>

datatype wait = WOffer | WLocalOffer | WRemoteOffer | WCreateAnswer | WLocalAnswer | WRemoteAnswer | WBye

datatype on_end = EndCancels | EndResolves | EndIgnored

record channel =
  on_message :: bool
  on_end :: on_end

record transfer =
  t_userid :: jstr
  t_id :: jstr
  t_version :: "jstr option"
  t_up :: bool
  t_state :: fstate
  t_username :: jstr
  t_name :: jstr
  t_mimetype :: jstr
  t_size :: "rat option"
  t_file :: "byte list"
  t_pc :: "bool option"
  t_dc :: "channel option"
  t_candidates :: "jsval list"
  t_data :: "byte list list"
  t_datalen :: nat
  t_waits :: "wait list"
  t_reader :: "(byte list list \<times> byte list list) option"

type_synonym result = "transfer \<times> effect list"

text \<open>\<open>t_pc\<close> holds whether the signalling state is stable; \<open>t_reader\<close> the pieces of the chunk being
  written and the chunks still to be read.\<close>

definition TransferredFile ::
  "jstr \<Rightarrow> jstr \<Rightarrow> bool \<Rightarrow> jstr \<Rightarrow> jstr \<Rightarrow> jstr \<Rightarrow> rat option \<Rightarrow> transfer" where
  "TransferredFile userid i upward username name mimetype sz =
     \<lparr>t_userid = userid, t_id = i, t_version = None, t_up = upward, t_state = Start,
      t_username = username, t_name = name, t_mimetype = mimetype, t_size = sz, t_file = [],
      t_pc = None, t_dc = None, t_candidates = [], t_data = [], t_datalen = 0, t_waits = [],
      t_reader = None\<rparr>"

definition fullid :: "transfer \<Rightarrow> jstr" where
  "fullid f = t_userid f @ js ''-'' @ t_id f"

definition seq :: "result \<Rightarrow> (transfer \<Rightarrow> result) \<Rightarrow> result" where
  "seq r g = (fst (g (fst r)), snd r @ snd (g (fst r)))"

definition text_of :: "string \<Rightarrow> jsval" where
  "text_of s = JStr (js s)"

section \<open>Operations on one transfer\<close>

definition event :: "fstate \<Rightarrow> fdata \<Rightarrow> transfer \<Rightarrow> result" where
  "event st d f = (f\<lparr>t_state := st\<rparr>, [Event st d])"

definition close :: "transfer \<Rightarrow> result" where
  "close f =
     (if t_state f = Closed then (f, [])
      else seq (f\<lparr>t_dc := None, t_pc := None, t_data := [], t_datalen := 0,
                  t_waits := filter (\<lambda>w. w = WBye) (t_waits f)\<rparr>,
                (if t_pc f \<noteq> None then [ClosePc] else []) @ [Unlist])
             (event Closed NoData))"

definition sendFileCancel :: "jstr \<Rightarrow> jstr \<Rightarrow> jsval \<Rightarrow> effect" where
  "sendFileCancel userid i message = Say userid (CancelMsg i (if truthy message then Some message else None))"

definition cancel :: "jsval \<Rightarrow> transfer \<Rightarrow> result" where
  "cancel message f =
     (if t_state f = Closed then (f, [])
      else seq (seq (f, if t_state f \<notin> {Start, FDone, Cancelled}
                        then [sendFileCancel (t_userid f) (t_id f) message] else [])
                    (\<lambda>f. if t_state f \<notin> {FDone, Cancelled} then event Cancelled (Why message) f else (f, [])))
               close)"

definition fail :: "jsval \<Rightarrow> transfer \<Rightarrow> result" where
  "fail data f =
     (if t_state f \<in> {FDone, Cancelled, Closed} then (f, [])
      else seq (event Cancelled (Why data) f) close)"

text \<open>A text message is not a blob.\<close>

fun bufferData :: "chan_msg \<Rightarrow> transfer \<Rightarrow> transfer option" where
  "bufferData (Bytes bs) f =
     (if t_up f then None
      else Some (f\<lparr>t_datalen := t_datalen f + length bs, t_data := t_data f @ [bs]\<rparr>))"
| "bufferData (TextMsg _) f = None"

definition getBufferedData :: "transfer \<Rightarrow> (byte list \<times> transfer) option" where
  "getBufferedData f =
     (let blob = concat (t_data f) in
      if t_up f \<or> length blob \<noteq> t_datalen f then None
      else Some (blob, f\<lparr>t_data := [], t_datalen := 0\<rparr>))"

section \<open>Negotiation\<close>

definition new_channel :: channel where
  "new_channel = \<lparr>on_message = True, on_end = EndCancels\<rparr>"

definition add_wait :: "wait \<Rightarrow> transfer \<Rightarrow> transfer" where
  "add_wait w f = f\<lparr>t_waits := t_waits f @ [w]\<rparr>"

text \<open>The download, up to the first \<open>await\<close>; \<open>made\<close> says that there is a peer connection. What it
  throws in the wrong direction or with a connection in place leaves everything as it was.\<close>

definition receive :: "bool \<Rightarrow> transfer \<Rightarrow> result" where
  "receive made f =
     (if t_up f \<or> t_pc f \<noteq> None then (f, [])
      else if \<not> made then fail (text_of ''Couldn't create peer connection'') f
      else seq (event Connecting NoData (f\<lparr>t_pc := Some True\<rparr>))
             (\<lambda>f. (add_wait WOffer (f\<lparr>t_candidates := [], t_dc := Some new_channel, t_data := [], t_datalen := 0\<rparr>), [])))"

definition answer :: "bool \<Rightarrow> transfer \<Rightarrow> result" where
  "answer made f =
     (if \<not> t_up f then cancel (text_of ''Sending file in wrong direction'') f
      else if t_pc f \<noteq> None then cancel (text_of ''Transfer already in progress'') f
      else if \<not> made then fail (text_of ''Couldn't create peer connection'') f
      else seq (event Connecting NoData (f\<lparr>t_pc := Some True\<rparr>))
             (\<lambda>f. (add_wait WRemoteOffer (f\<lparr>t_candidates := []\<rparr>), [])))"

definition receiveFile :: "transfer \<Rightarrow> result" where
  "receiveFile f =
     (if t_up f then cancel (text_of ''Receiving in wrong direction'') f
      else if t_pc f = None then cancel JObject f
      else (add_wait WRemoteAnswer f, []))"

text \<open>The signalling state becomes stable, and the candidates kept until then are handed over.\<close>

definition flush_candidates :: "transfer \<Rightarrow> result" where
  "flush_candidates f = (f\<lparr>t_pc := Some True, t_candidates := []\<rparr>, map AddIce (t_candidates f))"

definition on_ice :: "jsval \<Rightarrow> transfer \<Rightarrow> result" where
  "on_ice c f =
     (case t_pc f of
        None \<Rightarrow> (f, [])
      | Some settled \<Rightarrow> if settled then (f, [AddIce c]) else (f\<lparr>t_candidates := t_candidates f @ [c]\<rparr>, []))"

text \<open>The connection found a candidate of its own; \<open>close\<close> takes this handler away.\<close>

definition onicecandidate :: "jsval \<Rightarrow> transfer \<Rightarrow> result" where
  "onicecandidate c f =
     (if t_pc f = None then (f, []) else (f, [Say (t_userid f) (IceCandidate (t_id f) c)]))"

datatype outcome = Settled jsval | Falsy | Rejected

text \<open>What follows each \<open>await\<close>; only a new offer or answer can be missing. The promise of \<open>receive\<close> has no handler; those of the others cancel.\<close>

fun continue :: "wait \<Rightarrow> outcome \<Rightarrow> transfer \<Rightarrow> result" where
  "continue WOffer (Settled _) f = (add_wait WLocalOffer f, [])"
| "continue WOffer Falsy f = cancel (text_of ''Couldn't create offer'') f"
| "continue WLocalOffer (Settled sdp) f =
     (f\<lparr>t_pc := Some False\<rparr>,
      [Say (t_userid f) (Offer (Some [case t_version f of None \<Rightarrow> Null | Some v \<Rightarrow> JStr v]) (t_id f) sdp)])"
| "continue WRemoteOffer (Settled _) f = (add_wait WCreateAnswer (f\<lparr>t_pc := Some False\<rparr>), [])"
| "continue WCreateAnswer (Settled _) f = (add_wait WLocalAnswer f, [])"
| "continue WCreateAnswer Falsy f = cancel (text_of ''Couldn't create answer'') f"
| "continue WLocalAnswer (Settled sdp) f =
     seq (seq (flush_candidates f) (\<lambda>f. (f, [Say (t_userid f) (Answer (t_id f) sdp)]))) (event Connected NoData)"
| "continue WRemoteAnswer (Settled _) f = seq (flush_candidates f) (event Connected NoData)"
| "continue WBye _ f = close f"
| "continue w _ f = (if w \<in> {WOffer, WLocalOffer} then (f, []) else cancel JObject f)"

text \<open>The peer connection rejects an answer unless it has made an offer.\<close>

definition may_settle :: "wait \<Rightarrow> outcome \<Rightarrow> transfer \<Rightarrow> bool" where
  "may_settle w o' f \<longleftrightarrow>
     w \<in> set (t_waits f) \<and>
     (case o' of
        Settled _ \<Rightarrow> w \<noteq> WRemoteAnswer \<or> t_pc f = Some False
      | Falsy \<Rightarrow> w \<in> {WOffer, WCreateAnswer}
      | Rejected \<Rightarrow> True)"

definition resume_wait :: "wait \<Rightarrow> outcome \<Rightarrow> transfer \<Rightarrow> result" where
  "resume_wait w o' f =
     (if may_settle w o' f then continue w o' (f\<lparr>t_waits := remove1 w (t_waits f)\<rparr>) else (f, []))"

section \<open>The data channel\<close>

definition PIECE :: nat where "PIECE = 16384"
definition LOW :: nat where "LOW = 65536"

text \<open>The loop over \<open>subarray(i, min(i + 16384, length))\<close>.\<close>

function subarrays :: "nat \<Rightarrow> 'a list \<Rightarrow> 'a list list" where
  "subarrays i data =
     (if i < length data
      then take (min (i + PIECE) (length data) - i) (drop i data) # subarrays (i + PIECE) data
      else [])"
  by pat_completeness auto
termination
  by (relation "measure (\<lambda>(i, data). length data - i)") (auto simp: PIECE_def)

declare subarrays.simps [simp del]

definition chop :: "byte list \<Rightarrow> byte list list" where
  "chop data = (if length data \<le> PIECE then [data] else subarrays 0 data)"

text \<open>The sender's channel opens: \<open>chunks\<close> is how the file's stream will yield its bytes.\<close>

definition on_datachannel :: "byte list list \<Rightarrow> transfer \<Rightarrow> result" where
  "on_datachannel chunks f =
     (if t_pc f = None then (f, [])
      else if t_dc f \<noteq> None then cancel (text_of ''Duplicate datachannel'') f
      else (f\<lparr>t_dc := Some new_channel, t_reader := Some ([], chunks)\<rparr>, []))"

text \<open>One round of the loops of \<open>send\<close>: a piece is written once the buffer is low, else the next chunk
  is read. A channel that is gone or cannot send throws, and the transfer is cancelled.\<close>

definition send_step :: "nat \<Rightarrow> bool \<Rightarrow> transfer \<Rightarrow> result" where
  "send_step buffered sendable f =
     (case t_reader f of
        None \<Rightarrow> (f, [])
      | Some (p # ps, cs) \<Rightarrow>
          if t_dc f = None then cancel JObject (f\<lparr>t_reader := None\<rparr>)
          else if buffered > LOW then (f, [])
          else if \<not> sendable then cancel JObject (f\<lparr>t_reader := None\<rparr>)
          else seq (f\<lparr>t_reader := Some (ps, cs), t_datalen := t_datalen f + length p\<rparr>, [Transmit (Bytes p)])
                 (event Connected NoData)
      | Some ([], c # cs) \<Rightarrow> (f\<lparr>t_reader := Some (chop c, cs)\<rparr>, [])
      | Some ([], []) \<Rightarrow> (f\<lparr>t_reader := None\<rparr>, []))"

text \<open>What the sender's channel brings: the final handshake, or nothing that is expected.\<close>

definition on_reply :: "chan_msg \<Rightarrow> transfer \<Rightarrow> result" where
  "on_reply m f =
     (if m = TextMsg (js ''done'') \<and> t_size f = Some (of_nat (t_datalen f))
      then seq (event FDone NoData f) close
      else cancel (text_of ''unexpected data from receiver'') f)"

definition set_channel :: "(channel \<Rightarrow> channel) \<Rightarrow> transfer \<Rightarrow> transfer" where
  "set_channel g f = f\<lparr>t_dc := map_option g (t_dc f)\<rparr>"

text \<open>The last part of \<open>receiveData\<close>, after the whole file is there: the handshake is sent, and the
  transfer is closed when the channel ends or two seconds later.\<close>

definition say_done :: "bool \<Rightarrow> transfer \<Rightarrow> result" where
  "say_done sendable f =
     (let f = set_channel (\<lambda>c. c\<lparr>on_end := EndResolves\<rparr>) f in
      if t_dc f = None \<or> \<not> sendable then cancel JObject f
      else (add_wait WBye f, [Transmit (TextMsg (js ''done''))]))"

definition receiveData :: "bool \<Rightarrow> chan_msg \<Rightarrow> transfer \<Rightarrow> result" where
  "receiveData sendable m f =
     (case bufferData m f of
        None \<Rightarrow> cancel JObject f
      | Some f \<Rightarrow>
          if (case t_size f of None \<Rightarrow> False | Some n \<Rightarrow> of_nat (t_datalen f) < n)
          then event Connected NoData f
          else
            let f = set_channel (\<lambda>c. c\<lparr>on_message := False\<rparr>) f in
            if t_size f \<noteq> Some (of_nat (t_datalen f))
            then cancel (text_of ''extra data at end of file'') f
            else case getBufferedData f of
                   None \<Rightarrow> cancel JObject f
                 | Some (blob, f) \<Rightarrow>
                     if t_size f \<noteq> Some (of_nat (length blob))
                     then cancel (text_of ''inconsistent data size'') f
                     else seq (event FDone (Blob blob) f) (say_done sendable))"

definition channel_message :: "bool \<Rightarrow> chan_msg \<Rightarrow> transfer \<Rightarrow> result" where
  "channel_message sendable m f =
     (case t_dc f of
        None \<Rightarrow> (f, [])
      | Some c \<Rightarrow>
          if \<not> on_message c then (f, [])
          else if t_up f then on_reply m f else receiveData sendable m f)"

definition channel_end :: "jsval \<Rightarrow> transfer \<Rightarrow> result" where
  "channel_end why f =
     (case t_dc f of
        None \<Rightarrow> (f, [])
      | Some c \<Rightarrow>
          (case on_end c of
             EndCancels \<Rightarrow> cancel why f
           | EndResolves \<Rightarrow> resume_wait WBye (Settled Undefined) f
           | EndIgnored \<Rightarrow> (f, [])))"

section \<open>The page\<close>

text \<open>Transfers have an identity, their index in \<open>heap\<close>; the table finds those that are listed.\<close>

record page =
  heap :: "transfer list"
  listed :: "(jstr, nat) jsmap"
  page_users :: "(jstr, jstr) jsmap"
  said :: "(jstr \<times> fmsg) list"
  reported :: "(nat \<times> fstate) list"

text \<open>What the callback \<open>onfiletransfer\<close> does with a new transfer.\<close>

datatype decision = Kept | CancelledIt jsval | Threw jsval | NoCallback

definition page_init :: page where
  "page_init = \<lparr>heap = [], listed = [], page_users = [], said = [], reported = []\<rparr>"

fun effect_on :: "nat \<Rightarrow> jstr \<Rightarrow> effect \<Rightarrow> page \<Rightarrow> page" where
  "effect_on k fid (Say u m) p = p\<lparr>said := said p @ [(u, m)]\<rparr>"
| "effect_on k fid (Event st d) p = p\<lparr>reported := reported p @ [(k, st)]\<rparr>"
| "effect_on k fid Unlist p = p\<lparr>listed := map_delete fid (listed p)\<rparr>"
| "effect_on k fid _ p = p"

definition run_on :: "nat \<Rightarrow> (transfer \<Rightarrow> result) \<Rightarrow> page \<Rightarrow> page" where
  "run_on k g p =
     (if k < length (heap p)
      then let (f, es) = g (heap p ! k)
           in fold (effect_on k (fullid (heap p ! k))) es (p\<lparr>heap := (heap p)[k := f]\<rparr>)
      else p)"

definition getTransferredFile :: "jstr \<Rightarrow> jstr \<Rightarrow> page \<Rightarrow> nat option" where
  "getTransferredFile userid fileid p = map_get (listed p) (userid @ js ''-'' @ fileid)"

definition new_transfer :: "transfer \<Rightarrow> page \<Rightarrow> nat \<times> page" where
  "new_transfer f p = (length (heap p), p\<lparr>heap := heap p @ [f]\<rparr>)"

definition list_it :: "nat \<Rightarrow> page \<Rightarrow> page" where
  "list_it k p = p\<lparr>listed := map_set (fullid (heap p ! k)) k (listed p)\<rparr>"

definition say :: "jstr \<Rightarrow> fmsg \<Rightarrow> page \<Rightarrow> page" where
  "say u m p = p\<lparr>said := said p @ [(u, m)]\<rparr>"

text \<open>The call of \<open>onfiletransfer\<close>; the boolean says whether the handler goes on after it.\<close>

fun ask_page :: "nat \<Rightarrow> decision \<Rightarrow> page \<Rightarrow> page \<times> bool" where
  "ask_page k Kept p = (p, True)"
| "ask_page k (CancelledIt why) p = (run_on k (cancel why) p, True)"
| "ask_page k (Threw e) p = (run_on k (cancel e) p, False)"
| "ask_page k NoCallback p = (run_on k (cancel (text_of ''this client does not implement file transfer'')) p, False)"

definition sendFile :: "jstr \<Rightarrow> jstr \<Rightarrow> jstr \<Rightarrow> jstr \<Rightarrow> byte list \<Rightarrow> decision \<Rightarrow> page \<Rightarrow> page" where
  "sendFile i fileid name mimetype file d p =
     (case map_get (page_users p) i of
        None \<Rightarrow> p
      | Some username \<Rightarrow>
          let f = (TransferredFile i fileid True username name mimetype (Some (of_nat (length file))))
                    \<lparr>t_file := file\<rparr>;
              (k, p) = new_transfer f p;
              (p, goes_on) = ask_page k d p
          in if \<not> goes_on \<or> t_state (heap p ! k) = Closed then p
             else run_on k (event Inviting NoData)
                    (say i (Invite (Some [text_of ''1'']) fileid name (t_size f) mimetype) (list_it k p)))"

definition version_known :: "jsval list option \<Rightarrow> bool" where
  "version_known v = (case v of None \<Rightarrow> False | Some vs \<Rightarrow> text_of ''1'' \<in> set vs)"

definition on_invite ::
  "jstr \<Rightarrow> jstr \<Rightarrow> jsval list option \<Rightarrow> jstr \<Rightarrow> jstr \<Rightarrow> rat option \<Rightarrow> jstr \<Rightarrow> decision \<Rightarrow> page \<Rightarrow> page" where
  "on_invite userid username version i name sz mimetype d p =
     (if \<not> version_known version
      then say userid (CancelMsg i (Some (text_of ''Unknown protocol version''))) p
      else
        let f = (TransferredFile userid i False username name mimetype sz)
                  \<lparr>t_version := Some (js ''1''), t_state := Inviting\<rparr>
        in if map_get (listed p) (fullid f) \<noteq> None
           then say userid (CancelMsg i (Some (text_of ''Duplicate file transfer id''))) p
           else
             let (k, p) = new_transfer f p;
                 (p, goes_on) = ask_page k d p
             in if goes_on then list_it k p else p)"

definition on_listed :: "jstr \<Rightarrow> jstr \<Rightarrow> (transfer \<Rightarrow> result) \<Rightarrow> page \<Rightarrow> page" where
  "on_listed userid i g p = (case getTransferredFile userid i p of None \<Rightarrow> p | Some k \<Rightarrow> run_on k g p)"

fun fileTransfer :: "jstr \<Rightarrow> jstr \<Rightarrow> fmsg \<Rightarrow> decision \<Rightarrow> bool \<Rightarrow> page \<Rightarrow> page" where
  "fileTransfer userid username (Invite v i name sz mimetype) d made p =
     on_invite userid username v i name sz mimetype d p"
| "fileTransfer userid username (Offer v i sdp) d made p =
     on_listed userid i
       (\<lambda>f. if version_known v then answer made (f\<lparr>t_version := Some (js ''1'')\<rparr>)
            else cancel (text_of ''Unknown protocol version'') f) p"
| "fileTransfer userid username (Answer i sdp) d made p = on_listed userid i receiveFile p"
| "fileTransfer userid username (IceCandidate i c) d made p = on_listed userid i (on_ice c) p"
| "fileTransfer userid username (CancelMsg i why) d made p =
     on_listed userid i (\<lambda>f. seq (event Cancelled (Why (case why of None \<Rightarrow> Null | Some w \<Rightarrow> w)) f) close) p"
| "fileTransfer userid username (Obsolete i) d made p =
     on_listed userid i (cancel (text_of ''Obsolete file transfer message'')) p"
| "fileTransfer userid username UnknownMsg d made p = p"

text \<open>The part of \<open>gotMessage\<close> for a user who has gone.\<close>

definition user_gone :: "jstr \<Rightarrow> page \<Rightarrow> page" where
  "user_gone userid p =
     (let p = fold (\<lambda>k p. if t_userid (heap p ! k) = userid then run_on k (fail (text_of ''user has gone away'')) p else p)
                (map snd (listed p)) p
      in p\<lparr>page_users := map_delete userid (page_users p)\<rparr>)"

section \<open>Events\<close>

datatype tr_event =
    SendFile jstr jstr jstr jstr "byte list" decision
  | Message jstr jstr fmsg decision bool
  | Accept nat bool
  | Reject nat jsval
  | Continue nat wait outcome
  | ChannelOpens nat "byte list list"
  | ChannelSays nat bool chan_msg
  | ChannelEnds nat jsval
  | SendRound nat nat bool
  | LocalCandidate nat jsval
  | UserJoins jstr jstr
  | UserGone jstr

text \<open>The page offers the button that accepts only until the transfer leaves the state \<open>inviting\<close>.\<close>

definition accept :: "bool \<Rightarrow> transfer \<Rightarrow> result" where
  "accept made f = (if t_state f = Inviting \<and> \<not> t_up f then receive made f else (f, []))"

text \<open>A data channel opens, and carries messages, once both descriptions are set.\<close>

definition negotiated :: "transfer \<Rightarrow> bool" where
  "negotiated f \<longleftrightarrow> t_pc f = Some True \<and> set (t_waits f) \<subseteq> {WRemoteAnswer, WBye}"

definition opens :: "byte list list \<Rightarrow> transfer \<Rightarrow> result" where
  "opens chunks f =
     (if negotiated f \<and> t_up f \<and> concat chunks = t_file f then on_datachannel chunks f else (f, []))"

definition hears :: "bool \<Rightarrow> chan_msg \<Rightarrow> transfer \<Rightarrow> result" where
  "hears sendable m f = (if negotiated f then channel_message sendable m f else (f, []))"

fun tr_step :: "page \<Rightarrow> tr_event \<Rightarrow> page" where
  "tr_step p (SendFile i fileid name mimetype file d) = sendFile i fileid name mimetype file d p"
| "tr_step p (Message u username m d made) = fileTransfer u username m d made p"
| "tr_step p (Accept k made) = run_on k (accept made) p"
| "tr_step p (Reject k why) = run_on k (cancel why) p"
| "tr_step p (Continue k w o') = run_on k (resume_wait w o') p"
| "tr_step p (ChannelOpens k chunks) = run_on k (opens chunks) p"
| "tr_step p (ChannelSays k sendable m) = run_on k (hears sendable m) p"
| "tr_step p (ChannelEnds k why) = run_on k (channel_end why) p"
| "tr_step p (SendRound k buffered sendable) = run_on k (send_step buffered sendable) p"
| "tr_step p (LocalCandidate k c) = run_on k (onicecandidate c) p"
| "tr_step p (UserJoins i username) = p\<lparr>page_users := map_set i username (page_users p)\<rparr>"
| "tr_step p (UserGone i) = user_gone i p"

end
