(* ===== verification/FileTransferProps.thy ===== *)
theory FileTransferProps
  imports FileTransfer
begin

text \<open>
  What the file transfers of protocol.js guarantee: the states a transfer reports, that a user's
  messages reach that user's transfers only, that the bytes arrive whole over an ordered channel, and
  that a transfer of a file that is not empty completes.
\<close>

section \<open>Pieces\<close>

lemma concat_subarrays: "concat (subarrays i data) = drop i data"
proof (induction i data rule: subarrays.induct)
  case (1 i data)
  show ?case
  proof (cases "i < length data")
    case True
    have "take (min (i + PIECE) (length data) - i) (drop i data) = take PIECE (drop i data)"
      by (cases "i + PIECE \<le> length data") simp_all
    then show ?thesis
      using 1 True append_take_drop_id [of PIECE "drop i data"]
      by (simp add: subarrays.simps [of i] add.commute)
  qed (simp add: subarrays.simps [of i])
qed

lemma length_subarrays: "p \<in> set (subarrays i data) \<Longrightarrow> length p \<le> PIECE"
proof (induction i data rule: subarrays.induct)
  case (1 i data)
  then show ?case by (subst (asm) (2) subarrays.simps) (auto split: if_splits)
qed

lemma concat_chop: "concat (chop data) = data"
  by (simp add: chop_def concat_subarrays)

text \<open>A chunk is cut into pieces that make it up in order and that base SCTP can carry.\<close>

theorem chop_pieces: "concat (chop data) = data \<and> list_all (\<lambda>p. length p \<le> 16384) (chop data)"
proof
  show "concat (chop data) = data" by (rule concat_chop)
  show "list_all (\<lambda>p. length p \<le> 16384) (chop data)"
    using length_subarrays [of _ 0 data] by (auto simp: list_all_iff chop_def PIECE_def split: if_splits)
qed

section \<open>The states of a transfer\<close>

fun allowed :: "fstate \<Rightarrow> fstate \<Rightarrow> bool" where
  "allowed Start s = (s \<in> {Inviting, Cancelled})"
| "allowed Inviting s = (s \<in> {Connecting, Cancelled})"
| "allowed Connecting s = (s \<in> {Connected, FDone, Cancelled})"
| "allowed Connected s = (s \<in> {Connected, FDone, Cancelled})"
| "allowed FDone s = (s \<in> {Cancelled, Closed})"
| "allowed Cancelled s = (s = Closed)"
| "allowed Closed s = False"

fun path_to :: "fstate \<Rightarrow> fstate list \<Rightarrow> fstate \<Rightarrow> bool" where
  "path_to s [] s' = (s = s')"
| "path_to s (x # xs) s' = (allowed s x \<and> path_to x xs s')"

lemma path_to_append: "path_to s (xs @ ys) s' \<longleftrightarrow> (\<exists>m. path_to s xs m \<and> path_to m ys s')"
  by (induction xs arbitrary: s) auto

fun events_of :: "effect list \<Rightarrow> fstate list" where
  "events_of [] = []"
| "events_of (Event st d # es) = st # events_of es"
| "events_of (_ # es) = events_of es"

lemma events_of_append [simp]: "events_of (xs @ ys) = events_of xs @ events_of ys"
  by (induction xs rule: events_of.induct) auto

lemma events_of_AddIce [simp]: "events_of (map AddIce cs) = []"
  by (induction cs) auto

definition active :: "transfer \<Rightarrow> bool" where
  "active f \<longleftrightarrow> t_state f \<in> {Connecting, Connected}"

definition t_ok :: "transfer \<Rightarrow> bool" where
  "t_ok f \<longleftrightarrow>
     (t_dc f \<noteq> None \<longrightarrow> t_pc f \<noteq> None) \<and>
     (t_pc f \<noteq> None \<longleftrightarrow> active f \<or> t_state f = FDone) \<and>
     (t_state f = FDone \<longrightarrow> t_pc f = Some True) \<and>
     (WBye \<in> set (t_waits f) \<longrightarrow> t_state f \<in> {FDone, Closed}) \<and>
     (\<forall>w \<in> set (t_waits f). w \<noteq> WBye \<longrightarrow> active f \<or> t_state f = FDone \<and> w = WRemoteAnswer) \<and>
     (\<forall>c. t_dc f = Some c \<longrightarrow> on_message c \<longrightarrow> active f) \<and>
     (t_reader f \<noteq> None \<longrightarrow> t_dc f \<noteq> None \<longrightarrow> active f) \<and>
     (t_up f \<or> t_reader f = None) \<and>
     (t_state f = FDone \<longrightarrow> \<not> t_up f) \<and>
     t_state f \<noteq> Cancelled"

definition keeps :: "transfer \<Rightarrow> result \<Rightarrow> bool" where
  "keeps f r \<longleftrightarrow>
     t_userid (fst r) = t_userid f \<and> t_id (fst r) = t_id f \<and> t_up (fst r) = t_up f \<and>
     path_to (t_state f) (events_of (snd r)) (t_state (fst r)) \<and>
     (t_state (fst r) = Closed \<longrightarrow> t_state f = Closed \<or> Unlist \<in> set (snd r)) \<and>
     t_ok (fst r)"

lemmas op_defs = seq_def event_def close_def sendFileCancel_def add_wait_def set_channel_def

lemma t_ok_reader: "t_ok f \<Longrightarrow> t_up f \<or> t_reader f = None"
  by (simp add: t_ok_def)

lemma t_ok_not_Cancelled: "t_ok f \<Longrightarrow> t_state f \<noteq> Cancelled"
  by (simp add: t_ok_def)

lemma keeps_same: "t_ok f \<Longrightarrow> keeps f (f, [])"
  by (simp add: keeps_def)

lemma close_simps [simp]:
  "t_state (fst (close f)) = Closed"
  "events_of (snd (close f)) = (if t_state f = Closed then [] else [Closed])"
  "Unlist \<in> set (snd (close f)) \<longleftrightarrow> t_state f \<noteq> Closed"
  "t_userid (fst (close f)) = t_userid f" "t_id (fst (close f)) = t_id f" "t_up (fst (close f)) = t_up f"
  by (auto simp: close_def seq_def event_def)

lemma t_ok_close:
  "t_state f \<noteq> Closed \<or> t_ok f \<Longrightarrow> t_up f \<or> t_reader f = None \<Longrightarrow> t_ok (fst (close f))"
  by (auto simp: t_ok_def close_def seq_def event_def active_def)

lemma keeps_close: "t_ok f \<Longrightarrow> t_state f \<in> {FDone, Closed} \<Longrightarrow> keeps f (close f)"
  by (auto simp: keeps_def t_ok_close t_ok_reader)

lemma cancel_eq:
  "cancel why f =
     (if t_state f = Closed then (f, [])
      else let g = (if t_state f \<in> {FDone, Cancelled} then f else f\<lparr>t_state := Cancelled\<rparr>)
           in (fst (close g),
               (if t_state f \<in> {Start, FDone, Cancelled} then [] else [sendFileCancel (t_userid f) (t_id f) why]) @
               (if t_state f \<in> {FDone, Cancelled} then [] else [Event Cancelled (Why why)]) @ snd (close g)))"
  by (simp add: cancel_def seq_def event_def Let_def)

lemma events_sendFileCancel [simp]: "events_of (sendFileCancel u i why # es) = events_of es"
  by (simp add: sendFileCancel_def)

lemma keeps_cancel:
  assumes "t_userid f' = t_userid f" "t_id f' = t_id f" "t_up f' = t_up f" "t_state f' = t_state f" and "t_ok f"
    and "t_state f = Closed \<Longrightarrow> t_ok f'" and "t_reader f' = t_reader f \<or> t_reader f' = None"
  shows "keeps f (cancel why f')"
proof -
  have "t_state f \<noteq> Cancelled" using assms(5) by (simp add: t_ok_def)
  moreover have "t_up f' \<or> t_reader f' = None" using assms(3,7) t_ok_reader [OF assms(5)] by auto
  ultimately show ?thesis
    using assms(1-6) by (cases "t_state f") (simp_all add: keeps_def cancel_eq Let_def t_ok_close)
qed

lemma keeps_fail: "t_ok f \<Longrightarrow> keeps f (fail why f)"
  using t_ok_not_Cancelled [of f] t_ok_reader [of f]
  by (cases "t_state f") (simp_all add: keeps_def fail_def seq_def event_def t_ok_close)

lemma keeps_cancelled: "t_ok f \<Longrightarrow> t_state f \<notin> {Start, Closed} \<Longrightarrow> keeps f (seq (event Cancelled why f) close)"
  using t_ok_not_Cancelled [of f] t_ok_reader [of f]
  by (cases "t_state f") (simp_all add: keeps_def seq_def event_def t_ok_close)

lemma keeps_accept: "t_ok f \<Longrightarrow> keeps f (accept made f)"
proof -
  assume f: "t_ok f"
  show ?thesis
  proof (cases "t_state f = Inviting \<and> \<not> t_up f \<and> made")
    case True
    then show ?thesis using f
      by (simp add: accept_def receive_def keeps_def seq_def event_def add_wait_def t_ok_def active_def new_channel_def)
  next
    case False
    then show ?thesis using keeps_fail [OF f] keeps_same [OF f] by (auto simp: accept_def receive_def)
  qed
qed

lemma keeps_answer:
  assumes "t_ok f" and "t_state f \<notin> {Start, Closed}"
  shows "keeps f (answer made (f\<lparr>t_version := v\<rparr>))"
proof -
  let ?f = "f\<lparr>t_version := v\<rparr>"
  have "t_ok ?f" using assms(1) by (auto simp: t_ok_def active_def)
  then have same: "keeps f r" if "keeps ?f r" for r using that by (simp add: keeps_def)
  have c: "keeps ?f (cancel why ?f)" for why using \<open>t_ok ?f\<close> by (intro keeps_cancel) simp_all
  show ?thesis
  proof (cases "t_up f \<and> t_pc f = None \<and> made")
    case True
    then have "t_state f = Inviting" using assms by (cases "t_state f") (auto simp: t_ok_def active_def)
    then show ?thesis using True assms
      by (simp add: answer_def keeps_def seq_def event_def add_wait_def t_ok_def active_def)
  next
    case False
    then show ?thesis using same c keeps_fail [OF \<open>t_ok ?f\<close>] by (auto simp: answer_def)
  qed
qed

lemma keeps_receiveFile: "t_ok f \<Longrightarrow> keeps f (receiveFile f)"
  using keeps_cancel [of f f]
  by (auto simp: receiveFile_def) (auto simp: keeps_def add_wait_def t_ok_def active_def)

lemma keeps_on_ice: "t_ok f \<Longrightarrow> keeps f (on_ice c f)"
proof (cases "t_pc f")
  case (Some st)
  moreover assume "t_ok f"
  then have "t_ok (f\<lparr>t_candidates := cs\<rparr>)" for cs by (auto simp: t_ok_def active_def)
  ultimately show ?thesis using \<open>t_ok f\<close> by (simp add: on_ice_def keeps_def)
qed (simp add: on_ice_def keeps_same)

lemma keeps_onicecandidate: "t_ok f \<Longrightarrow> keeps f (onicecandidate c f)"
  by (simp add: onicecandidate_def keeps_def)

lemma keeps_waits: "keeps (f\<lparr>t_waits := ws\<rparr>) r \<longleftrightarrow> keeps f r"
  by (simp add: keeps_def)

lemma t_ok_waits: "t_ok f \<Longrightarrow> set ws \<subseteq> set (t_waits f) \<Longrightarrow> t_ok (f\<lparr>t_waits := ws\<rparr>)"
  by (auto simp: t_ok_def active_def)

lemma t_ok_add_wait:
  "t_ok f \<Longrightarrow> active f \<or> t_state f = FDone \<and> w = WRemoteAnswer \<Longrightarrow> w \<noteq> WBye \<Longrightarrow> t_ok (add_wait w f)"
  by (auto simp: t_ok_def active_def add_wait_def)

lemma t_ok_pc: "t_ok f \<Longrightarrow> active f \<Longrightarrow> t_ok (f\<lparr>t_pc := Some b\<rparr>)"
  by (auto simp: t_ok_def active_def)

lemma keeps_connected:
  assumes "t_ok f" and "active f" and "t_state f' = Connected" and "events_of es = [Connected]"
    and "t_userid f' = t_userid f" and "t_id f' = t_id f" and "t_up f' = t_up f"
    and "t_dc f' = t_dc f" and "t_waits f' = t_waits f" and "t_pc f' \<noteq> None"
    and "t_up f \<or> t_reader f' = None"
  shows "keeps f (f', es)"
proof -
  have "path_to (t_state f) (events_of es) (t_state f')" using assms(2,3,4) by (auto simp: active_def)
  moreover have "t_ok f'"
    using assms(1,2,3,7-11) unfolding t_ok_def active_def by auto
  ultimately show ?thesis using assms(3,5,6,7) by (simp add: keeps_def)
qed

lemma keeps_continue:
  assumes f: "t_ok f"
    and bye: "w = WBye \<Longrightarrow> t_state f \<in> {FDone, Closed}"
    and neg: "w \<noteq> WBye \<Longrightarrow> active f \<or> t_state f = FDone \<and> w = WRemoteAnswer"
    and settles: "\<And>v. w = WRemoteAnswer \<Longrightarrow> o' = Settled v \<Longrightarrow> active f"
  shows "keeps f (continue w o' f)"
proof -
  have c: "keeps f (cancel why f)" for why using f by (intro keeps_cancel) simp_all
  have add: "keeps f (add_wait v f, [])" if "active f" "v \<noteq> WBye" for v
    using t_ok_add_wait [OF f] that by (simp add: keeps_def) (simp add: add_wait_def)
  have pc: "keeps f (f\<lparr>t_pc := Some b\<rparr>, [Say u m])" if "active f" for b u m
    using t_ok_pc [OF f that] by (simp add: keeps_def)
  have both: "keeps f (add_wait v (f\<lparr>t_pc := Some b\<rparr>), [])" if "active f" "v \<noteq> WBye" for v b
    using t_ok_add_wait [OF t_ok_pc [OF f], of b v] that
    by (auto simp: keeps_def) (auto simp: add_wait_def active_def)
  have conn: "keeps f (seq (flush_candidates f) (event Connected NoData))"
    and conn2: "keeps f (seq (seq (flush_candidates f) (\<lambda>f. (f, [Say (t_userid f) (Answer (t_id f) m)]))) (event Connected NoData))"
    if "active f" for m
    using f that t_ok_reader [OF f] by (auto simp: seq_def flush_candidates_def event_def intro!: keeps_connected)
  show ?thesis
    using c keeps_same [OF f] keeps_close [OF f] bye neg settles
    by (cases w; cases o') (auto intro: add pc both conn conn2)
qed

lemma keeps_resume_wait:
  assumes f: "t_ok f"
  shows "keeps f (resume_wait w o' f)"
proof (cases "may_settle w o' f")
  case True
  let ?g = "f\<lparr>t_waits := remove1 w (t_waits f)\<rparr>"
  have w: "w \<in> set (t_waits f)" using True by (simp add: may_settle_def)
  have "t_ok ?g" using f by (rule t_ok_waits) (rule set_remove1_subset)
  moreover have "w = WBye \<Longrightarrow> t_state ?g \<in> {FDone, Closed}" using f w by (simp add: t_ok_def)
  moreover have "w \<noteq> WBye \<Longrightarrow> active ?g \<or> t_state ?g = FDone \<and> w = WRemoteAnswer"
    using f w by (auto simp: t_ok_def active_def)
  moreover have "active ?g" if "w = WRemoteAnswer" "o' = Settled v" for v
    using f True that by (auto simp: t_ok_def active_def may_settle_def)
  ultimately have "keeps ?g (continue w o' ?g)" by (rule keeps_continue)
  then show ?thesis using True by (simp add: resume_wait_def keeps_waits)
next
  case False
  then show ?thesis using f by (simp add: resume_wait_def keeps_same)
qed

lemma keeps_opens: "t_ok f \<Longrightarrow> keeps f (opens chunks f)"
proof -
  assume f: "t_ok f"
  have c: "keeps f (cancel why f)" for why using f by (intro keeps_cancel) simp_all
  have "active f" if "t_pc f = Some b" "t_up f" for b using f that by (auto simp: t_ok_def)
  then have "keeps f (f\<lparr>t_dc := Some new_channel, t_reader := rd\<rparr>, [])" if "t_pc f = Some b" "t_up f" for b rd
    using f that by (auto simp: keeps_def t_ok_def active_def)
  then show ?thesis
    using c keeps_same [OF f] by (auto simp: opens_def negotiated_def on_datachannel_def)
qed

lemma keeps_send_step: "t_ok f \<Longrightarrow> keeps f (send_step b sendable f)"
proof -
  assume f: "t_ok f"
  have c: "keeps f (cancel why (f\<lparr>t_reader := None\<rparr>))" for why
    using f by (intro keeps_cancel) (auto simp: t_ok_def active_def)
  have r: "keeps f (f\<lparr>t_reader := rd\<rparr>, [])" if "t_reader f \<noteq> None" for rd
    using f that by (auto simp: keeps_def t_ok_def active_def)
  have "active f" if "t_reader f \<noteq> None" "t_dc f \<noteq> None" using f that by (simp add: t_ok_def)
  then have "keeps f (seq (f\<lparr>t_reader := rd, t_datalen := n\<rparr>, [Transmit m]) (event Connected NoData))"
    if "t_reader f \<noteq> None" "t_dc f \<noteq> None" for rd n m
    using f that by (auto simp: seq_def event_def t_ok_def intro!: keeps_connected)
  then show ?thesis
    using c r keeps_same [OF f] by (auto simp: send_step_def split: option.split list.split)
qed

lemma keeps_on_reply: "t_ok f \<Longrightarrow> active f \<Longrightarrow> keeps f (on_reply m f)"
  using keeps_cancel [of f f]
  by (auto simp: on_reply_def) (auto simp: keeps_def seq_def event_def active_def t_ok_close t_ok_reader)

lemma t_ok_data: "t_ok f \<Longrightarrow> t_ok (f\<lparr>t_data := d, t_datalen := n\<rparr>)"
  by (auto simp: t_ok_def active_def)

lemma t_ok_on_end: "t_ok f \<Longrightarrow> t_ok (set_channel (\<lambda>c. c\<lparr>on_end := e\<rparr>) f)"
  by (cases "t_dc f") (auto simp: t_ok_def active_def set_channel_def)

lemma t_ok_bye: "t_ok f \<Longrightarrow> t_state f = FDone \<Longrightarrow> t_ok (add_wait WBye f)"
  by (auto simp: t_ok_def active_def add_wait_def)

text \<open>The end of a download: the transfer is done, and waits for the channel to end unless the handshake
  could not be sent.\<close>

lemma keeps_done:
  assumes f: "t_ok f" and "negotiated f" and "active f" and "\<not> t_up f"
    and "g = f\<lparr>t_dc := map_option (\<lambda>c. c\<lparr>on_message := False\<rparr>) (t_dc f), t_data := d, t_datalen := n\<rparr>"
  shows "keeps f (seq (event FDone (Blob b) g) (say_done sendable))"
proof -
  let ?g = "g\<lparr>t_state := FDone\<rparr>"
  have rd: "t_reader f = None" using t_ok_reader [OF f] assms(4) by simp
  have pc: "t_pc f = Some True" "set (t_waits f) \<subseteq> {WRemoteAnswer, WBye}" using assms(2) by (auto simp: negotiated_def)
  then have "t_dc f \<noteq> None \<longrightarrow> t_pc f \<noteq> None" by simp
  then have g: "t_ok ?g" using rd pc assms(4) by (auto simp: t_ok_def assms(5) active_def)
  let ?h = "set_channel (\<lambda>c. c\<lparr>on_end := EndResolves\<rparr>) ?g"
  have h: "t_ok ?h" using g by (rule t_ok_on_end)
  have "t_ok (add_wait WBye ?h)" using h by (rule t_ok_bye) (simp add: set_channel_def)
  moreover have "keeps ?g (cancel JObject ?h)" using g h by (intro keeps_cancel) (simp_all add: set_channel_def)
  ultimately have "keeps ?g (say_done sendable ?g)"
    by (auto simp: say_done_def Let_def) (auto simp: keeps_def add_wait_def set_channel_def)
  then show ?thesis
    using assms(3,5) by (auto simp: keeps_def seq_def event_def active_def)
qed

lemma keeps_receiveData:
  assumes f: "t_ok f" and neg: "negotiated f" and act: "active f" and down: "\<not> t_up f"
  shows "keeps f (receiveData sendable m f)"
proof (cases "bufferData m f")
  case None
  have "keeps f (cancel why f)" for why using f by (intro keeps_cancel) simp_all
  then show ?thesis using None by (simp add: receiveData_def)
next
  case (Some f1)
  obtain d n where f1: "f1 = f\<lparr>t_datalen := n, t_data := d\<rparr>"
    using Some by (cases m) (auto split: if_splits)
  let ?c = "map_option (\<lambda>c. c\<lparr>on_message := False\<rparr>) (t_dc f)"
  let ?f2 = "set_channel (\<lambda>c. c\<lparr>on_message := False\<rparr>) f1"
  have ok: "t_ok ?f2" using f by (auto simp: f1 set_channel_def t_ok_def active_def)
  have c: "keeps f (cancel why (f\<lparr>t_dc := ?c, t_data := d', t_datalen := n'\<rparr>))" for why d' n'
    using f by (intro keeps_cancel) (auto simp: t_ok_def active_def)
  have conn: "keeps f (event Connected NoData f1)"
    using f act t_ok_reader [OF f] by (auto simp: event_def f1 t_ok_def intro!: keeps_connected)
  have fin: "keeps f (seq (event FDone (Blob b) (f\<lparr>t_dc := ?c, t_data := d', t_datalen := n'\<rparr>)) (say_done sendable))" for b d' n'
    using f neg act down by (rule keeps_done) simp
  have f2: "?f2 = f\<lparr>t_dc := ?c, t_data := d, t_datalen := n\<rparr>" by (simp add: f1 set_channel_def)
  show ?thesis
    unfolding receiveData_def Some
    using conn c fin by (auto simp: Let_def f2 getBufferedData_def split: option.split)
qed

lemma keeps_hears: "t_ok f \<Longrightarrow> keeps f (hears sendable m f)"
  using keeps_receiveData [of f sendable m] keeps_on_reply [of f m] keeps_same [of f]
  by (auto simp: hears_def channel_message_def t_ok_def split: option.split)

lemma keeps_channel_end: "t_ok f \<Longrightarrow> keeps f (channel_end why f)"
proof -
  assume f: "t_ok f"
  have c: "keeps f (cancel why f)" using f by (intro keeps_cancel) simp_all
  then show ?thesis using keeps_same [OF f] keeps_resume_wait [OF f]
    by (auto simp: channel_end_def split: option.split on_end.split)
qed

section \<open>The table of transfers\<close>

definition history :: "page \<Rightarrow> nat \<Rightarrow> fstate list" where
  "history p k = map snd (filter (\<lambda>x. fst x = k) (reported p))"

definition first_state :: "transfer \<Rightarrow> fstate" where
  "first_state f = (if t_up f then Start else Inviting)"

definition page_inv :: "page \<Rightarrow> bool" where
  "page_inv p \<longleftrightarrow>
     (\<forall>k < length (heap p). t_ok (heap p ! k) \<and>
        path_to (first_state (heap p ! k)) (history p k) (t_state (heap p ! k))) \<and>
     (\<forall>x \<in> set (reported p). fst x < length (heap p)) \<and>
     (\<forall>fid k. map_get (listed p) fid = Some k \<longrightarrow>
        k < length (heap p) \<and> fullid (heap p ! k) = fid \<and> t_state (heap p ! k) \<notin> {Start, Closed})"

lemma fold_effects:
  "heap (fold (effect_on k fid) es p) = heap p"
  "page_users (fold (effect_on k fid) es p) = page_users p"
  "reported (fold (effect_on k fid) es p) = reported p @ map (Pair k) (events_of es)"
  "map_get (listed (fold (effect_on k fid) es p)) =
     (if Unlist \<in> set es then (map_get (listed p))(fid := None) else map_get (listed p))"
proof (induction es arbitrary: p)
  case (Cons e es)
  { case 1 then show ?case by (cases e) (simp_all add: Cons.IH) }
  { case 2 then show ?case by (cases e) (simp_all add: Cons.IH) }
  { case 3 then show ?case by (cases e) (simp_all add: Cons.IH) }
  { case 4 then show ?case by (cases e) (auto simp: Cons.IH delete_conv' fun_eq_iff) }
qed simp_all

lemma path_to_not_Start: "path_to s xs Start \<Longrightarrow> s = Start"
proof (induction xs arbitrary: s)
  case (Cons x xs)
  then have "x = Start" by simp
  with Cons.prems show ?case by (cases s) simp_all
qed simp

lemma page_inv_run_on:
  assumes p: "page_inv p" and g: "k < length (heap p) \<Longrightarrow> keeps (heap p ! k) (g (heap p ! k))"
  shows "page_inv (run_on k g p)"
proof (cases "k < length (heap p)")
  case False
  then show ?thesis using p by (simp add: run_on_def)
next
  case True
  let ?f = "heap p ! k"
  obtain f' es where r: "g ?f = (f', es)" by (cases "g ?f")
  have ids: "fullid f' = fullid ?f" "t_up f' = t_up ?f" and path: "path_to (t_state ?f) (events_of es) (t_state f')"
    and ok: "t_ok f'" and unl: "t_state f' = Closed \<longrightarrow> t_state ?f = Closed \<or> Unlist \<in> set es"
    using g [OF True] by (auto simp: r keeps_def fullid_def)
  let ?p = "run_on k g p"
  have eq: "heap ?p = (heap p)[k := f']" "reported ?p = reported p @ map (Pair k) (events_of es)"
    "map_get (listed ?p) = (if Unlist \<in> set es then (map_get (listed p))(fullid ?f := None) else map_get (listed p))"
    using True by (simp_all add: run_on_def r fold_effects)
  have hist: "history ?p j = (if j = k then history p k @ events_of es else history p j)" for j
    by (auto simp: history_def eq filter_map comp_def filter_empty_conv)
  have old: "path_to (first_state ?f) (history p k) (t_state ?f)" using p True by (simp add: page_inv_def)
  have "path_to (first_state f') (history p k @ events_of es) (t_state f')"
    unfolding path_to_append using old path by (auto simp: first_state_def ids)
  moreover have "t_state f' \<noteq> Start" if "t_state ?f \<noteq> Start"
    using path_to_not_Start path that by metis
  ultimately show ?thesis
    using p ok True ids unl unfolding page_inv_def
    by (auto simp: eq hist nth_list_update split: if_splits)
qed

lemma run_on_simps:
  "length (heap (run_on k g p)) = length (heap p)"
  "k < length (heap p) \<Longrightarrow> heap (run_on k g p) = (heap p)[k := fst (g (heap p ! k))]"
  by (simp_all add: run_on_def Let_def case_prod_beta fold_effects)

lemma page_inv_on_listed:
  assumes p: "page_inv p"
    and g: "\<And>f. t_ok f \<Longrightarrow> t_state f \<notin> {Start, Closed} \<Longrightarrow> keeps f (g f)"
  shows "page_inv (on_listed u i g p)"
proof (cases "getTransferredFile u i p")
  case (Some k)
  then have "k < length (heap p) \<and> t_ok (heap p ! k) \<and> t_state (heap p ! k) \<notin> {Start, Closed}"
    using p by (auto simp: page_inv_def getTransferredFile_def)
  then show ?thesis using Some p g by (simp add: on_listed_def page_inv_run_on)
qed (simp add: on_listed_def p)

lemma page_inv_new:
  assumes p: "page_inv p" and f: "t_ok f" "t_state f = first_state f"
  shows "page_inv (snd (new_transfer f p))"
proof -
  have "history (snd (new_transfer f p)) (length (heap p)) = []"
    using p by (auto simp: history_def new_transfer_def page_inv_def filter_empty_conv)
  then show ?thesis
    using p f by (fastforce simp: page_inv_def new_transfer_def history_def nth_append less_Suc_eq)
qed

lemma page_inv_list_it:
  assumes "page_inv p" and "k < length (heap p)" and "t_state (heap p ! k) \<notin> {Start, Closed}"
  shows "page_inv (list_it k p)"
  using assms by (auto simp: page_inv_def list_it_def history_def update_conv')

lemma page_inv_say: "page_inv (say u m p) \<longleftrightarrow> page_inv p"
  by (simp add: page_inv_def say_def history_def)

lemma page_inv_users: "page_inv (p\<lparr>page_users := us\<rparr>) \<longleftrightarrow> page_inv p"
  by (simp add: page_inv_def history_def)

lemma TransferredFile_simps [simp]:
  "t_state (TransferredFile u i b un n m z) = Start" "t_up (TransferredFile u i b un n m z) = b"
  "t_userid (TransferredFile u i b un n m z) = u" "t_id (TransferredFile u i b un n m z) = i"
  "t_size (TransferredFile u i b un n m z) = z"
  by (simp_all add: TransferredFile_def)

lemma t_ok_new:
  "t_ok ((TransferredFile u i b un n m z)\<lparr>t_file := file\<rparr>)"
  "t_ok ((TransferredFile u i b un n m z)\<lparr>t_version := v, t_state := Inviting\<rparr>)"
  by (simp_all add: TransferredFile_def t_ok_def active_def)

lemma page_inv_cancel: "page_inv p \<Longrightarrow> page_inv (run_on k (cancel why) p)"
  by (rule page_inv_run_on) (auto simp: page_inv_def intro: keeps_cancel)

lemma page_inv_ask: "page_inv p \<Longrightarrow> page_inv (fst (ask_page k d p))"
  by (cases d) (simp_all add: page_inv_cancel)

lemma ask_page_heap:
  "length (heap (fst (ask_page k d p))) = length (heap p)"
  by (cases d) (simp_all add: run_on_simps)

text \<open>Listing a transfer and then reporting \<open>inviting\<close> is the same the other way round.\<close>

lemma invite_after_listing:
  "run_on k (event Inviting NoData) (say u m (list_it k p)) = say u m (list_it k (run_on k (event Inviting NoData) p))"
  by (simp add: run_on_def event_def say_def list_it_def fullid_def)

lemma page_inv_sendFile:
  assumes p: "page_inv p"
  shows "page_inv (sendFile i fileid name mimetype file d p)"
proof (cases "map_get (page_users p) i")
  case (Some un)
  let ?f = "(TransferredFile i fileid True un name mimetype (Some (of_nat (length file))))\<lparr>t_file := file\<rparr>"
  let ?k = "length (heap p)" and ?p = "snd (new_transfer ?f p)"
  let ?q = "fst (ask_page ?k d ?p)"
  have "page_inv ?p" using p by (rule page_inv_new) (simp_all add: t_ok_new first_state_def)
  then have q: "page_inv ?q" by (rule page_inv_ask)
  have k: "?k < length (heap ?q)" by (simp add: ask_page_heap new_transfer_def)
  show ?thesis
  proof (cases "snd (ask_page ?k d ?p) \<and> t_state (heap ?q ! ?k) \<noteq> Closed")
    case False
    then show ?thesis using q Some
      by (auto simp: sendFile_def Let_def new_transfer_def split: prod.splits)
  next
    case True
    have "d = Kept" using True
      by (cases d) (auto simp: run_on_simps new_transfer_def cancel_eq Let_def TransferredFile_def)
    then have st: "t_state (heap ?q ! ?k) = Start" by (simp add: new_transfer_def)
    have "t_ok (heap ?q ! ?k)" using q k by (simp add: page_inv_def)
    then have "keeps (heap ?q ! ?k) (event Inviting NoData (heap ?q ! ?k))"
      using st by (auto simp: event_def keeps_def t_ok_def active_def)
    then have "page_inv (run_on ?k (event Inviting NoData) ?q)" by (intro page_inv_run_on q)
    moreover have "t_state (heap (run_on ?k (event Inviting NoData) ?q) ! ?k) = Inviting"
      using k by (simp add: run_on_simps event_def)
    ultimately have "page_inv (list_it ?k (run_on ?k (event Inviting NoData) ?q))"
      using k by (intro page_inv_list_it) (simp_all add: run_on_simps)
    then show ?thesis using True Some
      by (auto simp: sendFile_def Let_def new_transfer_def invite_after_listing page_inv_say split: prod.splits)
  qed
qed (simp add: sendFile_def p)

fun cancels_inside :: "decision \<Rightarrow> bool" where
  "cancels_inside (CancelledIt _) = True"
| "cancels_inside _ = False"

lemma page_inv_invite:
  assumes p: "page_inv p" and d: "\<not> cancels_inside d"
  shows "page_inv (on_invite u un v i n m z d p)"
proof -
  let ?f = "(TransferredFile u i False un n z m)\<lparr>t_version := Some (js ''1''), t_state := Inviting\<rparr>"
  let ?k = "length (heap p)" and ?p = "snd (new_transfer ?f p)"
  have new: "page_inv ?p" using p by (rule page_inv_new) (simp_all add: t_ok_new first_state_def)
  have "page_inv (list_it ?k ?p)"
    using new by (rule page_inv_list_it) (simp_all add: new_transfer_def)
  moreover have "page_inv (run_on ?k (cancel why) ?p)" for why using new by (rule page_inv_cancel)
  ultimately show ?thesis
    using p d by (cases d) (simp_all add: on_invite_def page_inv_say Let_def new_transfer_def)
qed

lemma page_inv_fileTransfer:
  assumes p: "page_inv p" and d: "\<not> cancels_inside d"
  shows "page_inv (fileTransfer u un m d made p)"
proof (cases m)
  case (Invite v i n z mt)
  then show ?thesis using page_inv_invite [OF p d] by simp
next
  case (Offer v i sdp)
  have "keeps f (if version_known v then answer made (f\<lparr>t_version := Some (js ''1'')\<rparr>)
      else cancel (text_of ''Unknown protocol version'') f)" if "t_ok f" "t_state f \<notin> {Start, Closed}" for f
    using that keeps_answer keeps_cancel [of f f] by simp
  then show ?thesis using page_inv_on_listed [OF p] by (simp add: Offer)
next
  case (CancelMsg i why)
  then show ?thesis using page_inv_on_listed [OF p] keeps_cancelled by simp
next
  case (Obsolete i)
  then show ?thesis using page_inv_on_listed [OF p] keeps_cancel by simp
qed (use p page_inv_on_listed [OF p] keeps_receiveFile keeps_on_ice in simp_all)

lemma page_inv_fails:
  "page_inv p \<Longrightarrow> page_inv (fold (\<lambda>k p. if P k p then run_on k (fail why) p else p) ks p)"
proof (induction ks arbitrary: p)
  case (Cons k ks)
  have "page_inv (run_on k (fail why) p)"
    using Cons.prems by (rule page_inv_run_on) (use Cons.prems in \<open>simp add: page_inv_def keeps_fail\<close>)
  then show ?case using Cons by simp
qed simp

definition invites_kept :: "tr_event \<Rightarrow> bool" where
  "invites_kept e \<longleftrightarrow> (case e of Message u un m d made \<Rightarrow> \<not> cancels_inside d | _ \<Rightarrow> True)"

lemma page_inv_step:
  assumes p: "page_inv p" and e: "invites_kept e"
  shows "page_inv (tr_step p e)"
proof -
  have run: "page_inv (run_on k g p)" if "\<And>f. t_ok f \<Longrightarrow> keeps f (g f)" for k g
    using p that by (intro page_inv_run_on) (simp_all add: page_inv_def)
  show ?thesis
  proof (cases e)
    case (Message u un m d made)
    then show ?thesis using e page_inv_fileTransfer [OF p] by (simp add: invites_kept_def)
  next
    case (UserGone i)
    then show ?thesis using p by (simp add: user_gone_def Let_def page_inv_users page_inv_fails)
  qed (use p run keeps_accept keeps_cancel keeps_resume_wait keeps_opens keeps_hears keeps_channel_end
        keeps_send_step keeps_onicecandidate in \<open>simp_all add: page_inv_sendFile page_inv_users\<close>)
qed

interpretation transfers: machine "\<lambda>p e. if invites_kept e then tr_step p e else p" page_inv
  by unfold_locales (simp add: page_inv_step)

lemma page_inv_run:
  assumes "list_all invites_kept es"
  shows "page_inv (foldl tr_step page_init es)"
proof -
  have "foldl (\<lambda>p e. if invites_kept e then tr_step p e else p) p es = foldl tr_step p es" for p
    using assms by (induction es arbitrary: p) simp_all
  moreover have "page_inv page_init" by (simp add: page_inv_def page_init_def)
  ultimately show ?thesis using transfers.run_inv [of page_init es] by simp
qed


definition an_invite :: fmsg where
  "an_invite = Invite (Some [text_of ''1'']) (js ''x'') [] (Some 5) []"


text \<open>An invitation that the page cancels from inside its callback is closed and yet listed, so that
  a later invitation with the same id is refused as a duplicate.\<close>

theorem cancelled_invite_stays_listed:
  "let p = tr_step page_init (Message (js ''a'') [] an_invite (CancelledIt why) True);
       q = tr_step p (Message (js ''a'') [] an_invite Kept True)
   in map_get (listed p) (js ''a'' @ js ''-'' @ js ''x'') = Some 0 \<and> t_state (heap p ! 0) = Closed \<and>
      heap q = heap p \<and> said q = said p @ [(js ''a'', CancelMsg (js ''x'') (Some (text_of ''Duplicate file transfer id'')))]"
  by (simp add: Let_def an_invite_def on_invite_def version_known_def new_transfer_def page_init_def list_it_def
    run_on_def cancel_eq close_def seq_def event_def TransferredFile_def sendFileCancel_def fullid_def say_def)

section \<open>Whose transfers a message reaches\<close>

definition dash_free :: "jstr \<Rightarrow> bool" where
  "dash_free u \<longleftrightarrow> hd (js ''-'') \<notin> set u"

lemma dash_free_prefix:
  assumes "dash_free a" and "dash_free b" and "a @ js ''-'' @ x = b @ js ''-'' @ y"
  shows "a = b"
proof -
  have *: "takeWhile (\<lambda>c. c \<noteq> hd (js ''-'')) (s @ js ''-'' @ z) = s" if "dash_free s" for s z
    using that by (induction s) (auto simp: dash_free_def js_def)
  show ?thesis using * [OF assms(1), of x] * [OF assms(2), of y] assms(3) by simp
qed

lemma heap_run_on_other: "k \<noteq> j \<Longrightarrow> heap (run_on j g p) ! k = heap p ! k"
  by (cases "j < length (heap p)") (simp_all add: run_on_simps, simp add: run_on_def)

text \<open>Whatever a user sends, the transfers with other users stay as they are, provided the ids of users
  have no dash.\<close>

theorem messages_reach_own_transfers:
  assumes "list_all invites_kept es" and "p = foldl tr_step page_init es"
    and "dash_free u" and "list_all (\<lambda>f. dash_free (t_userid f)) (heap p)"
    and "k < length (heap p)" and "t_userid (heap p ! k) \<noteq> u"
  shows "heap (fileTransfer u un m d made p) ! k = heap p ! k"
proof -
  have inv: "page_inv p" using page_inv_run [OF assms(1)] assms(2) by simp
  have listed: "heap (on_listed u i g p) ! k = heap p ! k" for i g
  proof (cases "getTransferredFile u i p")
    case (Some j)
    then have j: "j < length (heap p)" "t_userid (heap p ! j) @ js ''-'' @ t_id (heap p ! j) = u @ js ''-'' @ i"
      using inv by (auto simp: page_inv_def getTransferredFile_def fullid_def)
    have "dash_free (t_userid (heap p ! j))" using assms(4) j(1) by (simp add: list_all_length)
    then have "t_userid (heap p ! j) = u" using dash_free_prefix [OF _ assms(3) j(2)] by blast
    then show ?thesis using Some assms(6) by (auto simp: on_listed_def intro!: heap_run_on_other)
  qed (simp add: on_listed_def)
  have "heap (on_invite u un v i n z mt d p) ! k = heap p ! k" for v i n z mt
    using assms(5)
    by (cases d) (simp_all add: on_invite_def say_def new_transfer_def list_it_def Let_def heap_run_on_other nth_append)
  then show ?thesis using listed by (cases m) simp_all
qed

theorem messages_reach_own_transfers_witness:
  "let p = tr_step page_init (Message (js ''a'') [] an_invite Kept True)
   in heap (fileTransfer (js ''b'') [] (CancelMsg (js ''x'') None) Kept True p) ! 0 = heap p ! 0"
proof -
  let ?es = "[Message (js ''a'') [] an_invite Kept True]"
  let ?p = "foldl tr_step page_init ?es"
  have h: "heap ?p = [(TransferredFile (js ''a'') (js ''x'') False [] [] [] (Some 5))
      \<lparr>t_version := Some (js ''1''), t_state := Inviting\<rparr>]"
    by (simp add: an_invite_def on_invite_def version_known_def new_transfer_def page_init_def list_it_def Let_def)
  have "heap (fileTransfer (js ''b'') [] (CancelMsg (js ''x'') None) Kept True ?p) ! 0 = heap ?p ! 0"
  proof (rule messages_reach_own_transfers [of ?es, OF _ refl])
    show "list_all invites_kept ?es" by (simp add: invites_kept_def)
    show "dash_free (js ''b'')" by (simp add: dash_free_def js_def)
    show "list_all (\<lambda>f. dash_free (t_userid f)) (heap ?p)" unfolding h by (simp add: dash_free_def js_def)
    show "0 < length (heap ?p)" unfolding h by simp
    show "t_userid (heap ?p ! 0) \<noteq> js ''b''" unfolding h by (simp add: js_def)
  qed
  then show ?thesis by simp
qed

end
