(* ===== verification/FileDelivery.thy ===== *)
theory FileDelivery
  imports FileTransferProps
begin

text \<open>
  Two ends of one file transfer of protocol.js, joined by the ordered and reliable data channel between
  them: what has been written and not yet read waits in a queue for each direction. The ends are the
  operations of FileTransfer; either end may also cancel, or see the channel end, at any time.
\<close>

section \<open>The pair\<close>

record pair =
  pu :: transfer
  pd :: transfer
  down_q :: "chan_msg list"
  up_q :: "chan_msg list"
  u_events :: "fstate list"
  blobs :: "byte list list"

fun transmitted :: "effect list \<Rightarrow> chan_msg list" where
  "transmitted [] = []"
| "transmitted (Transmit m # es) = m # transmitted es"
| "transmitted (_ # es) = transmitted es"

fun blobs_of :: "effect list \<Rightarrow> byte list list" where
  "blobs_of [] = []"
| "blobs_of (Event _ (Blob b) # es) = b # blobs_of es"
| "blobs_of (_ # es) = blobs_of es"

definition uploader_does :: "(transfer \<Rightarrow> result) \<Rightarrow> pair \<Rightarrow> pair" where
  "uploader_does g p =
     (let r = g (pu p)
      in p\<lparr>pu := fst r, down_q := down_q p @ transmitted (snd r), u_events := u_events p @ events_of (snd r)\<rparr>)"

definition downloader_does :: "(transfer \<Rightarrow> result) \<Rightarrow> pair \<Rightarrow> pair" where
  "downloader_does g p =
     (let r = g (pd p)
      in p\<lparr>pd := fst r, up_q := up_q p @ transmitted (snd r), blobs := blobs p @ blobs_of (snd r)\<rparr>)"

datatype pair_event =
    Round nat bool
  | Down bool
  | Up bool
  | CancelUp jsval | CancelDown jsval | EndUp jsval | EndDown jsval

fun pair_step :: "pair \<Rightarrow> pair_event \<Rightarrow> pair" where
  "pair_step p (Round buffered sendable) = uploader_does (send_step buffered sendable) p"
| "pair_step p (Down sendable) =
     (case down_q p of
        [] \<Rightarrow> p
      | m # ms \<Rightarrow> if negotiated (pd p) then downloader_does (hears sendable m) (p\<lparr>down_q := ms\<rparr>) else p)"
| "pair_step p (Up sendable) =
     (case up_q p of
        [] \<Rightarrow> p
      | m # ms \<Rightarrow> if negotiated (pu p) then uploader_does (hears sendable m) (p\<lparr>up_q := ms\<rparr>) else p)"
| "pair_step p (CancelUp why) = uploader_does (cancel why) p"
| "pair_step p (CancelDown why) = downloader_does (cancel why) p"
| "pair_step p (EndUp why) = uploader_does (channel_end why) p"
| "pair_step p (EndDown why) = downloader_does (channel_end why) p"

text \<open>The ends when the channel has just opened.\<close>

definition ready_up :: "byte list \<Rightarrow> byte list list \<Rightarrow> transfer \<Rightarrow> bool" where
  "ready_up file chunks f \<longleftrightarrow>
     t_ok f \<and> t_up f \<and> t_dc f = Some new_channel \<and> t_pc f = Some True \<and> t_waits f = [] \<and>
     t_datalen f = 0 \<and> t_size f = Some (of_nat (length file)) \<and> t_reader f = Some ([], chunks) \<and>
     concat chunks = file"

definition ready_down :: "byte list \<Rightarrow> transfer \<Rightarrow> bool" where
  "ready_down file f \<longleftrightarrow>
     t_ok f \<and> \<not> t_up f \<and> t_dc f = Some new_channel \<and> t_pc f = Some True \<and> t_waits f = [] \<and>
     t_data f = [] \<and> t_datalen f = 0 \<and> t_size f = Some (of_nat (length file))"

definition pair_start :: "transfer \<Rightarrow> transfer \<Rightarrow> pair" where
  "pair_start u d = \<lparr>pu = u, pd = d, down_q = [], up_q = [], u_events = [], blobs = []\<rparr>"

section \<open>Operations that send nothing\<close>

lemma transmitted_append [simp]: "transmitted (xs @ ys) = transmitted xs @ transmitted ys"
  by (induction xs rule: transmitted.induct) auto

lemma blobs_of_append [simp]: "blobs_of (xs @ ys) = blobs_of xs @ blobs_of ys"
  by (induction xs rule: blobs_of.induct) auto

definition quiet :: "result \<Rightarrow> bool" where
  "quiet r \<longleftrightarrow> transmitted (snd r) = [] \<and> blobs_of (snd r) = [] \<and> FDone \<notin> set (events_of (snd r))"

lemma idle_quiet [simp]: "quiet (f, [])"
  by (simp add: quiet_def)

lemma close_fields: "t_state f \<noteq> Closed \<Longrightarrow> t_dc (fst (close f)) = None"
  "transmitted (snd (close f)) = []" "blobs_of (snd (close f)) = []"
  by (auto simp: close_def seq_def event_def)

lemma quiet_close: "quiet (close f)"
  by (simp add: quiet_def close_fields)

lemma quiet_cancel: "quiet (cancel why f)"
  by (simp add: quiet_def cancel_eq Let_def close_fields sendFileCancel_def)

lemma dc_cancel: "t_ok f \<Longrightarrow> t_dc (fst (cancel why f)) = None"
  by (auto simp: cancel_eq Let_def close_fields t_ok_def active_def)

lemma resume_bye:
  "resume_wait WBye (Settled v) f =
     (if WBye \<in> set (t_waits f) then close (f\<lparr>t_waits := remove1 WBye (t_waits f)\<rparr>) else (f, []))"
  by (simp add: resume_wait_def may_settle_def)

lemma channel_end_cases:
  "channel_end why f = (f, []) \<or> channel_end why f = cancel why f \<or>
   channel_end why f = close (f\<lparr>t_waits := remove1 WBye (t_waits f)\<rparr>)"
  by (simp add: channel_end_def resume_bye split: option.split on_end.split)

lemma quiet_channel_end: "quiet (channel_end why f)"
  using channel_end_cases [of why f] by (auto simp: quiet_cancel quiet_close)

text \<open>When the channel ends it is gone from the transfer, or nothing happens.\<close>

lemma dc_channel_end:
  assumes "t_ok f"
  shows "t_dc (fst (channel_end why f)) = None \<or> fst (channel_end why f) = f"
proof -
  have "t_dc (fst (close (f\<lparr>t_waits := ws\<rparr>))) = None" for ws
  proof (cases "t_state f = Closed")
    case True
    then have "t_dc f = None" using assms by (auto simp: t_ok_def active_def)
    then show ?thesis using True by (simp add: close_def)
  qed (simp add: close_fields)
  then show ?thesis using dc_cancel [OF assms] channel_end_cases [of why f] by auto
qed

section \<open>What has been sent is a prefix of the file\<close>

definition unsent :: "transfer \<Rightarrow> byte list" where
  "unsent f = (case t_reader f of None \<Rightarrow> [] | Some (ps, cs) \<Rightarrow> concat ps @ concat cs)"

fun bytes_of :: "chan_msg list \<Rightarrow> byte list" where
  "bytes_of [] = []"
| "bytes_of (Bytes b # ms) = b @ bytes_of ms"
| "bytes_of (TextMsg _ # ms) = bytes_of ms"

fun is_bytes :: "chan_msg \<Rightarrow> bool" where
  "is_bytes (Bytes _) = True"
| "is_bytes (TextMsg _) = False"

lemma bytes_of_append [simp]: "bytes_of (xs @ ys) = bytes_of xs @ bytes_of ys"
  by (induction xs rule: bytes_of.induct) auto

definition listening :: "transfer \<Rightarrow> bool" where
  "listening f \<longleftrightarrow> (case t_dc f of None \<Rightarrow> False | Some c \<Rightarrow> on_message c)"

lemma listening_update [simp]:
  "listening (f\<lparr>t_datalen := n, t_data := d, t_state := st\<rparr>) = listening f"
  by (simp add: listening_def)

definition got :: "pair \<Rightarrow> byte list" where
  "got p = concat (t_data (pd p)) @ bytes_of (down_q p)"

definition pair_inv :: "byte list \<Rightarrow> pair \<Rightarrow> bool" where
  "pair_inv file p \<longleftrightarrow>
     t_ok (pu p) \<and> t_ok (pd p) \<and> t_up (pu p) \<and> \<not> t_up (pd p) \<and>
     t_size (pd p) = Some (of_nat (length file)) \<and>
     list_all is_bytes (down_q p) \<and>
     (if listening (pd p)
      then t_datalen (pd p) = length (concat (t_data (pd p))) \<and> blobs p = [] \<and>
        (\<exists>rest. file = got p @ rest \<and> (t_dc (pu p) \<noteq> None \<longrightarrow> rest = unsent (pu p)))
      else blobs p = [] \<or> blobs p = [file]) \<and>
     (up_q p \<noteq> [] \<or> FDone \<in> set (u_events p) \<longrightarrow> blobs p = [file])"

lemma uploader_simps [simp]:
  "pu (uploader_does g p) = fst (g (pu p))" "pd (uploader_does g p) = pd p"
  "down_q (uploader_does g p) = down_q p @ transmitted (snd (g (pu p)))" "up_q (uploader_does g p) = up_q p"
  "u_events (uploader_does g p) = u_events p @ events_of (snd (g (pu p)))" "blobs (uploader_does g p) = blobs p"
  by (simp_all add: uploader_does_def Let_def)

lemma downloader_simps [simp]:
  "pu (downloader_does g p) = pu p" "pd (downloader_does g p) = fst (g (pd p))"
  "up_q (downloader_does g p) = up_q p @ transmitted (snd (g (pd p)))" "down_q (downloader_does g p) = down_q p"
  "u_events (downloader_does g p) = u_events p" "blobs (downloader_does g p) = blobs p @ blobs_of (snd (g (pd p)))"
  by (simp_all add: downloader_does_def Let_def)

text \<open>An operation that sends nothing keeps the invariant when it leaves the unsent bytes or drops the
  channel.\<close>

lemma keepsD: "keeps f r \<Longrightarrow> t_ok (fst r) \<and> t_up (fst r) = t_up f"
  by (simp add: keeps_def)

lemma pair_inv_quiet_up:
  assumes "pair_inv file p" and "quiet (g (pu p))" and "keeps (pu p) (g (pu p))"
    and "t_dc (fst (g (pu p))) = None \<or>
      t_dc (fst (g (pu p))) = t_dc (pu p) \<and> unsent (fst (g (pu p))) = unsent (pu p)"
  shows "pair_inv file (uploader_does g p)"
  using assms keepsD [OF assms(3)] by (auto simp: pair_inv_def quiet_def got_def)

lemma pair_inv_quiet_down:
  assumes "pair_inv file p" and "quiet (g (pd p))" and "keeps (pd p) (g (pd p))"
    and "t_size (fst (g (pd p))) = t_size (pd p)"
    and "t_dc (fst (g (pd p))) = None \<or> fst (g (pd p)) = pd p"
  shows "pair_inv file (downloader_does g p)"
  using assms keepsD [OF assms(3)] by (auto simp: pair_inv_def quiet_def got_def listening_def split: if_splits)

lemma size_close [simp]: "t_size (fst (close f)) = t_size f"
  by (simp add: close_def seq_def event_def)

lemma size_cancel [simp]: "t_size (fst (cancel why f)) = t_size f"
  by (simp add: cancel_eq Let_def)

lemma size_channel_end: "t_size (fst (channel_end why f)) = t_size f"
  using channel_end_cases [of why f] by auto

lemma pair_inv_round:
  assumes p: "pair_inv file p"
  shows "pair_inv file (uploader_does (send_step b sendable) p)"
proof -
  let ?f = "pu p"
  have ok: "t_ok ?f" using p by (simp add: pair_inv_def)
  note k = keeps_send_step [OF ok, of b sendable]
  consider (none) "t_reader ?f = None" | (fin) "t_reader ?f = Some ([], [])"
    | (chunk) c cs where "t_reader ?f = Some ([], c # cs)" | (piece) q qs cs where "t_reader ?f = Some (q # qs, cs)"
  proof (cases "t_reader ?f")
    case (Some r)
    then show ?thesis using that by (cases r; cases "fst r"; cases "snd r") auto
  qed simp
  then show ?thesis
  proof cases
    case (piece q qs cs)
    show ?thesis
    proof (cases "t_dc ?f = None \<or> b > LOW \<or> \<not> sendable")
      case True
      let ?c = "cancel JObject (?f\<lparr>t_reader := None\<rparr>)"
      have "t_state ?f = Closed \<Longrightarrow> t_dc ?f = None" using ok by (auto simp: t_ok_def active_def)
      then have dc: "t_dc (fst ?c) = None" by (simp add: cancel_eq Let_def close_fields)
      have "send_step b sendable ?f = ?c \<or> send_step b sendable ?f = (?f, [])"
        using True by (auto simp: send_step_def piece)
      then show ?thesis
      proof
        assume s: "send_step b sendable ?f = ?c"
        show ?thesis using p k unfolding s by (intro pair_inv_quiet_up) (simp_all add: s dc quiet_cancel)
      next
        assume s: "send_step b sendable ?f = (?f, [])"
        show ?thesis using p k unfolding s by (intro pair_inv_quiet_up) (simp_all add: s)
      qed
    next
      case False
      then have s: "send_step b sendable ?f =
          (?f\<lparr>t_reader := Some (qs, cs), t_datalen := t_datalen ?f + length q, t_state := Connected\<rparr>,
           [Transmit (Bytes q), Event Connected NoData])"
        by (auto simp: send_step_def piece seq_def event_def)
      have "t_dc ?f \<noteq> None" using False by simp
      then show ?thesis using p keepsD [OF k]
        by (auto simp: pair_inv_def s got_def unsent_def piece)
    qed
  next
    case none
    then show ?thesis using p k by (intro pair_inv_quiet_up) (simp_all add: send_step_def)
  next
    case fin
    then show ?thesis using p k by (intro pair_inv_quiet_up) (simp_all add: send_step_def unsent_def)
  next
    case chunk
    then show ?thesis using p k by (intro pair_inv_quiet_up) (simp_all add: send_step_def unsent_def concat_chop)
  qed
qed

text \<open>The receiving end. A message it does not take changes nothing; one that does not complete the file is
  kept, and the one that completes it is answered.\<close>

lemma say_done_result:
  assumes "t_state f = FDone"
  shows "t_size (fst (say_done sendable f)) = t_size f \<and> blobs_of (snd (say_done sendable f)) = [] \<and>
    (\<not> listening f \<longrightarrow> \<not> listening (fst (say_done sendable f)))"
  using assms by (auto simp: say_done_def Let_def quiet_cancel [unfolded quiet_def] add_wait_def set_channel_def
      listening_def cancel_eq close_fields split: option.splits)

lemma receiveData_more:
  assumes "\<not> t_up f" and "t_size f = Some (of_nat n)" and "t_datalen f + length b < n"
  shows "receiveData sendable (Bytes b) f =
    (f\<lparr>t_datalen := t_datalen f + length b, t_data := t_data f @ [b], t_state := Connected\<rparr>, [Event Connected NoData])"
proof -
  have "(of_nat (t_datalen f + length b) :: rat) < of_nat n" using assms(3) by (simp only: of_nat_less_iff)
  then show ?thesis using assms(1,2) by (simp add: receiveData_def event_def)
qed

definition finished :: "chan_msg \<Rightarrow> transfer \<Rightarrow> transfer" where
  "finished m f = (set_channel (\<lambda>c. c\<lparr>on_message := False\<rparr>) f)\<lparr>t_data := [], t_datalen := 0, t_state := FDone\<rparr>"

lemma receiveData_all:
  assumes "\<not> t_up f" and "t_size f = Some (of_nat n)" and "t_datalen f + length b = n"
    and "t_datalen f = length (concat (t_data f))"
  shows "receiveData sendable (Bytes b) f =
    (fst (say_done sendable (finished (Bytes b) f)),
     Event FDone (Blob (concat (t_data f) @ b)) # snd (say_done sendable (finished (Bytes b) f)))"
  using assms by (simp add: receiveData_def Let_def getBufferedData_def set_channel_def seq_def event_def finished_def)

lemma not_listening_finished: "\<not> listening (finished m f)"
  by (simp add: listening_def finished_def set_channel_def split: option.split)

lemma pair_inv_down:
  assumes p: "pair_inv file p"
  shows "pair_inv file (pair_step p (Down sendable))"
proof (cases "down_q p = [] \<or> \<not> negotiated (pd p)")
  case True
  then show ?thesis using p by (auto split: list.split)
next
  case False
  then obtain m ms where q: "down_q p = m # ms" and neg: "negotiated (pd p)" by (cases "down_q p") auto
  let ?q = "p\<lparr>down_q := ms\<rparr>" and ?f = "pd p"
  have eq: "pair_step p (Down sendable) = downloader_does (hears sendable m) ?q" by (simp add: q neg)
  have ok: "t_ok ?f" and down: "\<not> t_up ?f" and sz: "t_size ?f = Some (of_nat (length file))"
    using p by (auto simp: pair_inv_def)
  note k = keepsD [OF keeps_hears [OF ok, of sendable m]]
  obtain b where m: "m = Bytes b" using p q by (cases m) (auto simp: pair_inv_def)
  show ?thesis
  proof (cases "listening ?f")
    case False
    then have "hears sendable m ?f = (?f, [])" by (auto simp: hears_def channel_message_def listening_def split: option.splits)
    then show ?thesis using p False q unfolding eq by (simp add: pair_inv_def)
  next
    case True
    then have h: "hears sendable (Bytes b) ?f = receiveData sendable (Bytes b) ?f"
      using down neg by (auto simp: hears_def channel_message_def listening_def split: option.splits)
    obtain rest where rest: "file = got p @ rest" and len: "t_datalen ?f = length (concat (t_data ?f))"
      and nb: "blobs p = []" and un: "t_dc (pu p) \<noteq> None \<longrightarrow> rest = unsent (pu p)"
      using p True by (auto simp: pair_inv_def)
    have whole: "file = (concat (t_data ?f) @ b) @ bytes_of ms @ rest" using rest by (simp add: got_def q m)
    have "t_datalen ?f + length b \<le> length file" unfolding len by (subst whole) simp
    then consider (more) "t_datalen ?f + length b < length file" | (all) "t_datalen ?f + length b = length file" by linarith
    then show ?thesis
    proof cases
      case more
      note r = receiveData_more [OF down sz more, of sendable]
      have "t_ok (fst (receiveData sendable (Bytes b) ?f))" using k h m by simp
      then have "t_ok (?f\<lparr>t_datalen := t_datalen ?f + length b, t_data := t_data ?f @ [b], t_state := Connected\<rparr>)"
        by (simp add: r)
      then show ?thesis using p True rest len nb un q unfolding eq pair_inv_def
        by (auto simp: h r got_def m)
    next
      case all
      have blob: "concat (t_data ?f) @ b = file" using all whole len by simp
      let ?g = "finished (Bytes b) ?f"
      note r = receiveData_all [OF down sz all len, of sendable]
      have g: "t_state ?g = FDone" "t_size ?g = t_size ?f" by (simp_all add: finished_def set_channel_def)
      note s = say_done_result [OF g(1), of sendable]
      have "\<not> listening (fst (say_done sendable ?g))" using s not_listening_finished by blast
      then show ?thesis using p q k s g(2) nb blob unfolding eq pair_inv_def by (auto simp: h r m)
    qed
  qed
qed

lemma on_reply_result:
  assumes "t_ok f" and "active f"
  shows "transmitted (snd (on_reply m f)) = [] \<and> t_dc (fst (on_reply m f)) = None"
  using assms quiet_cancel [unfolded quiet_def] dc_cancel [OF assms(1)]
  by (auto simp: on_reply_def seq_def event_def close_fields)

lemma hears_up:
  assumes "t_ok f" and "t_up f"
  shows "transmitted (snd (hears sendable m f)) = [] \<and>
    (t_dc (fst (hears sendable m f)) = None \<or> hears sendable m f = (f, []))"
proof (cases "negotiated f \<and> listening f")
  case True
  then have "active f" using assms(1) by (auto simp: t_ok_def listening_def split: option.splits)
  moreover have "hears sendable m f = on_reply m f"
    using True assms(2) by (auto simp: hears_def channel_message_def listening_def split: option.splits)
  ultimately show ?thesis using on_reply_result [OF assms(1)] by simp
qed (auto simp: hears_def channel_message_def listening_def split: option.splits)

lemma pair_inv_up:
  assumes p: "pair_inv file p"
  shows "pair_inv file (pair_step p (Up sendable))"
proof (cases "up_q p = [] \<or> \<not> negotiated (pu p)")
  case True
  then show ?thesis using p by (auto split: list.split)
next
  case False
  then obtain m ms where q: "up_q p = m # ms" and neg: "negotiated (pu p)" by (cases "up_q p") auto
  have ok: "t_ok (pu p)" "t_up (pu p)" and b: "blobs p = [file]" using p q by (auto simp: pair_inv_def)
  have "\<not> listening (pd p)" using p b by (auto simp: pair_inv_def split: if_splits)
  then show ?thesis
    using p q neg b keepsD [OF keeps_hears [OF ok(1), of sendable m]] hears_up [OF ok, of sendable m]
    by (auto simp: pair_inv_def)
qed

lemma pair_inv_step: "pair_inv file p \<Longrightarrow> pair_inv file (pair_step p e)"
proof -
  assume p: "pair_inv file p"
  then have u: "t_ok (pu p)" and d: "t_ok (pd p)" by (auto simp: pair_inv_def)
  show ?thesis
  proof (cases e)
    case (Round b sendable)
    then show ?thesis using pair_inv_round [OF p] by simp
  next
    case (Down sendable)
    then show ?thesis using pair_inv_down [OF p] by simp
  next
    case (Up sendable)
    then show ?thesis using pair_inv_up [OF p] by simp
  next
    case (CancelUp why)
    have "keeps (pu p) (cancel why (pu p))" using u by (intro keeps_cancel) simp_all
    then show ?thesis unfolding CancelUp pair_step.simps
      using p by (intro pair_inv_quiet_up) (simp_all add: quiet_cancel dc_cancel u)
  next
    case (CancelDown why)
    have "keeps (pd p) (cancel why (pd p))" using d by (intro keeps_cancel) simp_all
    then show ?thesis unfolding CancelDown pair_step.simps
      using p by (intro pair_inv_quiet_down) (simp_all add: quiet_cancel dc_cancel d)
  next
    case (EndUp why)
    show ?thesis unfolding EndUp pair_step.simps
      using p keeps_channel_end [OF u] dc_channel_end [OF u, of why]
      by (intro pair_inv_quiet_up) (auto simp: quiet_channel_end)
  next
    case (EndDown why)
    show ?thesis unfolding EndDown pair_step.simps
      using p keeps_channel_end [OF d] dc_channel_end [OF d, of why]
      by (intro pair_inv_quiet_down) (auto simp: quiet_channel_end size_channel_end)
  qed
qed

interpretation delivery: machine pair_step "pair_inv file"
  by unfold_locales (rule pair_inv_step)

lemma pair_inv_start: "ready_up file chunks u \<Longrightarrow> ready_down file d \<Longrightarrow> pair_inv file (pair_start u d)"
  by (simp add: pair_inv_def pair_start_def ready_up_def ready_down_def got_def unsent_def)

text \<open>C10: over any run of the two ends, however the file is read in chunks, whatever the buffering and
  whenever either end cancels or loses the channel, the receiver is given the whole file or nothing,
  and the sender reports done only when the receiver has it.\<close>

theorem file_arrives_whole:
  assumes "ready_up file chunks u" and "ready_down file d" and "p = foldl pair_step (pair_start u d) es"
  shows "(blobs p = [] \<or> blobs p = [file]) \<and> (FDone \<in> set (u_events p) \<longrightarrow> blobs p = [file])"
proof -
  have "pair_inv file p" unfolding assms(3) by (rule delivery.run_inv) (rule pair_inv_start [OF assms(1,2)])
  then show ?thesis by (auto simp: pair_inv_def split: if_splits)
qed

text \<open>Two ends as the negotiation leaves them.\<close>

definition sample_up :: transfer where
  "sample_up = fst (on_datachannel [[1, 2], [3]]
     (fst (continue WLocalAnswer (Settled Null)
       ((fst (answer True ((TransferredFile [] [] True [] [] [] (Some 3))\<lparr>t_file := [1, 2, 3], t_state := Inviting\<rparr>)))
          \<lparr>t_waits := []\<rparr>))))"

definition sample_down :: transfer where
  "sample_down = fst (continue WRemoteAnswer (Settled Null)
     ((fst (receive True ((TransferredFile [] [] False [] [] [] (Some 3))\<lparr>t_state := Inviting\<rparr>)))\<lparr>t_waits := []\<rparr>))"

lemmas sample_defs = sample_up_def sample_down_def ready_up_def ready_down_def answer_def receive_def seq_def
  event_def add_wait_def flush_candidates_def on_datachannel_def new_channel_def TransferredFile_def t_ok_def
  active_def

lemma samples_ready: "ready_up [1, 2, 3] [[1, 2], [3]] sample_up" "ready_down [1, 2, 3] sample_down"
  by (simp_all add: sample_defs)

theorem file_arrives_whole_witness:
  "let p = foldl pair_step (pair_start sample_up sample_down) [Round 0 True, Down True]
   in blobs p = [] \<or> blobs p = [[1, 2, 3]]"
  unfolding Let_def using file_arrives_whole [OF samples_ready refl, of "[Round 0 True, Down True]"] by blast

section \<open>A transfer that nobody interrupts completes\<close>

definition sender_ok :: "byte list \<Rightarrow> transfer \<Rightarrow> bool" where
  "sender_ok file f \<longleftrightarrow>
     t_ok f \<and> t_up f \<and> negotiated f \<and> listening f \<and> t_size f = Some (of_nat (length file)) \<and>
     t_datalen f + length (unsent f) = length file"

definition phase1 :: "byte list \<Rightarrow> pair \<Rightarrow> bool" where
  "phase1 file p \<longleftrightarrow>
     pair_inv file p \<and> sender_ok file (pu p) \<and> listening (pd p) \<and> negotiated (pd p) \<and>
     t_datalen (pd p) < length file"

definition phase2 :: "byte list \<Rightarrow> pair \<Rightarrow> bool" where
  "phase2 file p \<longleftrightarrow>
     pair_inv file p \<and> sender_ok file (pu p) \<and> unsent (pu p) = [] \<and> \<not> listening (pd p) \<and>
     up_q p = [TextMsg (js ''done'')]"

definition phase3 :: "byte list \<Rightarrow> pair \<Rightarrow> bool" where
  "phase3 file p \<longleftrightarrow> pair_inv file p \<and> FDone \<in> set (u_events p) \<and> t_state (pu p) = Closed"

text \<open>The rounds the sender still has to make.\<close>

definition reader_work :: "transfer \<Rightarrow> nat" where
  "reader_work f =
     (case t_reader f of
        None \<Rightarrow> 0
      | Some (ps, cs) \<Rightarrow> 1 + length ps + sum_list (map (\<lambda>c. 1 + length (chop c)) cs))"

definition work :: "pair \<Rightarrow> nat" where
  "work p = 2 * reader_work (pu p) + length (down_q p)"

lemma sender_round:
  assumes "sender_ok file f"
  shows "sender_ok file (fst (send_step b True f)) \<and>
    2 * reader_work (fst (send_step b True f)) + length (transmitted (snd (send_step b True f))) \<le> 2 * reader_work f \<and>
    (b = 0 \<and> t_reader f \<noteq> None \<longrightarrow>
      2 * reader_work (fst (send_step b True f)) + length (transmitted (snd (send_step b True f))) < 2 * reader_work f) \<and>
    length (unsent (fst (send_step b True f))) \<le> length (unsent f)"
proof -
  have ok: "t_ok (fst (send_step b True f))" "t_up (fst (send_step b True f))"
    using keepsD [OF keeps_send_step] assms by (auto simp: sender_ok_def)
  have dc: "t_dc f \<noteq> None" using assms by (auto simp: sender_ok_def listening_def split: option.splits)
  consider (none) "t_reader f = None" | (fin) "t_reader f = Some ([], [])"
    | (chunk) c cs where "t_reader f = Some ([], c # cs)" | (piece) q qs cs where "t_reader f = Some (q # qs, cs)"
  proof (cases "t_reader f")
    case (Some r)
    then show ?thesis using that by (cases r; cases "fst r"; cases "snd r") auto
  qed simp
  then show ?thesis
    by cases
      (use assms ok dc in \<open>auto simp: send_step_def sender_ok_def negotiated_def listening_def unsent_def
        reader_work_def seq_def event_def concat_chop\<close>)
qed

lemma unheard: "\<not> listening f \<Longrightarrow> hears sendable m f = (f, [])"
  by (auto simp: hears_def channel_message_def listening_def split: option.splits)

lemma pair_inv_rest:
  assumes "pair_inv file p" and "listening (pd p)" and "t_dc (pu p) \<noteq> None"
  shows "file = concat (t_data (pd p)) @ bytes_of (down_q p) @ unsent (pu p)"
  using assms by (auto simp: pair_inv_def got_def)

lemma phase1_round:
  assumes "phase1 file p"
  shows "phase1 file (pair_step p (Round b True)) \<and>
    work (pair_step p (Round b True)) \<le> work p \<and>
    (b = 0 \<and> t_reader (pu p) \<noteq> None \<longrightarrow> work (pair_step p (Round b True)) < work p)"
proof -
  have s: "sender_ok file (pu p)" and p: "pair_inv file p" using assms by (auto simp: phase1_def)
  note r = sender_round [OF s, of b]
  have "pair_inv file (pair_step p (Round b True))" using p by (rule pair_inv_step)
  then show ?thesis using assms r by (auto simp: phase1_def work_def)
qed

lemma phase2_round:
  assumes "phase2 file p"
  shows "phase2 file (pair_step p (Round b True))"
proof -
  have s: "sender_ok file (pu p)" and p: "pair_inv file p" using assms by (auto simp: phase2_def)
  note r = sender_round [OF s, of b]
  have "pair_inv file (pair_step p (Round b True))" using p by (rule pair_inv_step)
  then show ?thesis using assms r by (auto simp: phase2_def)
qed

lemma phase2_down:
  assumes "phase2 file p"
  shows "phase2 file (pair_step p (Down True))"
proof -
  have "pair_inv file p" using assms by (simp add: phase2_def)
  then have "pair_inv file (pair_step p (Down True))" by (rule pair_inv_step)
  then show ?thesis using assms by (auto simp: phase2_def unheard split: list.split)
qed

lemma phase2_up:
  assumes "phase2 file p"
  shows "phase3 file (pair_step p (Up True))"
proof -
  have s: "sender_ok file (pu p)" and q: "up_q p = [TextMsg (js ''done'')]" and u: "unsent (pu p) = []"
    and p: "pair_inv file p" using assms by (auto simp: phase2_def)
  have "hears True (TextMsg (js ''done'')) (pu p) = seq (event FDone NoData (pu p)) close"
    using s u by (auto simp: sender_ok_def hears_def channel_message_def listening_def on_reply_def split: option.splits)
  moreover have "pair_inv file (pair_step p (Up True))" using p by (rule pair_inv_step)
  ultimately show ?thesis using q s by (simp add: phase3_def sender_ok_def seq_def event_def)
qed

lemma phase3_step:
  assumes "phase3 file p"
  shows "phase3 file (pair_step p e)"
proof -
  have p: "pair_inv file p" and c: "t_state (pu p) = Closed" and u: "t_ok (pu p)"
    using assms by (auto simp: phase3_def pair_inv_def)
  have closed: "t_state (fst r) = Closed" if "keeps (pu p) r" for r
    using that c by (cases "events_of (snd r)") (auto simp: keeps_def)
  have "t_state (pu (pair_step p e)) = Closed"
    using c closed keeps_send_step [OF u] keeps_hears [OF u] keeps_channel_end [OF u] keeps_same [OF u]
    by (cases e) (simp_all add: cancel_eq split: list.split)
  moreover have "FDone \<in> set (u_events (pair_step p e))"
    using assms by (cases e) (auto simp: phase3_def split: list.split)
  ultimately show ?thesis using pair_inv_step [OF p, of e] by (simp add: phase3_def)
qed

lemma phase1_up: "phase1 file p \<Longrightarrow> pair_step p (Up True) = p"
  by (auto simp: phase1_def pair_inv_def split: list.split)

lemma phase1_down:
  assumes "phase1 file p"
  shows "phase2 file (pair_step p (Down True)) \<or>
    phase1 file (pair_step p (Down True)) \<and> work (pair_step p (Down True)) \<le> work p \<and>
    (down_q p \<noteq> [] \<longrightarrow> work (pair_step p (Down True)) < work p)"
proof (cases "down_q p")
  case Nil
  then show ?thesis using assms by simp
next
  case (Cons m ms)
  have p: "pair_inv file p" and s: "sender_ok file (pu p)" and l: "listening (pd p)" and neg: "negotiated (pd p)"
    using assms by (auto simp: phase1_def)
  obtain b where m: "m = Bytes b" using p Cons by (cases m) (auto simp: pair_inv_def)
  let ?f = "pd p"
  have down: "\<not> t_up ?f" and sz: "t_size ?f = Some (of_nat (length file))"
    and len: "t_datalen ?f = length (concat (t_data ?f))"
    using p l by (auto simp: pair_inv_def)
  have h: "hears True (Bytes b) ?f = receiveData True (Bytes b) ?f"
    using l down neg by (auto simp: hears_def channel_message_def listening_def split: option.splits)
  have "t_dc (pu p) \<noteq> None" using s by (auto simp: sender_ok_def listening_def split: option.splits)
  then have whole: "file = (concat (t_data ?f) @ b) @ bytes_of ms @ unsent (pu p)"
    using pair_inv_rest [OF p l] by (simp add: Cons m)
  have inv: "pair_inv file (pair_step p (Down True))" using p by (rule pair_inv_step)
  show ?thesis
  proof (cases "t_datalen ?f + length b < length file")
    case True
    then have "phase1 file (pair_step p (Down True))"
      using assms inv neg by (auto simp: phase1_def Cons m h receiveData_more [OF down sz True] negotiated_def)
    then show ?thesis using neg by (simp add: work_def Cons)
  next
    case False
    then have all: "t_datalen ?f + length b = length file" using whole len
      by (metis add.commute le_add1 le_neq_implies_less length_append)
    then have u: "unsent (pu p) = []" using whole len by (metis append_is_Nil_conv append_self_conv length_append append_eq_append_conv)
    obtain c where dc: "t_dc ?f = Some c" using l by (auto simp: listening_def split: option.splits)
    let ?g = "finished (Bytes b) ?f"
    have say: "say_done True ?g =
        (add_wait WBye (set_channel (\<lambda>c. c\<lparr>on_end := EndResolves\<rparr>) ?g), [Transmit (TextMsg (js ''done''))])"
      using dc by (simp add: say_done_def Let_def finished_def set_channel_def)
    have "\<not> listening (fst (say_done True ?g))"
      using say_done_result [of ?g True] not_listening_finished by (simp add: finished_def)
    moreover have "up_q p = []" using p l by (auto simp: pair_inv_def)
    ultimately have "phase2 file (pair_step p (Down True))"
      using inv s neg u by (simp add: phase2_def Cons h receiveData_all [OF down sz all len] m say)
    then show ?thesis by blast
  qed
qed

definition fair_round :: "pair_event list" where
  "fair_round = [Round 0 True, Down True, Up True]"

lemma fair_round_progress:
  assumes "phase1 file p"
  shows "(let q = foldl pair_step p fair_round in phase3 file q \<or> phase1 file q \<and> work q < work p)"
proof -
  let ?p1 = "pair_step p (Round 0 True)"
  let ?p2 = "pair_step ?p1 (Down True)"
  have 1: "phase1 file ?p1" "work ?p1 \<le> work p" "t_reader (pu p) \<noteq> None \<longrightarrow> work ?p1 < work p"
    using phase1_round [OF assms, of 0] by auto
  consider (two) "phase2 file ?p2" | (one) "phase1 file ?p2" "work ?p2 \<le> work ?p1" "down_q ?p1 \<noteq> [] \<longrightarrow> work ?p2 < work ?p1"
    using phase1_down [OF 1(1)] by blast
  then show ?thesis
  proof cases
    case two
    then show ?thesis using phase2_up by (simp add: fair_round_def Let_def del: pair_step.simps)
  next
    case one
    have "work ?p2 < work p"
    proof (cases "t_reader (pu p) = None \<and> down_q ?p1 = []")
      case True
      then have u: "unsent (pu ?p1) = []" by (simp add: unsent_def send_step_def)
      have "t_dc (pu ?p1) \<noteq> None" using 1(1) by (auto simp: phase1_def sender_ok_def listening_def split: option.splits)
      then have "file = concat (t_data (pd ?p1))"
        using pair_inv_rest [of "file" ?p1] 1(1) True u by (simp add: phase1_def del: pair_step.simps)
      then have False using 1(1) by (auto simp: phase1_def pair_inv_def simp del: pair_step.simps)
      then show ?thesis ..
    qed (use 1 one in auto)
    then show ?thesis using one phase1_up by (simp add: fair_round_def Let_def del: pair_step.simps)
  qed
qed

lemma completes_from:
  "phase1 file p \<Longrightarrow> \<exists>n. phase3 file (foldl pair_step p (concat (replicate n fair_round)))"
proof (induction "work p" arbitrary: p rule: less_induct)
  case less
  let ?q = "foldl pair_step p fair_round"
  have "\<exists>n. phase3 file (foldl pair_step ?q (concat (replicate n fair_round)))"
  proof (cases "phase3 file ?q")
    case True
    then show ?thesis by (intro exI [of _ 0]) simp
  next
    case False
    then show ?thesis using fair_round_progress [OF less.prems] less.hyps [of ?q] by (auto simp: Let_def)
  qed
  then obtain n where "phase3 file (foldl pair_step ?q (concat (replicate n fair_round)))" ..
  then show ?case by (intro exI [of _ "Suc n"]) simp
qed

text \<open>The events of a transfer that nobody interrupts.\<close>

fun undisturbed :: "pair_event \<Rightarrow> bool" where
  "undisturbed (Round b sendable) = sendable"
| "undisturbed (Down sendable) = sendable"
| "undisturbed (Up sendable) = sendable"
| "undisturbed _ = False"

lemma undisturbed_step:
  assumes "undisturbed e"
  shows "phase1 file p \<Longrightarrow> phase1 file (pair_step p e) \<or> phase2 file (pair_step p e)"
    and "phase2 file p \<Longrightarrow> phase2 file (pair_step p e) \<or> phase3 file (pair_step p e)"
  using assms phase1_round [of "file" p] phase1_down [of "file" p] phase1_up [of "file" p]
    phase2_round [of "file" p] phase2_down [of "file" p] phase2_up [of "file" p]
  by (cases e; simp del: pair_step.simps; blast)+

lemma undisturbed_run:
  "list_all undisturbed es \<Longrightarrow> phase1 file p \<or> phase2 file p \<or> phase3 file p \<Longrightarrow>
   phase1 file (foldl pair_step p es) \<or> phase2 file (foldl pair_step p es) \<or> phase3 file (foldl pair_step p es)"
proof (induction es arbitrary: p)
  case (Cons e es)
  then have "phase1 file (pair_step p e) \<or> phase2 file (pair_step p e) \<or> phase3 file (pair_step p e)"
    using undisturbed_step [of e "file" p] phase3_step [of "file" p e] by auto
  then show ?case using Cons.IH Cons.prems(1) by simp
qed simp

lemma phase2_completes: "phase2 file p \<Longrightarrow> phase3 file (foldl pair_step p fair_round)"
  using phase2_round [of "file" p 0] phase2_down phase2_up
  by (simp add: fair_round_def del: pair_step.simps)

lemma phase1_start:
  assumes "ready_up file chunks u" and "ready_down file d" and "file \<noteq> []"
  shows "phase1 file (pair_start u d)"
  using assms pair_inv_start [OF assms(1,2)]
  by (auto simp: phase1_def sender_ok_def ready_up_def ready_down_def pair_start_def negotiated_def listening_def
      unsent_def new_channel_def)

text \<open>C20: from wherever a transfer of a file that is not empty has got without being interrupted, finitely
  many more rounds of the sender and deliveries give the receiver the file and the sender its
  confirmation.\<close>

theorem file_completes:
  assumes "ready_up file chunks u" and "ready_down file d" and "file \<noteq> []" and "list_all undisturbed es"
  shows "\<exists>n. let p = foldl pair_step (pair_start u d) (es @ concat (replicate n fair_round))
    in blobs p = [file] \<and> FDone \<in> set (u_events p) \<and> t_state (pu p) = Closed"
proof -
  let ?p = "foldl pair_step (pair_start u d) es"
  have "phase1 file ?p \<or> phase2 file ?p \<or> phase3 file ?p"
    using undisturbed_run [OF assms(4)] phase1_start [OF assms(1-3)] by blast
  then have "\<exists>n. phase3 file (foldl pair_step ?p (concat (replicate n fair_round)))"
  proof (elim disjE)
    assume "phase2 file ?p"
    then show ?thesis using phase2_completes by (intro exI [of _ 1]) simp
  next
    assume "phase3 file ?p"
    then show ?thesis by (intro exI [of _ 0]) simp
  qed (rule completes_from)
  then show ?thesis by (auto simp: phase3_def pair_inv_def Let_def)
qed

theorem file_completes_witness:
  "\<exists>n. blobs (foldl pair_step (pair_start sample_up sample_down) (concat (replicate n fair_round))) = [[1, 2, 3]]"
  using file_completes [OF samples_ready, of "[]"] by (auto simp: Let_def)

section \<open>An empty file\<close>

definition idle :: "pair \<Rightarrow> bool" where
  "idle p \<longleftrightarrow> (t_reader (pu p) = None \<or> t_reader (pu p) = Some ([], [])) \<and>
     down_q p = [] \<and> up_q p = [] \<and> blobs p = [] \<and> FDone \<notin> set (u_events p)"

lemma reader_close [simp]: "t_reader (fst (close f)) = t_reader f"
  by (simp add: close_def seq_def event_def)

lemma reader_cancel [simp]: "t_reader (fst (cancel why f)) = t_reader f"
  by (simp add: cancel_eq Let_def)

lemma reader_channel_end [simp]: "t_reader (fst (channel_end why f)) = t_reader f"
  using channel_end_cases [of why f] by auto

lemma idle_step: "idle p \<Longrightarrow> idle (pair_step p e)"
  using quiet_cancel [unfolded quiet_def] quiet_channel_end [unfolded quiet_def]
  by (cases e) (auto simp: idle_def send_step_def)

interpretation stuck: machine pair_step idle
  by unfold_locales (rule idle_step)

text \<open>A transfer of an empty file never completes: its stream yields no chunk, so no message is ever
  sent, and the receiver looks at what it has only when a message comes.\<close>

theorem empty_file_never_completes:
  assumes "ready_up [] [] u" and "ready_down [] d" and "p = foldl pair_step (pair_start u d) es"
  shows "blobs p = [] \<and> FDone \<notin> set (u_events p)"
proof -
  have "idle (pair_start u d)"
    using assms(1) by (simp add: idle_def ready_up_def pair_start_def)
  then have "idle p" unfolding assms(3) by (rule stuck.run_inv)
  then show ?thesis by (simp add: idle_def)
qed

theorem empty_file_never_completes_witness:
  "FDone \<notin> set (u_events (foldl pair_step (pair_start (sample_up\<lparr>t_size := Some 0, t_reader := Some ([], [])\<rparr>)
      (sample_down\<lparr>t_size := Some 0\<rparr>)) [Round 0 True, Down True, Up True]))"
proof -
  have "ready_up [] [] (sample_up\<lparr>t_size := Some 0, t_reader := Some ([], [])\<rparr>)"
    and "ready_down [] (sample_down\<lparr>t_size := Some 0\<rparr>)"
    by (simp_all add: sample_defs)
  from empty_file_never_completes [OF this refl, of fair_round] show ?thesis
    unfolding fair_round_def by blast
qed

end
