(* ===== verification/Streams.thy ===== *)
theory Streams
  imports Prelude
begin

text \<open>
  The streams of static/protocol.js: the tables of up and down streams of a \<open>ServerConnection\<close>, the
  messages of the server about them, \<open>negotiate\<close>, the buffers of ICE candidates, \<open>close\<close>, and what
  \<open>recomputeUserStreams\<close> keeps per user. A promise of the peer connection is recorded in the stream
  until an event settles it; what follows the \<open>await\<close> is then run. A closed peer connection settles
  none of its promises and raises no event.

  Every operation that sends is given \<open>ok\<close>, whether \<open>ServerConnection.send\<close> accepts a message; it
  throws otherwise. The boolean of a result says that the operation threw.
\<close>

section \<open>State\<close>

datatype dir = Up | Down

text \<open>What a stream waits for: \<open>negotiate\<close> (N), \<open>gotOffer\<close> (O) and \<open>gotAnswer\<close> (A).\<close>

datatype stream_wait = NOffer bool | NLocal | ORemote | OIce | OAnswer | OLocal | ARemote | AIce

text \<open>The label and the media kinds are those of the code; \<open>pc_remote\<close> and \<open>pc_ice\<close> are what the peer
  connection holds: whether it has a remote description, and the candidates given to it.\<close>

record stream =
  st_local :: nat
  st_label :: "jstr option"
  st_maker :: jstr
  st_source :: jstr
  st_username :: "jstr option"
  st_replace :: "jstr option"
  st_media :: "jstr list option"
  st_described :: bool
  st_localIce :: "jsval list"
  st_remoteIce :: "jsval list"
  st_waits :: "stream_wait list"
  pc_remote :: bool
  pc_ice :: "jsval list"

definition new_stream :: "nat \<Rightarrow> jstr option \<Rightarrow> jstr \<Rightarrow> stream" where
  "new_stream l label source =
     \<lparr>st_local = l, st_label = label, st_maker = source, st_source = source, st_username = None,
      st_replace = None, st_media = None, st_described = False, st_localIce = [], st_remoteIce = [],
      st_waits = [], pc_remote = False, pc_ice = []\<rparr>"

datatype smsg =
    SOffer jstr bool "jstr option" "jstr option" jstr
  | SAnswer jstr jstr
  | SIce jstr jsval
  | SClose jstr
  | SAbort jstr
  | SRenegotiate jstr
  | SRequest jstr "jstr list"

datatype notice =
    StreamClosed dir jstr bool
  | StreamError dir jstr
  | NegotiationCompleted dir jstr
  | StreamStatus dir jstr ice
  | DownStream jstr
  | DownTrack jstr
  | UserStreams jstr

type_synonym user_streams = "(jstr, jstr list) jsmap"

record streams =
  s_id :: jstr
  up :: "(jstr, stream) jsmap"
  closedUp :: "jstr list"
  down :: "(jstr, stream) jsmap"
  localIdCounter :: nat
  s_users :: "(jstr, user_streams) jsmap"
  out :: "smsg list"
  notices :: "notice list"

definition no_streams :: "jstr \<Rightarrow> streams" where
  "no_streams me = \<lparr>s_id = me, up = [], closedUp = [], down = [], localIdCounter = 0, s_users = [],
     out = [], notices = []\<rparr>"

fun table :: "dir \<Rightarrow> streams \<Rightarrow> (jstr, stream) jsmap" where
  "table Up s = up s"
| "table Down s = down s"

fun set_table :: "dir \<Rightarrow> (jstr, stream) jsmap \<Rightarrow> streams \<Rightarrow> streams" where
  "set_table Up m s = s\<lparr>up := m\<rparr>"
| "set_table Down m s = s\<lparr>down := m\<rparr>"

definition stream_at :: "dir \<Rightarrow> jstr \<Rightarrow> streams \<Rightarrow> stream option" where
  "stream_at d i s = map_get (table d s) i"

definition put_stream :: "dir \<Rightarrow> jstr \<Rightarrow> stream \<Rightarrow> streams \<Rightarrow> streams" where
  "put_stream d i c s = set_table d (map_set i c (table d s)) s"

definition drop_stream :: "dir \<Rightarrow> jstr \<Rightarrow> streams \<Rightarrow> streams" where
  "drop_stream d i s = set_table d (map_delete i (table d s)) s"

definition tell :: "notice \<Rightarrow> streams \<Rightarrow> streams" where
  "tell n s = s\<lparr>notices := notices s @ [n]\<rparr>"

definition say :: "bool \<Rightarrow> smsg \<Rightarrow> streams \<Rightarrow> streams \<times> bool" where
  "say ok m s = (if ok then (s\<lparr>out := out s @ [m]\<rparr>, False) else (s, True))"

section \<open>The streams of a user\<close>

text \<open>A property name: a label that is \<open>null\<close> reads as the word.\<close>

definition label_key :: "jstr option \<Rightarrow> jstr" where
  "label_key l = (case l of None \<Rightarrow> js ''null'' | Some l \<Rightarrow> l)"

definition add_kind :: "jstr \<Rightarrow> jstr list \<Rightarrow> jstr list" where
  "add_kind k ks = (if k \<in> set ks then ks else ks @ [k])"

definition add_media :: "stream \<Rightarrow> user_streams \<Rightarrow> user_streams" where
  "add_media c u =
     (case st_media c of
        None \<Rightarrow> u
      | Some kinds \<Rightarrow>
          let l = label_key (st_label c);
              old = (case map_get u l of None \<Rightarrow> [] | Some ks \<Rightarrow> ks)
          in map_set l (fold add_kind kinds old) u)"

definition streams_of :: "jstr \<Rightarrow> streams \<Rightarrow> user_streams" where
  "streams_of uid s = fold (\<lambda>(i, c). add_media c) (if uid = s_id s then up s else down s) []"

definition recomputeUserStreams :: "jstr \<Rightarrow> streams \<Rightarrow> streams \<times> bool" where
  "recomputeUserStreams uid s =
     (case map_get (s_users s) uid of
        None \<Rightarrow> (s, False)
      | Some old \<Rightarrow> (s\<lparr>s_users := map_set uid (streams_of uid s) (s_users s)\<rparr>, old \<noteq> streams_of uid s))"

definition refresh_user :: "jstr \<Rightarrow> streams \<Rightarrow> streams" where
  "refresh_user uid s =
     (let (s, changed) = recomputeUserStreams uid s in if changed then tell (UserStreams uid) s else s)"

section \<open>Closing\<close>

definition add_closed :: "jstr \<Rightarrow> jstr list \<Rightarrow> jstr list" where
  "add_closed i xs = (if i \<in> set xs then xs else xs @ [i])"

text \<open>A closed stream is in no table, so closing it again does nothing.\<close>

definition closeStream :: "dir \<Rightarrow> jstr \<Rightarrow> bool \<Rightarrow> bool \<Rightarrow> streams \<Rightarrow> streams" where
  "closeStream d i repl ok s =
     (case stream_at d i s of
        None \<Rightarrow> s
      | Some c \<Rightarrow>
          let s = (if d = Up \<and> \<not> repl \<and> st_described c then fst (say ok (SClose i) s) else s);
              s = drop_stream d i s;
              s = (if d = Up then s\<lparr>closedUp := add_closed i (closedUp s)\<rparr> else s);
              s = refresh_user (if d = Up then s_id s else st_source c) s
          in tell (StreamClosed d i repl) s)"

definition close_all :: "bool \<Rightarrow> streams \<Rightarrow> streams" where
  "close_all ok s =
     (let s = fold (\<lambda>i. closeStream Up i False ok) (map fst (up s)) s
      in fold (\<lambda>i. closeStream Down i False ok) (map fst (down s)) s)"

section \<open>Candidates\<close>

definition gotLocalIce :: "dir \<Rightarrow> jstr \<Rightarrow> jsval \<Rightarrow> bool \<Rightarrow> streams \<Rightarrow> streams \<times> bool" where
  "gotLocalIce d i v ok s =
     (case stream_at d i s of
        None \<Rightarrow> (s, False)
      | Some c \<Rightarrow>
          if st_described c then say ok (SIce i v) s
          else (put_stream d i (c\<lparr>st_localIce := st_localIce c @ [v]\<rparr>) s, False))"

text \<open>A candidate that cannot be sent is dropped with a warning.\<close>

definition flushLocalIceCandidates :: "dir \<Rightarrow> jstr \<Rightarrow> bool \<Rightarrow> streams \<Rightarrow> streams" where
  "flushLocalIceCandidates d i ok s =
     (case stream_at d i s of
        None \<Rightarrow> s
      | Some c \<Rightarrow>
          fold (\<lambda>v s. fst (say ok (SIce i v) s)) (st_localIce c) (put_stream d i (c\<lparr>st_localIce := []\<rparr>) s))"

definition flushRemoteIceCandidates :: "stream \<Rightarrow> stream" where
  "flushRemoteIceCandidates c = c\<lparr>st_remoteIce := [], pc_ice := pc_ice c @ st_remoteIce c\<rparr>"

definition gotRemoteIce :: "jstr \<Rightarrow> jsval \<Rightarrow> streams \<Rightarrow> streams" where
  "gotRemoteIce i v s =
     (let d = (if stream_at Up i s \<noteq> None then Up else Down) in
      case stream_at d i s of
        None \<Rightarrow> s
      | Some c \<Rightarrow>
          put_stream d i
            (if pc_remote c then c\<lparr>pc_ice := pc_ice c @ [v]\<rparr> else c\<lparr>st_remoteIce := st_remoteIce c @ [v]\<rparr>) s)"

section \<open>New streams\<close>

definition findByLocalId :: "nat \<Rightarrow> streams \<Rightarrow> jstr option" where
  "findByLocalId l s =
     find (\<lambda>i. case stream_at Up i s of None \<Rightarrow> False | Some c \<Rightarrow> st_local c = l) (map fst (up s))"

text \<open>\<open>newLocalId\<close>, whose strings are the decimal numbers of the counter, unless one is given.\<close>

definition local_id :: "nat option \<Rightarrow> streams \<Rightarrow> nat \<times> streams" where
  "local_id given s =
     (case given of Some l \<Rightarrow> (l, s) | None \<Rightarrow> (localIdCounter s, s\<lparr>localIdCounter := localIdCounter s + 1\<rparr>))"

definition newUpStream :: "nat option \<Rightarrow> jstr \<Rightarrow> bool \<Rightarrow> bool \<Rightarrow> streams \<Rightarrow> streams \<times> bool" where
  "newUpStream given i pc ok s =
     (if stream_at Up i s \<noteq> None \<or> \<not> pc then (s, True)
      else
        let oldId = Option.bind given (\<lambda>l. findByLocalId l s);
            s = (case oldId of None \<Rightarrow> s | Some old \<Rightarrow> closeStream Up old True ok s);
            (l, s) = local_id given s
        in (put_stream Up i ((new_stream l None (s_id s))\<lparr>st_replace := oldId\<rparr>) s, False))"

definition await :: "dir \<Rightarrow> jstr \<Rightarrow> stream_wait \<Rightarrow> streams \<Rightarrow> streams" where
  "await d i w s =
     (case stream_at d i s of None \<Rightarrow> s | Some c \<Rightarrow> put_stream d i (c\<lparr>st_waits := st_waits c @ [w]\<rparr>) s)"

text \<open>\<open>negotiate\<close> up to its first \<open>await\<close>, and \<open>restartIce\<close>; \<open>modern\<close> says that the browser's peer
  connection restarts ICE itself, for which it then asks for a negotiation.\<close>

definition negotiate :: "jstr \<Rightarrow> bool \<Rightarrow> streams \<Rightarrow> streams" where
  "negotiate i restart s = await Up i (NOffer restart) s"

fun restartIce :: "dir \<Rightarrow> jstr \<Rightarrow> bool \<Rightarrow> bool \<Rightarrow> streams \<Rightarrow> streams \<times> bool" where
  "restartIce Down i modern ok s = say ok (SRenegotiate i) s"
| "restartIce Up i modern ok s = (if modern then s else negotiate i True s, False)"

definition on_ice_state :: "dir \<Rightarrow> jstr \<Rightarrow> ice \<Rightarrow> bool \<Rightarrow> bool \<Rightarrow> streams \<Rightarrow> streams \<times> bool" where
  "on_ice_state d i x modern ok s =
     (let s = tell (StreamStatus d i x) s
      in if x = IceFailed then restartIce d i modern ok s else (s, False))"

text \<open>A track of a down stream; \<open>None\<close> when it comes with no stream.\<close>

definition on_track :: "jstr \<Rightarrow> jstr list option \<Rightarrow> streams \<Rightarrow> streams" where
  "on_track i media s =
     (case (stream_at Down i s, media) of
        (Some c, Some kinds) \<Rightarrow>
          let s = put_stream Down i (c\<lparr>st_media := Some kinds\<rparr>) s;
              (s, changed) = recomputeUserStreams (st_maker c) s;
              s = tell (DownTrack i) s
          in if changed then tell (UserStreams (st_maker c)) s else s
      | _ \<Rightarrow> s)"

definition setStream :: "jstr \<Rightarrow> jstr list \<Rightarrow> streams \<Rightarrow> streams" where
  "setStream i kinds s =
     (case stream_at Up i s of
        None \<Rightarrow> s
      | Some c \<Rightarrow> refresh_user (s_id s) (put_stream Up i (c\<lparr>st_media := Some kinds\<rparr>) s))"

section \<open>Messages of the server\<close>

text \<open>The rest of \<open>gotOffer\<close>, to its first \<open>await\<close>, on the stream that is there.\<close>

definition offer_on :: "jstr \<Rightarrow> jstr \<Rightarrow> jstr option \<Rightarrow> streams \<Rightarrow> streams" where
  "offer_on i source username s =
     (case stream_at Down i s of
        None \<Rightarrow> s
      | Some c \<Rightarrow>
          await Down i ORemote
            (tell (DownStream i) (put_stream Down i (c\<lparr>st_source := source, st_username := username\<rparr>) s)))"

text \<open>The stream that an offer replaces, if there is one, goes and leaves its local id.\<close>

definition replace_down :: "jstr option \<Rightarrow> bool \<Rightarrow> streams \<Rightarrow> nat option \<times> streams" where
  "replace_down replace ok s =
     (case replace of
        None \<Rightarrow> (None, s)
      | Some r \<Rightarrow>
          if r = [] then (None, s)
          else case stream_at Down r s of
                 None \<Rightarrow> (None, s)
               | Some old \<Rightarrow> (Some (st_local old), closeStream Down r True ok s))"

definition gotOffer ::
  "jstr \<Rightarrow> jstr option \<Rightarrow> jstr \<Rightarrow> jstr option \<Rightarrow> jstr option \<Rightarrow> bool \<Rightarrow> bool \<Rightarrow> streams \<Rightarrow> streams \<times> bool" where
  "gotOffer i label source username replace pc ok s =
     (if stream_at Up i s \<noteq> None then say ok (SAbort i) s
      else
        let (oldLocalId, s) = replace_down replace ok s in
        if stream_at Down i s \<noteq> None then (offer_on i source username s, False)
        else if \<not> pc then say ok (SAbort i) s
        else
          let (l, s) = local_id oldLocalId s
          in (offer_on i source username (put_stream Down i (new_stream l label source) s), False))"

datatype found = Found | Gone | Unknown

definition upStreamFor :: "jstr \<Rightarrow> streams \<Rightarrow> found" where
  "upStreamFor i s =
     (if stream_at Up i s \<noteq> None then Found else if i \<in> set (closedUp s) then Gone else Unknown)"

definition with_up :: "jstr \<Rightarrow> (streams \<Rightarrow> streams \<times> bool) \<Rightarrow> streams \<Rightarrow> streams \<times> bool" where
  "with_up i f s = (case upStreamFor i s of Found \<Rightarrow> f s | Gone \<Rightarrow> (s, False) | Unknown \<Rightarrow> (s, True))"

datatype stream_msg =
    GotOffer jstr "jstr option" jstr "jstr option" "jstr option"
  | GotAnswer jstr
  | GotRenegotiate jstr
  | GotClose jstr
  | GotAbort jstr
  | GotIce jstr jsval

text \<open>\<open>env\<close> is what the browser does: whether a peer connection can be made, and \<open>modern\<close> above.\<close>

fun got_stream_msg :: "bool \<times> bool \<Rightarrow> bool \<Rightarrow> stream_msg \<Rightarrow> streams \<Rightarrow> streams \<times> bool" where
  "got_stream_msg env ok (GotOffer i label source username replace) s =
     gotOffer i label source username replace (fst env) ok s"
| "got_stream_msg env ok (GotAnswer i) s = with_up i (\<lambda>s. (await Up i ARemote s, False)) s"
| "got_stream_msg env ok (GotRenegotiate i) s = with_up i (restartIce Up i (snd env) ok) s"
| "got_stream_msg env ok (GotClose i) s = (closeStream Down i False ok s, False)"
| "got_stream_msg env ok (GotAbort i) s = with_up i (\<lambda>s. (closeStream Up i False ok s, False)) s"
| "got_stream_msg env ok (GotIce i v) s = (gotRemoteIce i v s, False)"

section \<open>Promises\<close>

text \<open>\<open>gotOffer\<close> calls \<open>abort\<close> once \<open>onerror\<close> has been told.\<close>

definition offer_failed :: "jstr \<Rightarrow> bool \<Rightarrow> streams \<Rightarrow> streams \<times> bool" where
  "offer_failed i ok s = say ok (SAbort i) (tell (StreamError Down i) s)"

text \<open>The description is out: the buffered candidates follow.\<close>

definition described :: "dir \<Rightarrow> jstr \<Rightarrow> stream \<Rightarrow> bool \<Rightarrow> streams \<Rightarrow> streams" where
  "described d i c ok s =
     flushLocalIceCandidates d i ok (put_stream d i (c\<lparr>st_described := True\<rparr>) s)"

text \<open>What follows an \<open>await\<close> of the stream \<open>c\<close>, which has dropped it from its waits; \<open>good\<close> says how
  the promise settled and \<open>sdp\<close> is the local description.\<close>

fun continue_stream ::
  "jstr \<Rightarrow> stream \<Rightarrow> stream_wait \<Rightarrow> bool \<Rightarrow> jstr \<Rightarrow> bool \<Rightarrow> streams \<Rightarrow> streams \<times> bool" where
  "continue_stream i c (NOffer r) good sdp ok s = (if good then (await Up i NLocal s, False) else (s, True))"
| "continue_stream i c NLocal good sdp ok s =
     (if \<not> good then (s, True)
      else case say ok (SOffer i (st_described c) (st_replace c) (st_label c) sdp) s of
             (s, True) \<Rightarrow> (s, True)
           | (s, False) \<Rightarrow> (described Up i (c\<lparr>st_replace := None\<rparr>) ok s, False))"
| "continue_stream i c ARemote good sdp ok s =
     (if good then (await Up i AIce (put_stream Up i (flushRemoteIceCandidates (c\<lparr>pc_remote := True\<rparr>)) s), False)
      else (closeStream Up i False ok (tell (StreamError Up i) s), False))"
| "continue_stream i c AIce good sdp ok s = (tell (NegotiationCompleted Up i) s, False)"
| "continue_stream i c ORemote good sdp ok s =
     (if good then (await Down i OIce (put_stream Down i (flushRemoteIceCandidates (c\<lparr>pc_remote := True\<rparr>)) s), False)
      else offer_failed i ok s)"
| "continue_stream i c OIce good sdp ok s = (await Down i OAnswer s, False)"
| "continue_stream i c OAnswer good sdp ok s = (if good then (await Down i OLocal s, False) else offer_failed i ok s)"
| "continue_stream i c OLocal good sdp ok s =
     (if \<not> good then offer_failed i ok s
      else case say ok (SAnswer i sdp) s of
             (s, True) \<Rightarrow> offer_failed i ok s
           | (s, False) \<Rightarrow> (tell (NegotiationCompleted Down i) (described Down i c ok s), False))"

fun side :: "stream_wait \<Rightarrow> dir" where
  "side w = (if w \<in> {ORemote, OIce, OAnswer, OLocal} then Down else Up)"

definition settle :: "jstr \<Rightarrow> stream_wait \<Rightarrow> bool \<Rightarrow> jstr \<Rightarrow> bool \<Rightarrow> streams \<Rightarrow> streams \<times> bool" where
  "settle i w good sdp ok s =
     (case stream_at (side w) i s of
        None \<Rightarrow> (s, False)
      | Some c \<Rightarrow>
          if w \<notin> set (st_waits c) then (s, False)
          else let c = c\<lparr>st_waits := remove1 w (st_waits c)\<rparr>
               in continue_stream i c w good sdp ok (put_stream (side w) i c s))"

section \<open>Events\<close>

datatype user_change = UserAdded | UserChanged | UserDeleted

datatype stream_event =
    NewUp "nat option" jstr bool
  | SetLabel jstr jstr
  | SetStream jstr "jstr list"
  | MediaChanged dir jstr "jstr list"
  | Negotiate jstr
  | RestartIce dir jstr bool
  | ClosePage dir jstr
  | RequestTracks jstr "jstr list"
  | LocalIce dir jstr jsval
  | IceState dir jstr ice bool
  | Track jstr "jstr list option"
  | Settle jstr stream_wait bool jstr
  | Server "bool \<times> bool" stream_msg
  | CloseAll
  | UserEvent user_change jstr

fun user_event :: "user_change \<Rightarrow> jstr \<Rightarrow> streams \<Rightarrow> streams" where
  "user_event UserAdded u s = s\<lparr>s_users := map_set u [] (s_users s)\<rparr>"
| "user_event UserChanged u s = (if map_get (s_users s) u = None then s\<lparr>s_users := map_set u [] (s_users s)\<rparr> else s)"
| "user_event UserDeleted u s = s\<lparr>s_users := map_delete u (s_users s)\<rparr>"

text \<open>The ids of up streams are random and new; the page asks to replace only what it has been given a
  local id of, and so no down stream.\<close>

definition used_ids :: "streams \<Rightarrow> jstr set" where
  "used_ids s = fst ` set (up s) \<union> set (closedUp s) \<union> fst ` set (down s)"

definition may_name :: "nat option \<Rightarrow> streams \<Rightarrow> bool" where
  "may_name l s =
     (case l of None \<Rightarrow> True | Some n \<Rightarrow> n < localIdCounter s \<and> n \<notin> (st_local \<circ> snd) ` set (down s))"

definition modify :: "dir \<Rightarrow> jstr \<Rightarrow> (stream \<Rightarrow> stream) \<Rightarrow> streams \<Rightarrow> streams" where
  "modify d i f s = (case stream_at d i s of None \<Rightarrow> s | Some c \<Rightarrow> put_stream d i (f c) s)"

definition on_live :: "dir \<Rightarrow> jstr \<Rightarrow> (streams \<Rightarrow> streams \<times> bool) \<Rightarrow> streams \<Rightarrow> streams \<times> bool" where
  "on_live d i f s = (if stream_at d i s = None then (s, False) else f s)"

fun stream_step :: "streams \<Rightarrow> bool \<times> stream_event \<Rightarrow> streams \<times> bool" where
  "stream_step s (ok, NewUp l i pc) =
     (if i \<in> used_ids s \<or> \<not> may_name l s then (s, False) else newUpStream l i pc ok s)"
| "stream_step s (ok, SetLabel i l) = (modify Up i (\<lambda>c. c\<lparr>st_label := Some l\<rparr>) s, False)"
| "stream_step s (ok, SetStream i kinds) = (setStream i kinds s, False)"
| "stream_step s (ok, MediaChanged d i kinds) = (modify d i (\<lambda>c. c\<lparr>st_media := map_option (\<lambda>_. kinds) (st_media c)\<rparr>) s, False)"
| "stream_step s (ok, Negotiate i) = (negotiate i False s, False)"
| "stream_step s (ok, RestartIce d i modern) = on_live d i (restartIce d i modern ok) s"
| "stream_step s (ok, ClosePage d i) = (closeStream d i False ok s, False)"
| "stream_step s (ok, RequestTracks i what) = on_live Down i (say ok (SRequest i what)) s"
| "stream_step s (ok, LocalIce d i v) = gotLocalIce d i v ok s"
| "stream_step s (ok, IceState d i x modern) = on_live d i (on_ice_state d i x modern ok) s"
| "stream_step s (ok, Track i media) = (on_track i media s, False)"
| "stream_step s (ok, Settle i w good sdp) = settle i w good sdp ok s"
| "stream_step s (ok, Server env m) = got_stream_msg env ok m s"
| "stream_step s (ok, CloseAll) = (close_all ok s, False)"
| "stream_step s (ok, UserEvent k u) = (user_event k u s, False)"

definition after_event :: "streams \<Rightarrow> bool \<times> stream_event \<Rightarrow> streams" where
  "after_event s e = fst (stream_step s e)"

end
