(* ===== verification/StreamLaws.thy ===== *)
theory StreamLaws
  imports Streams
begin

text \<open>
  What the operations of the streams do to the tables and to what is sent, and two interfaces over
  them: \<open>stream_edits\<close>, a relation on states that holds across every operation that leaves alone what
  a stream owes the server, and \<open>stream_moves\<close>, which adds closing, creating and announcing. A
  property that is such a relation is proved on the elementary operations and holds for every event.
\<close>

section \<open>Reading the tables\<close>

declare side.simps [simp del]

lemma side_of [simp]:
  "side (NOffer r) = Up" "side NLocal = Up" "side ARemote = Up" "side AIce = Up"
  "side ORemote = Down" "side OIce = Down" "side OAnswer = Down" "side OLocal = Down"
  by (simp_all add: side.simps)

lemma table_set_table [simp]: "table d' (set_table d m s) = (if d' = d then m else table d' s)"
  by (cases d; cases d') simp_all

lemma set_table_fields [simp]:
  "out (set_table d m s) = out s" "notices (set_table d m s) = notices s" "closedUp (set_table d m s) = closedUp s"
  "localIdCounter (set_table d m s) = localIdCounter s" "s_id (set_table d m s) = s_id s"
  "s_users (set_table d m s) = s_users s"
  by (cases d; simp)+

lemma table_update [simp]:
  "table d (s\<lparr>out := x\<rparr>) = table d s" "table d (s\<lparr>notices := y\<rparr>) = table d s"
  "table d (s\<lparr>closedUp := z\<rparr>) = table d s" "table d (s\<lparr>localIdCounter := n\<rparr>) = table d s"
  "table d (s\<lparr>s_users := u\<rparr>) = table d s"
  by (cases d; simp)+

lemma stream_at_update [simp]:
  "stream_at d i (s\<lparr>out := x\<rparr>) = stream_at d i s" "stream_at d i (s\<lparr>notices := y\<rparr>) = stream_at d i s"
  "stream_at d i (s\<lparr>closedUp := z\<rparr>) = stream_at d i s" "stream_at d i (s\<lparr>localIdCounter := n\<rparr>) = stream_at d i s"
  "stream_at d i (s\<lparr>s_users := u\<rparr>) = stream_at d i s"
  by (simp_all add: stream_at_def)

lemma put_stream_fields [simp]:
  "out (put_stream d i c s) = out s" "notices (put_stream d i c s) = notices s"
  "closedUp (put_stream d i c s) = closedUp s" "localIdCounter (put_stream d i c s) = localIdCounter s"
  "s_id (put_stream d i c s) = s_id s"
  by (simp_all add: put_stream_def)

lemma stream_at_put [simp]:
  "stream_at d' i' (put_stream d i c s) = (if d' = d \<and> i' = i then Some c else stream_at d' i' s)"
  by (auto simp: stream_at_def put_stream_def js_store.get_put)

lemma drop_stream_fields [simp]:
  "stream_at d' i' (drop_stream d i s) = (if d' = d \<and> i' = i then None else stream_at d' i' s)"
  "out (drop_stream d i s) = out s" "notices (drop_stream d i s) = notices s"
  "closedUp (drop_stream d i s) = closedUp s" "localIdCounter (drop_stream d i s) = localIdCounter s"
  by (auto simp: drop_stream_def stream_at_def js_store.get_drop)

lemma tell_fields [simp]:
  "stream_at d i (tell n s) = stream_at d i s" "out (tell n s) = out s" "notices (tell n s) = notices s @ [n]"
  "closedUp (tell n s) = closedUp s" "localIdCounter (tell n s) = localIdCounter s"
  by (simp_all add: tell_def)

lemma say_fields [simp]:
  "stream_at d i (fst (say ok m s)) = stream_at d i s" "notices (fst (say ok m s)) = notices s"
  "closedUp (fst (say ok m s)) = closedUp s" "localIdCounter (fst (say ok m s)) = localIdCounter s"
  "out (fst (say ok m s)) = out s @ (if ok then [m] else [])" "snd (say ok m s) = (\<not> ok)"
  by (simp_all add: say_def)

lemma refresh_user_eq:
  "\<exists>u ns. refresh_user uid s = s\<lparr>s_users := u, notices := notices s @ ns\<rparr>"
proof (cases "map_get (s_users s) uid")
  case None
  then have "refresh_user uid s = s\<lparr>s_users := s_users s, notices := notices s @ []\<rparr>"
    by (simp add: refresh_user_def recomputeUserStreams_def)
  then show ?thesis by blast
next
  case (Some old)
  let ?u = "map_set uid (streams_of uid s) (s_users s)" and ?ns = "if old \<noteq> streams_of uid s then [UserStreams uid] else []"
  have "refresh_user uid s = s\<lparr>s_users := ?u, notices := notices s @ ?ns\<rparr>"
    using Some by (simp add: refresh_user_def recomputeUserStreams_def tell_def)
  then show ?thesis by blast
qed

lemma refresh_user_fields [simp]:
  "stream_at d i (refresh_user uid s) = stream_at d i s" "out (refresh_user uid s) = out s"
  "closedUp (refresh_user uid s) = closedUp s" "localIdCounter (refresh_user uid s) = localIdCounter s"
proof -
  obtain u ns where eq: "refresh_user uid s = s\<lparr>s_users := u, notices := notices s @ ns\<rparr>"
    using refresh_user_eq by blast
  show "stream_at d i (refresh_user uid s) = stream_at d i s" "out (refresh_user uid s) = out s"
    "closedUp (refresh_user uid s) = closedUp s" "localIdCounter (refresh_user uid s) = localIdCounter s"
    unfolding eq by simp_all
qed

lemma stream_at_close [simp]:
  "stream_at d' i' (closeStream d i r ok s) = (if d' = d \<and> i' = i then None else stream_at d' i' s)"
  by (auto simp: closeStream_def Let_def split: option.split)

lemma closedUp_close:
  "set (closedUp (closeStream d i r ok s)) =
     set (closedUp s) \<union> (if d = Up \<and> stream_at d i s \<noteq> None then {i} else {})"
  by (auto simp: closeStream_def Let_def add_closed_def split: option.split)

lemma counter_close [simp]: "localIdCounter (closeStream d i r ok s) = localIdCounter s"
  by (auto simp: closeStream_def Let_def split: option.split)

definition owes_close :: "dir \<Rightarrow> bool \<Rightarrow> stream option \<Rightarrow> bool" where
  "owes_close d r c = (d = Up \<and> \<not> r \<and> (case c of None \<Rightarrow> False | Some c \<Rightarrow> st_described c))"

lemma out_close:
  "out (closeStream d i r ok s) =
     out s @ (if owes_close d r (stream_at d i s) \<and> ok then [SClose i] else [])"
  by (auto simp: closeStream_def owes_close_def Let_def split: option.split)

lemma notices_refresh: "\<exists>ns. notices (refresh_user uid s) = notices s @ ns"
proof -
  obtain u ns where eq: "refresh_user uid s = s\<lparr>s_users := u, notices := notices s @ ns\<rparr>"
    using refresh_user_eq by blast
  show ?thesis unfolding eq by simp
qed

lemma notices_close:
  "\<exists>ns. notices (closeStream d i r ok s) = notices s @ ns \<and>
     (stream_at d i s \<noteq> None \<longrightarrow> StreamClosed d i r \<in> set ns)"
proof (cases "stream_at d i s")
  case (Some c)
  let ?uid = "\<lambda>t. if d = Up then s_id t else st_source c"
  obtain t where t: "closeStream d i r ok s = tell (StreamClosed d i r) (refresh_user (?uid t) t)"
    "notices t = notices s"
    by (auto simp: closeStream_def Let_def Some simp del: if_split intro: that [of "if d = Up then _ else _"] split: if_split)
  obtain ns where "notices (refresh_user (?uid t) t) = notices t @ ns" using notices_refresh by blast
  then show ?thesis using t by auto
qed (simp add: closeStream_def)

section \<open>Relations that every operation respects\<close>

text \<open>What the properties are about; the other fields of a stream may be edited freely.\<close>

definition core :: "stream \<Rightarrow> (nat \<times> jstr option \<times> bool) \<times> (jsval list \<times> jsval list \<times> bool \<times> jsval list)" where
  "core c = ((st_local c, st_replace c, st_described c), (st_localIce c, st_remoteIce c, pc_remote c, pc_ice c))"

lemma core_fields:
  assumes "core c' = core c"
  shows "st_local c' = st_local c" "st_replace c' = st_replace c" "st_described c' = st_described c"
    "st_localIce c' = st_localIce c" "st_remoteIce c' = st_remoteIce c" "pc_remote c' = pc_remote c"
    "pc_ice c' = pc_ice c"
  using assms by (simp_all add: core_def)

lemma core_edits [simp]:
  "core (c\<lparr>st_label := a\<rparr>) = core c" "core (c\<lparr>st_source := b\<rparr>) = core c"
  "core (c\<lparr>st_source := b, st_username := u\<rparr>) = core c" "core (c\<lparr>st_media := m\<rparr>) = core c"
  "core (c\<lparr>st_waits := w\<rparr>) = core c"
  by (simp_all add: core_def)

fun plain :: "smsg \<Rightarrow> bool" where
  "plain (SAbort i) = True"
| "plain (SRenegotiate i) = True"
| "plain (SRequest i what) = True"
| "plain _ = False"

locale stream_edits =
  fixes R :: "streams \<Rightarrow> streams \<Rightarrow> bool"
  assumes refl: "R s s"
    and trans: "R s t \<Longrightarrow> R t u \<Longrightarrow> R s u"
    and tell: "R s (tell n s)"
    and users: "R s (s\<lparr>s_users := us\<rparr>)"
    and say: "plain m \<Longrightarrow> R s (fst (say ok m s))"
    and edit: "stream_at d i s = Some c \<Longrightarrow> core c' = core c \<Longrightarrow> R s (put_stream d i c' s)"
begin

lemma refresh: "R s (refresh_user uid s)"
proof (cases "map_get (s_users s) uid")
  case None
  then show ?thesis by (simp add: refresh_user_def recomputeUserStreams_def refl)
next
  case (Some old)
  then show ?thesis using users trans [OF users tell] by (simp add: refresh_user_def recomputeUserStreams_def)
qed

lemma refresh_after: "R s t \<Longrightarrow> R s (refresh_user uid t)"
  by (rule trans [OF _ refresh])

lemma await: "R s (await d i w s)"
  by (auto simp: await_def refl split: option.split intro: edit)

lemma await_after: "R s t \<Longrightarrow> R s (await d i w t)"
  by (rule trans [OF _ await])

lemma tell_after: "R s t \<Longrightarrow> R s (tell n t)"
  by (rule trans [OF _ tell])

lemma restart: "R s (fst (restartIce d i modern ok s))"
  by (cases d) (simp_all add: refl await negotiate_def say)

lemma restart_after: "R s t \<Longrightarrow> R s (fst (restartIce d i modern ok t))"
  by (rule trans [OF _ restart])

lemma failed: "R s (fst (offer_failed i ok s))"
  unfolding offer_failed_def by (rule trans [OF tell say]) simp

lemma set_stream: "R s (setStream i kinds s)"
  by (auto simp: setStream_def refl split: option.split intro!: refresh_after edit)

lemma change: "(\<And>c. core (f c) = core c) \<Longrightarrow> R s (modify d i f s)"
  by (auto simp: modify_def refl split: option.split intro: edit)

lemma track: "R s (on_track i media s)"
proof -
  have that: "R s (fst (recomputeUserStreams uid t))" if "R s t" for t uid
    using that users [of t] by (auto simp: recomputeUserStreams_def split: option.split intro: trans)
  then show ?thesis
    by (auto simp: on_track_def Let_def refl case_prod_beta that edit split: option.split intro!: tell_after)
qed

lemma user: "R s (user_event k u s)"
  by (cases k) (auto intro: users refl)

lemma offer_on: "R s t \<Longrightarrow> R s (offer_on i source username t)"
  by (auto simp: offer_on_def split: option.split intro!: await_after tell_after intro: trans [OF _ edit])

end

fun candidate :: "stream_event \<Rightarrow> bool" where
  "candidate (LocalIce d i v) = True"
| "candidate (Server env (GotIce i v)) = True"
| "candidate _ = False"

text \<open>The table in which an offer finds or puts its stream, once what it replaces is gone.\<close>

definition create_down :: "jstr \<Rightarrow> jstr option \<Rightarrow> jstr \<Rightarrow> jstr option \<Rightarrow> bool \<Rightarrow> streams \<Rightarrow> streams" where
  "create_down i label source replace ok s =
     (let (oldLocalId, s) = replace_down replace ok s;
          (l, s) = local_id oldLocalId s
      in put_stream Down i (new_stream l label source) s)"

text \<open>The events that close, create or announce an up stream.\<close>

fun moves_up :: "stream_event \<Rightarrow> bool" where
  "moves_up (NewUp l i pc) = True"
| "moves_up (ClosePage d i) = (d = Up)"
| "moves_up (Settle i w good sdp) = (w = NLocal \<and> good \<or> w = ARemote \<and> \<not> good)"
| "moves_up (Server env (GotAbort i)) = True"
| "moves_up CloseAll = True"
| "moves_up _ = False"

locale stream_rests = stream_edits +
  assumes recv: "stream_at d i s = Some c \<Longrightarrow>
      R s (put_stream d i (flushRemoteIceCandidates (c\<lparr>pc_remote := True\<rparr>)) s)"
    and close_down: "R s (closeStream Down i r ok s)"
    and announce_down: "stream_at Down i s = Some c \<Longrightarrow>
      R s (described Down i c True (fst (say True (SAnswer i sdp) s)))"
    and create_down: "stream_at Up i s = None \<Longrightarrow> stream_at Down i (snd (replace_down replace ok s)) = None \<Longrightarrow>
      R s (create_down i label source replace ok s)"
begin

lemma replaced: "R s (snd (replace_down replace ok s))"
  by (auto simp: replace_down_def refl close_down split: option.split)

lemma offer: "R s (fst (gotOffer i label source username replace pc ok s))"
proof (cases "stream_at Up i s")
  case None
  let ?t = "snd (replace_down replace ok s)"
  show ?thesis
  proof (cases "stream_at Down i ?t = None \<and> pc")
    case True
    then have "fst (gotOffer i label source username replace pc ok s) =
        offer_on i source username (create_down i label source replace ok s)"
      using None by (simp add: gotOffer_def create_down_def Let_def case_prod_beta)
    then show ?thesis using create_down [of i s replace ok] True None by (simp add: offer_on)
  next
    case False
    moreover have "R s (fst (say ok (SAbort i) ?t))" by (rule trans [OF replaced say]) simp
    ultimately show ?thesis using None replaced
      by (auto simp: gotOffer_def Let_def case_prod_beta intro!: offer_on)
  qed
next
  case (Some c)
  then show ?thesis using say by (simp add: gotOffer_def)
qed

lemma continue_rest:
  assumes "stream_at (side w) i s = Some c" and "\<not> (w = NLocal \<and> good)" and "\<not> (w = ARemote \<and> \<not> good)"
  shows "R s (fst (continue_stream i c w good sdp ok s))"
proof (cases w)
  case OLocal
  have no: "say False m s = (s, True)" for m by (simp add: say_def)
  show ?thesis using OLocal assms announce_down [of i s c sdp]
    by (cases good; cases ok) (simp_all add: failed no tell_after say_def)
next
  case ARemote
  then show ?thesis using assms by (auto intro: await_after recv)
next
  case ORemote
  then show ?thesis using assms by (cases good) (auto intro: await_after recv failed)
qed (use assms in \<open>auto simp: refl await failed tell\<close>)

text \<open>A promise settles: the wait goes, and what follows runs.\<close>

lemma settled_after:
  assumes "\<And>c t. R s t \<Longrightarrow> stream_at (side w) i t = Some c \<Longrightarrow> R s (fst (continue_stream i c w good sdp ok t))"
  shows "R s (fst (settle i w good sdp ok s))"
proof (cases "stream_at (side w) i s")
  case (Some c)
  let ?c = "c\<lparr>st_waits := remove1 w (st_waits c)\<rparr>" and ?d = "side w"
  have "R s (put_stream ?d i ?c s)" using Some by (auto intro: edit)
  then have "R s (fst (continue_stream i ?c w good sdp ok (put_stream ?d i ?c s)))"
    by (rule assms) simp
  then show ?thesis using Some by (auto simp: settle_def Let_def refl)
qed (simp add: settle_def refl)

lemma event_rest:
  assumes "\<not> candidate e" and "\<not> moves_up e"
  shows "R s (after_event s (ok, e))"
proof (cases e)
  case (Server env m)
  then show ?thesis using assms
    by (cases m) (auto simp: after_event_def with_up_def offer refl await restart close_down
        simp del: restartIce.simps split: found.split)
next
  case (IceState d i x modern)
  then show ?thesis
    by (auto simp: after_event_def on_live_def on_ice_state_def Let_def refl tell simp del: restartIce.simps intro: restart_after)
next
  case (ClosePage d i)
  then show ?thesis using assms by (cases d) (simp_all add: after_event_def close_down)
next
  case (Settle i w good sdp)
  have "R s (fst (settle i w good sdp ok s))"
    using assms continue_rest by (intro settled_after) (auto simp: Settle intro: trans)
  then show ?thesis by (simp add: Settle after_event_def)
qed (use assms in \<open>auto simp: after_event_def on_live_def refl change set_stream negotiate_def await restart say
       track user simp del: restartIce.simps\<close>)

end

locale stream_moves = stream_rests +
  assumes close_up: "R s (closeStream Up i r ok s)"
    and announce_up: "stream_at Up i s = Some c \<Longrightarrow>
      R s (described Up i (c\<lparr>st_replace := None\<rparr>) True
             (fst (say True (SOffer i (st_described c) (st_replace c) label sdp) s)))"
    and create_up: "i \<notin> used_ids s \<Longrightarrow> may_name l s \<Longrightarrow> R s (fst (newUpStream l i True ok s))"
begin

lemma close: "R s (closeStream d i r ok s)"
  by (cases d) (simp_all add: close_up close_down)

lemma close_after: "R s t \<Longrightarrow> R s (closeStream d i r ok t)"
  by (rule trans [OF _ close])

lemma close_fold: "R s t \<Longrightarrow> R s (fold (\<lambda>i. closeStream d i r ok) is t)"
  by (induction "is" arbitrary: t) (auto intro: close_after)

lemma continue:
  assumes "stream_at (side w) i s = Some c"
  shows "R s (fst (continue_stream i c w good sdp ok s))"
proof (cases "w = NLocal \<and> good \<or> w = ARemote \<and> \<not> good")
  case True
  then show ?thesis using assms announce_up [of i s c "st_label c" sdp]
    by (cases ok) (auto simp: refl say_def intro!: close_after tell)
qed (use assms continue_rest in blast)

lemma event:
  assumes "\<not> candidate e"
  shows "R s (after_event s (ok, e))"
proof (cases "moves_up e")
  case True
  show ?thesis
  proof (cases e)
    case (NewUp l i pc)
    then show ?thesis using create_up [of i s l] by (cases pc) (auto simp: after_event_def newUpStream_def refl)
  next
    case CloseAll
    have "R s (close_all ok s)" unfolding close_all_def Let_def by (intro close_fold refl)
    then show ?thesis by (simp add: CloseAll after_event_def)
  next
    case (Settle i w good sdp)
    have "R s (fst (settle i w good sdp ok s))"
      using continue by (intro settled_after) (auto intro: trans)
    then show ?thesis by (simp add: Settle after_event_def)
  next
    case (Server env m)
    then show ?thesis using True
      by (cases m) (auto simp: after_event_def with_up_def refl close split: found.split)
  qed (use True in \<open>auto simp: after_event_def close\<close>)
qed (use assms event_rest in blast)

end

text \<open>A property of one state that the elementary operations keep.\<close>

locale stream_invariant =
  fixes I :: "streams \<Rightarrow> bool"
  assumes tell: "I s \<Longrightarrow> I (tell n s)"
    and users: "I s \<Longrightarrow> I (s\<lparr>s_users := us\<rparr>)"
    and say: "I s \<Longrightarrow> plain m \<Longrightarrow> I (fst (say ok m s))"
    and edit: "I s \<Longrightarrow> stream_at d i s = Some c \<Longrightarrow> core c' = core c \<Longrightarrow> I (put_stream d i c' s)"
    and recv: "I s \<Longrightarrow> stream_at d i s = Some c \<Longrightarrow>
      I (put_stream d i (flushRemoteIceCandidates (c\<lparr>pc_remote := True\<rparr>)) s)"
    and close: "I s \<Longrightarrow> I (closeStream d i r ok s)"
    and announce_up: "I s \<Longrightarrow> stream_at Up i s = Some c \<Longrightarrow>
      I (described Up i (c\<lparr>st_replace := None\<rparr>) True
             (fst (say True (SOffer i (st_described c) (st_replace c) label sdp) s)))"
    and announce_down: "I s \<Longrightarrow> stream_at Down i s = Some c \<Longrightarrow>
      I (described Down i c True (fst (say True (SAnswer i sdp) s)))"
    and create_up: "I s \<Longrightarrow> i \<notin> used_ids s \<Longrightarrow> may_name l s \<Longrightarrow> I (fst (newUpStream l i True ok s))"
    and create_down: "I s \<Longrightarrow> stream_at Up i s = None \<Longrightarrow> stream_at Down i (snd (replace_down replace ok s)) = None \<Longrightarrow>
      I (create_down i label source replace ok s)"
    and local_ice: "I s \<Longrightarrow> I (fst (gotLocalIce d i v ok s))"
    and remote_ice: "I s \<Longrightarrow> I (gotRemoteIce i v s)"
begin

sublocale moves: stream_moves "\<lambda>s t. I s \<longrightarrow> I t"
  by unfold_locales (auto intro: tell users say edit recv close announce_up announce_down create_up create_down)

lemma step: "I s \<Longrightarrow> I (after_event s e)"
proof (cases "candidate (snd e)")
  case True
  assume "I s"
  then show ?thesis using True local_ice remote_ice
    by (cases "snd e" rule: candidate.cases; cases e) (auto simp: after_event_def)
next
  case False
  assume "I s"
  then show ?thesis using moves.event [of "snd e" s "fst e"] False by simp
qed

lemma run: "I s \<Longrightarrow> I (foldl after_event s es)"
  by (induction es arbitrary: s) (auto intro: step)

end

end
