(* ===== verification/StreamProps.thy ===== *)
theory StreamProps
  imports StreamLaws
begin

text \<open>
  The properties of the streams: a message about a stream that was once published never fails, local
  ids name one stream, candidates are neither lost nor reordered nor sent ahead of the description,
  and the server's table of streams is the client's.
\<close>

section \<open>New streams\<close>

lemma stream_at_none [simp]: "stream_at d i (no_streams me) = None"
  by (cases d) (simp_all add: stream_at_def no_streams_def)

lemma findByLocalId_Some:
  "findByLocalId l s = Some i \<Longrightarrow> \<exists>c. stream_at Up i s = Some c \<and> st_local c = l"
  unfolding findByLocalId_def find_Some_iff by (auto split: option.splits)

lemma findByLocalId_None:
  "findByLocalId l s = None \<Longrightarrow> stream_at Up i s = Some c \<Longrightarrow> st_local c \<noteq> l"
  unfolding findByLocalId_def find_None_iff
  by (auto simp: stream_at_def dest!: bspec dest: map_of_SomeD split: option.splits)

definition replaced_by :: "nat option \<Rightarrow> streams \<Rightarrow> jstr option" where
  "replaced_by l s = Option.bind l (\<lambda>l. findByLocalId l s)"

lemma replaced_by_Some:
  "replaced_by l s = Some i \<Longrightarrow> \<exists>n c. l = Some n \<and> stream_at Up i s = Some c \<and> st_local c = n"
  by (auto simp: replaced_by_def dest: findByLocalId_Some split: bind_splits)

lemma local_id_fields [simp]:
  "stream_at d i (snd (local_id l s)) = stream_at d i s" "out (snd (local_id l s)) = out s"
  "notices (snd (local_id l s)) = notices s" "closedUp (snd (local_id l s)) = closedUp s"
  "s_id (snd (local_id l s)) = s_id s"
  by (auto simp: local_id_def split: option.split)

definition fresh_up :: "nat option \<Rightarrow> streams \<Rightarrow> stream" where
  "fresh_up l s = (new_stream (fst (local_id l s)) None (s_id s))\<lparr>st_replace := replaced_by l s\<rparr>"

lemma s_id_close [simp]: "s_id (closeStream d i r ok s) = s_id s"
proof -
  have "s_id (refresh_user uid t) = s_id t" for uid t
  proof -
    obtain u ns where eq: "refresh_user uid t = t\<lparr>s_users := u, notices := notices t @ ns\<rparr>"
      using refresh_user_eq by blast
    show ?thesis unfolding eq by simp
  qed
  then show ?thesis
    by (auto simp: closeStream_def Let_def say_def tell_def drop_stream_def split: option.split)
qed

lemma new_up:
  assumes "i \<notin> used_ids s"
  shows "stream_at d' i' (fst (newUpStream l i True ok s)) =
      (if d' = Up \<and> i' = i then Some (fresh_up l s)
       else if d' = Up \<and> replaced_by l s = Some i' then None else stream_at d' i' s)"
    and "set (closedUp (fst (newUpStream l i True ok s))) = set (closedUp s) \<union> set_option (replaced_by l s)"
    and "out (fst (newUpStream l i True ok s)) = out s"
    and "localIdCounter (fst (newUpStream l i True ok s)) = localIdCounter s + (if l = None then 1 else 0)"
proof -
  have none: "stream_at Up i s = None"
    using assms by (force simp: used_ids_def stream_at_def dest: map_of_SomeD)
  let ?t = "case replaced_by l s of None \<Rightarrow> s | Some old \<Rightarrow> closeStream Up old True ok s"
  have eq: "fst (newUpStream l i True ok s) =
      put_stream Up i ((new_stream (fst (local_id l ?t)) None (s_id (snd (local_id l ?t))))\<lparr>st_replace := replaced_by l s\<rparr>)
        (snd (local_id l ?t))"
    using none by (simp add: newUpStream_def replaced_by_def Let_def case_prod_beta)
  have t: "fst (local_id l ?t) = fst (local_id l s)" "localIdCounter ?t = localIdCounter s" "s_id ?t = s_id s"
    "out ?t = out s"
    by (auto simp: local_id_def out_close owes_close_def split: option.split)
  have at: "stream_at d' i' ?t = (if d' = Up \<and> replaced_by l s = Some i' then None else stream_at d' i' s)" for d' i'
    by (auto split: option.split)
  have cl: "set (closedUp ?t) = set (closedUp s) \<union> set_option (replaced_by l s)"
    using replaced_by_Some [of l s] by (auto simp: closedUp_close split: option.split)
  show "stream_at d' i' (fst (newUpStream l i True ok s)) =
      (if d' = Up \<and> i' = i then Some (fresh_up l s)
       else if d' = Up \<and> replaced_by l s = Some i' then None else stream_at d' i' s)"
    by (simp add: eq t at fresh_up_def)
  show "set (closedUp (fst (newUpStream l i True ok s))) = set (closedUp s) \<union> set_option (replaced_by l s)"
    by (simp add: eq cl)
  show "out (fst (newUpStream l i True ok s)) = out s" by (simp add: eq t)
  show "localIdCounter (fst (newUpStream l i True ok s)) = localIdCounter s + (if l = None then 1 else 0)"
    unfolding eq using t(2) by (cases l) (simp_all add: local_id_def)
qed

lemma replace_down_at:
  "stream_at d' i' (snd (replace_down r ok s)) = (if d' = Down \<and> r = Some i' \<and> i' \<noteq> [] then None else stream_at d' i' s)"
  "set (closedUp (snd (replace_down r ok s))) = set (closedUp s)"
  "localIdCounter (snd (replace_down r ok s)) = localIdCounter s"
  "out (snd (replace_down r ok s)) = out s"
  by (auto simp: replace_down_def closedUp_close out_close owes_close_def split: option.split)

lemma replace_down_local:
  "fst (replace_down r ok s) = Some l \<Longrightarrow> \<exists>i c. r = Some i \<and> i \<noteq> [] \<and> stream_at Down i s = Some c \<and> st_local c = l"
  by (auto simp: replace_down_def split: option.splits if_splits)

lemma create_down_at:
  "stream_at d' i' (create_down i label source r ok s) =
     (if d' = Down \<and> i' = i
      then Some (new_stream (fst (local_id (fst (replace_down r ok s)) s)) label source)
      else stream_at d' i' (snd (replace_down r ok s)))"
  "set (closedUp (create_down i label source r ok s)) = set (closedUp s)"
  "out (create_down i label source r ok s) = out s"
  "localIdCounter (create_down i label source r ok s) =
     localIdCounter s + (if fst (replace_down r ok s) = None then 1 else 0)"
  by (auto simp: create_down_def Let_def case_prod_beta replace_down_at local_id_def split: option.split)

lemma described_at:
  assumes "stream_at d i s = Some c0"
  shows "stream_at d' i' (described d i c ok s) =
      (if d' = d \<and> i' = i then Some (c\<lparr>st_described := True, st_localIce := []\<rparr>) else stream_at d' i' s)"
    and "closedUp (described d i c ok s) = closedUp s"
    and "localIdCounter (described d i c ok s) = localIdCounter s"
    and "out (described d i c ok s) = out s @ (if ok then map (SIce i) (st_localIce c) else [])"
    and "notices (described d i c ok s) = notices s"
proof -
  have f: "stream_at d' i' (fold (\<lambda>v s. fst (say ok (SIce i v) s)) vs s) = stream_at d' i' s"
    "closedUp (fold (\<lambda>v s. fst (say ok (SIce i v) s)) vs s) = closedUp s"
    "localIdCounter (fold (\<lambda>v s. fst (say ok (SIce i v) s)) vs s) = localIdCounter s"
    "notices (fold (\<lambda>v s. fst (say ok (SIce i v) s)) vs s) = notices s"
    "out (fold (\<lambda>v s. fst (say ok (SIce i v) s)) vs s) = out s @ (if ok then map (SIce i) vs else [])" for vs s
    by (induction vs arbitrary: s) simp_all
  show "stream_at d' i' (described d i c ok s) =
      (if d' = d \<and> i' = i then Some (c\<lparr>st_described := True, st_localIce := []\<rparr>) else stream_at d' i' s)"
    "closedUp (described d i c ok s) = closedUp s"
    "localIdCounter (described d i c ok s) = localIdCounter s"
    "out (described d i c ok s) = out s @ (if ok then map (SIce i) (st_localIce c) else [])"
    "notices (described d i c ok s) = notices s"
    by (simp_all add: described_def flushLocalIceCandidates_def f)
qed

lemma gotLocalIce_at:
  "stream_at d' i' (fst (gotLocalIce d i v ok s)) =
     (if d' = d \<and> i' = i
      then map_option (\<lambda>c. if st_described c then c else c\<lparr>st_localIce := st_localIce c @ [v]\<rparr>) (stream_at d i s)
      else stream_at d' i' s)"
  "closedUp (fst (gotLocalIce d i v ok s)) = closedUp s"
  "localIdCounter (fst (gotLocalIce d i v ok s)) = localIdCounter s"
  "notices (fst (gotLocalIce d i v ok s)) = notices s"
  "out (fst (gotLocalIce d i v ok s)) =
     out s @ (if map_option st_described (stream_at d i s) = Some True \<and> ok then [SIce i v] else [])"
  by (auto simp: gotLocalIce_def split: option.split)

definition ice_side :: "jstr \<Rightarrow> streams \<Rightarrow> dir" where
  "ice_side i s = (if stream_at Up i s \<noteq> None then Up else Down)"

lemma gotRemoteIce_at:
  "stream_at d' i' (gotRemoteIce i v s) =
     (if d' = ice_side i s \<and> i' = i
      then map_option (\<lambda>c. if pc_remote c then c\<lparr>pc_ice := pc_ice c @ [v]\<rparr>
                            else c\<lparr>st_remoteIce := st_remoteIce c @ [v]\<rparr>) (stream_at d' i' s)
      else stream_at d' i' s)"
  "closedUp (gotRemoteIce i v s) = closedUp s" "localIdCounter (gotRemoteIce i v s) = localIdCounter s"
  "notices (gotRemoteIce i v s) = notices s" "out (gotRemoteIce i v s) = out s"
proof -
  show "stream_at d' i' (gotRemoteIce i v s) =
     (if d' = ice_side i s \<and> i' = i
      then map_option (\<lambda>c. if pc_remote c then c\<lparr>pc_ice := pc_ice c @ [v]\<rparr>
                            else c\<lparr>st_remoteIce := st_remoteIce c @ [v]\<rparr>) (stream_at d' i' s)
      else stream_at d' i' s)"
    unfolding gotRemoteIce_def ice_side_def [symmetric] Let_def
    by (cases "stream_at (ice_side i s) i s") auto
qed (simp_all add: gotRemoteIce_def Let_def split: option.split)

section \<open>Streams once published\<close>

definition published :: "jstr \<Rightarrow> streams \<Rightarrow> bool" where
  "published i s \<longleftrightarrow> upStreamFor i s \<noteq> Unknown"

lemma published_iff: "published i s \<longleftrightarrow> stream_at Up i s \<noteq> None \<or> i \<in> set (closedUp s)"
  by (simp add: published_def upStreamFor_def)

interpretation published: stream_invariant "published i"
proof unfold_locales
  show "published i (fst (newUpStream l j True ok s))" if "published i s" and "j \<notin> used_ids s" for s l j ok
    using that(1) by (auto simp: published_iff new_up [OF that(2)])
qed (auto simp: published_iff closedUp_close described_at create_down_at replace_down_at gotLocalIce_at
    gotRemoteIce_at)

text \<open>C21: whatever the server still says about an up stream that this client once published, even after
  it was closed or replaced, is handled without an error; only a request to restart that cannot be
  acted on in a browser of its own accord is left to the stream itself.\<close>

theorem published_streams_known:
  assumes "stream_at Up i (foldl after_event s es) \<noteq> None"
    and "m \<in> {GotAnswer i, GotRenegotiate i, GotAbort i}"
  shows "\<not> snd (stream_step (foldl after_event s (es @ es')) (ok, Server env m))"
proof -
  let ?t = "foldl after_event s (es @ es')"
  have "published i ?t" using assms(1) published.run [of i] by (simp add: published_iff)
  then have "upStreamFor i ?t = Found \<or> upStreamFor i ?t = Gone"
    using found.exhaust by (auto simp: published_def)
  then show ?thesis using assms(2) by (auto simp: with_up_def)
qed

section \<open>Local ids\<close>

definition locals_ok :: "streams \<Rightarrow> bool" where
  "locals_ok s \<longleftrightarrow>
     (\<forall>d i c. stream_at d i s = Some c \<longrightarrow> st_local c < localIdCounter s) \<and>
     (\<forall>d i c d' i' c'. stream_at d i s = Some c \<longrightarrow> stream_at d' i' s = Some c' \<longrightarrow>
        st_local c = st_local c' \<longrightarrow> d = d' \<and> i = i')"

lemma locals_okD:
  "locals_ok s \<Longrightarrow> stream_at d i s = Some c \<Longrightarrow> st_local c < localIdCounter s"
  "locals_ok s \<Longrightarrow> stream_at d i s = Some c \<Longrightarrow> stream_at d' i' s = Some c' \<Longrightarrow> st_local c = st_local c' \<Longrightarrow>
   d = d' \<and> i = i'"
  unfolding locals_ok_def by blast+

lemma locals_ok_same:
  assumes ok: "locals_ok s" and prev: "\<And>d i c. stream_at d i t = Some c \<Longrightarrow>
      \<exists>c'. stream_at d i s = Some c' \<and> st_local c' = st_local c"
    and n: "localIdCounter t = localIdCounter s"
  shows "locals_ok t"
  unfolding locals_ok_def n
proof (intro conjI allI impI)
  fix d i c d' i' c'
  assume t: "stream_at d i t = Some c" "stream_at d' i' t = Some c'" "st_local c = st_local c'"
  then obtain c1 c2 where "stream_at d i s = Some c1" "stream_at d' i' s = Some c2" "st_local c1 = st_local c2"
    using prev by metis
  from locals_okD(2) [OF ok this] show "d = d'" "i = i'" by auto
next
  fix d i c
  assume "stream_at d i t = Some c"
  then obtain c1 where "stream_at d i s = Some c1" "st_local c1 = st_local c" using prev by blast
  with locals_okD(1) [OF ok] show "st_local c < localIdCounter s" by metis
qed

text \<open>A stream whose local id no other live stream has.\<close>

lemma locals_ok_create:
  assumes ok: "locals_ok s"
    and at: "\<And>d' i'. stream_at d' i' t = (if d' = d \<and> i' = i then Some c else old d' i')"
    and old: "\<And>d' i' c'. old d' i' = Some c' \<Longrightarrow> stream_at d' i' s = Some c' \<and> st_local c' \<noteq> st_local c"
    and n: "st_local c < localIdCounter t" "localIdCounter s \<le> localIdCounter t"
  shows "locals_ok t"
  unfolding locals_ok_def
proof (intro conjI allI impI)
  fix d1 i1 c1 d2 i2 c2
  assume t: "stream_at d1 i1 t = Some c1" "stream_at d2 i2 t = Some c2" "st_local c1 = st_local c2"
  then have "d1 = d2 \<and> i1 = i2"
    using old locals_okD(2) [OF ok] unfolding at by (smt (verit) option.inject)
  then show "d1 = d2" "i1 = i2" by auto
next
  fix d1 i1 c1
  assume "stream_at d1 i1 t = Some c1"
  then show "st_local c1 < localIdCounter t"
    using n old [of d1 i1 c1] locals_okD(1) [OF ok, of d1 i1 c1] by (auto simp: at split: if_splits)
qed

lemma new_stream_fields [simp]:
  "st_local (new_stream l label source) = l" "st_replace (new_stream l label source) = None"
  "st_described (new_stream l label source) = False" "st_localIce (new_stream l label source) = []"
  "st_remoteIce (new_stream l label source) = []" "pc_remote (new_stream l label source) = False"
  "pc_ice (new_stream l label source) = []"
  by (simp_all add: new_stream_def)

lemma locals_ok_create_up:
  assumes ok: "locals_ok s" and i: "i \<notin> used_ids s" and l: "may_name l s"
  shows "locals_ok (fst (newUpStream l i True ok' s))"
proof (rule locals_ok_create [OF ok])
  show "stream_at d' i' (fst (newUpStream l i True ok' s)) =
      (if d' = Up \<and> i' = i then Some (fresh_up l s)
       else if d' = Up \<and> replaced_by l s = Some i' then None else stream_at d' i' s)" for d' i'
    by (rule new_up(1) [OF i])
  show "stream_at d' i' s = Some c' \<and> st_local c' \<noteq> st_local (fresh_up l s)"
    if old: "(if d' = Up \<and> replaced_by l s = Some i' then None else stream_at d' i' s) = Some c'" for d' i' c'
  proof -
    have at: "stream_at d' i' s = Some c'" and keep: "d' = Up \<Longrightarrow> replaced_by l s \<noteq> Some i'"
      using old by (auto split: if_splits)
    have "st_local c' \<noteq> n" if n: "l = Some n" for n
    proof (cases d')
      case Up
      show ?thesis
      proof (cases "findByLocalId n s")
        case None
        then show ?thesis using at Up findByLocalId_None by blast
      next
        case (Some j)
        then obtain c where c: "stream_at Up j s = Some c" "st_local c = n" using findByLocalId_Some by blast
        have "i' \<noteq> j" using keep Up Some n by (simp add: replaced_by_def)
        then show ?thesis using locals_okD(2) [OF ok c(1)] at c(2) Up by metis
      qed
    next
      case Down
      then have "(i', c') \<in> set (down s)" using at by (simp add: stream_at_def map_of_SomeD)
      then show ?thesis using l n by (force simp: may_name_def)
    qed
    then show ?thesis using at locals_okD(1) [OF ok at]
      by (cases l) (simp_all add: fresh_up_def local_id_def)
  qed
  show "st_local (fresh_up l s) < localIdCounter (fst (newUpStream l i True ok' s))"
    using l by (auto simp: new_up(4) [OF i] fresh_up_def local_id_def may_name_def split: option.splits)
qed (simp add: new_up(4) [OF i])

lemma locals_ok_create_down:
  assumes ok: "locals_ok s"
  shows "locals_ok (create_down i label source r ok' s)"
proof (rule locals_ok_create [OF ok])
  let ?c = "new_stream (fst (local_id (fst (replace_down r ok' s)) s)) label source"
  show "stream_at d' i' (create_down i label source r ok' s) =
      (if d' = Down \<and> i' = i then Some ?c else stream_at d' i' (snd (replace_down r ok' s)))" for d' i'
    by (rule create_down_at)
  show "stream_at d' i' s = Some c' \<and> st_local c' \<noteq> st_local ?c"
    if "stream_at d' i' (snd (replace_down r ok' s)) = Some c'" for d' i' c'
  proof -
    have at: "stream_at d' i' s = Some c'" and gone: "\<not> (d' = Down \<and> r = Some i' \<and> i' \<noteq> [])"
      using that by (auto simp: replace_down_at split: if_splits)
    show ?thesis
    proof (cases "fst (replace_down r ok' s)")
      case None
      then show ?thesis using locals_okD(1) [OF ok at] at by (simp add: local_id_def)
    next
      case (Some l)
      obtain j c where c: "r = Some j" "j \<noteq> []" "stream_at Down j s = Some c" "st_local c = l"
        using replace_down_local [OF Some] by blast
      then have "d' \<noteq> Down \<or> i' \<noteq> j" using gone by auto
      then have "st_local c' \<noteq> l" using locals_okD(2) [OF ok c(3) at] c(4) by metis
      then show ?thesis using at Some by (simp add: local_id_def)
    qed
  qed
  show "st_local ?c < localIdCounter (create_down i label source r ok' s)"
  proof (cases "fst (replace_down r ok' s)")
    case (Some l)
    obtain j c where "stream_at Down j s = Some c" "st_local c = l" using replace_down_local [OF Some] by blast
    then show ?thesis using Some locals_okD(1) [OF ok] by (auto simp: create_down_at local_id_def)
  qed (simp add: create_down_at local_id_def)
qed (simp add: create_down_at)

interpretation locals: stream_invariant locals_ok
proof unfold_locales
  show "locals_ok (put_stream d i c' s)" if "locals_ok s" "stream_at d i s = Some c" "core c' = core c" for d i c c' s
    by (rule locals_ok_same [OF that(1)]) (use that core_fields(1) [OF that(3)] in \<open>auto split: if_splits\<close>)
  show "locals_ok (put_stream d i (flushRemoteIceCandidates (c\<lparr>pc_remote := True\<rparr>)) s)"
    if "locals_ok s" "stream_at d i s = Some c" for d i c s
    by (rule locals_ok_same [OF that(1)]) (use that in \<open>auto simp: flushRemoteIceCandidates_def split: if_splits\<close>)
  show "locals_ok (closeStream d i r ok s)" if "locals_ok s" for d i r ok s
    by (rule locals_ok_same [OF that]) (auto split: if_splits)
  show "locals_ok (described Up i (c\<lparr>st_replace := None\<rparr>) True (fst (say True m s)))"
    if "locals_ok s" "stream_at Up i s = Some c" for i c s m
    by (rule locals_ok_same [OF that(1)]) (use that in \<open>auto simp: described_at split: if_splits\<close>)
  show "locals_ok (described Down i c True (fst (say True m s)))"
    if "locals_ok s" "stream_at Down i s = Some c" for i c s m
    by (rule locals_ok_same [OF that(1)]) (use that in \<open>auto simp: described_at split: if_splits\<close>)
  show "locals_ok (fst (gotLocalIce d i v ok s))" if "locals_ok s" for d i v ok s
    by (rule locals_ok_same [OF that]) (auto simp: gotLocalIce_at split: if_splits)
  show "locals_ok (gotRemoteIce i v s)" if "locals_ok s" for i v s
    by (rule locals_ok_same [OF that]) (auto simp: gotRemoteIce_at split: if_splits)
  show "locals_ok (tell n s)" "locals_ok (s\<lparr>s_users := us\<rparr>)" "locals_ok (fst (say ok m s))"
    if "locals_ok s" for s n us m ok
    by (rule locals_ok_same [OF that]; simp)+
qed (fact locals_ok_create_up, rule locals_ok_create_down, assumption)

lemma locals_ok_none: "locals_ok (no_streams me)"
  by (simp add: locals_ok_def)

text \<open>Two live streams never have the same local id, up or down, however streams are created,
  replaced and closed; the stream that replaces another takes over its local id, so that its tile
  stays.\<close>

theorem local_ids_name_one_stream:
  assumes "s = foldl after_event (no_streams me) es"
    and "stream_at d i s = Some c" and "stream_at d' i' s = Some c'" and "st_local c = st_local c'"
  shows "d = d' \<and> i = i'"
proof -
  have "locals_ok s" unfolding assms(1) by (rule locals.run [OF locals_ok_none])
  then show ?thesis using assms(2-4) locals_okD(2) by blast
qed

section \<open>Candidates\<close>

text \<open>The local candidates a stream's messages carry, and whether they come after the description.\<close>

fun sent_ice :: "jstr \<Rightarrow> smsg list \<Rightarrow> jsval list" where
  "sent_ice i [] = []"
| "sent_ice i (SIce j v # ms) = (if j = i then v # sent_ice i ms else sent_ice i ms)"
| "sent_ice i (m # ms) = sent_ice i ms"

fun describes :: "jstr \<Rightarrow> smsg \<Rightarrow> bool" where
  "describes i (SOffer j a b c d) = (j = i)"
| "describes i (SAnswer j a) = (j = i)"
| "describes i m = False"

fun ice_after :: "jstr \<Rightarrow> bool \<Rightarrow> smsg list \<Rightarrow> bool" where
  "ice_after i b [] = True"
| "ice_after i b (SIce j v # ms) = ((j = i \<longrightarrow> b) \<and> ice_after i b ms)"
| "ice_after i b (m # ms) = ice_after i (b \<or> describes i m) ms"

lemma sent_ice_append [simp]: "sent_ice i (xs @ ys) = sent_ice i xs @ sent_ice i ys"
  by (induction i xs rule: sent_ice.induct) simp_all

lemma ice_after_append:
  "ice_after i b (xs @ ys) \<longleftrightarrow> ice_after i b xs \<and> ice_after i (b \<or> list_ex (describes i) xs) ys"
  by (induction i b xs rule: ice_after.induct) (auto simp: disj_assoc)

lemma ice_after_mono: "ice_after i b ms \<Longrightarrow> b \<longrightarrow> b' \<Longrightarrow> ice_after i b' ms"
  by (induction i b ms arbitrary: b' rule: ice_after.induct) auto

lemma sent_ice_map [simp]: "sent_ice i (map (SIce j) vs) = (if j = i then vs else [])"
  by (induction vs) auto

lemma ice_after_map [simp]: "ice_after i b (map (SIce j) vs) \<longleftrightarrow> (j = i \<longrightarrow> vs \<noteq> [] \<longrightarrow> b)"
  by (induction vs) auto

lemma no_describes_map [simp]: "\<not> list_ex (describes i) (map (SIce j) vs)"
  by (induction vs) auto

lemma plain_ice [simp]: "plain m \<Longrightarrow> sent_ice i [m] = []" "plain m \<Longrightarrow> ice_after i b [m]"
  "plain m \<Longrightarrow> \<not> describes i m"
  by (cases m; simp)+

fun opposite :: "dir \<Rightarrow> dir" where
  "opposite Up = Down"
| "opposite Down = Up"

text \<open>What is buffered only while it has to be.\<close>

definition buffers_ok :: "stream \<Rightarrow> bool" where
  "buffers_ok c \<longleftrightarrow> (st_described c \<longrightarrow> st_localIce c = []) \<and> (pc_remote c \<longrightarrow> st_remoteIce c = []) \<and>
     (pc_ice c \<noteq> [] \<longrightarrow> pc_remote c)"

text \<open>From one state to another, a stream that is not closed in between turns what it was given, the
  local candidates \<open>vs\<close> and the remote ones \<open>ws\<close>, into messages and into candidates of its peer
  connection.\<close>

definition carried :: "jstr \<Rightarrow> jsval list \<Rightarrow> jsval list \<Rightarrow> smsg list \<Rightarrow> stream \<Rightarrow> stream \<Rightarrow> bool" where
  "carried i vs ws ms c c' \<longleftrightarrow>
     buffers_ok c' \<and>
     st_localIce c @ vs = sent_ice i ms @ st_localIce c' \<and>
     pc_ice c @ st_remoteIce c @ ws = pc_ice c' @ st_remoteIce c' \<and>
     ice_after i (st_described c) ms \<and>
     (st_described c \<longrightarrow> st_described c') \<and>
     (st_described c' \<longrightarrow> st_described c \<or> list_ex (describes i) ms)"

definition flows :: "dir \<Rightarrow> jstr \<Rightarrow> jsval list \<Rightarrow> jsval list \<Rightarrow> streams \<Rightarrow> streams \<Rightarrow> bool" where
  "flows d i vs ws s t \<longleftrightarrow>
     (\<exists>ms ns. out t = out s @ ms \<and> notices t = notices s @ ns \<and>
        (\<forall>c. stream_at d i s = Some c \<longrightarrow> buffers_ok c \<longrightarrow> stream_at (opposite d) i s = None \<longrightarrow>
           (\<exists>r. StreamClosed d i r \<in> set ns) \<or>
           stream_at (opposite d) i t = None \<and> (\<exists>c'. stream_at d i t = Some c' \<and> carried i vs ws ms c c')))"

lemma carried_trans:
  assumes "carried i vs ws ms c c'" and "carried i vs' ws' ms' c' c''"
  shows "carried i (vs @ vs') (ws @ ws') (ms @ ms') c c''"
proof -
  have ice: "ice_after i (st_described c) (ms @ ms')"
    using assms by (auto simp: carried_def ice_after_append intro: ice_after_mono)
  have loc: "st_localIce c @ vs @ vs' = sent_ice i (ms @ ms') @ st_localIce c''"
    using assms unfolding carried_def by (metis append.assoc sent_ice_append)
  have rem: "pc_ice c @ st_remoteIce c @ ws @ ws' = pc_ice c'' @ st_remoteIce c''"
    using assms unfolding carried_def by (metis append.assoc)
  show ?thesis using ice loc rem assms unfolding carried_def by auto
qed

lemma flows_trans:
  assumes "flows d i vs ws s t" and "flows d i vs' ws' t u"
  shows "flows d i (vs @ vs') (ws @ ws') s u"
proof -
  obtain ms ns where st: "out t = out s @ ms" "notices t = notices s @ ns"
    "\<And>c. stream_at d i s = Some c \<Longrightarrow> buffers_ok c \<Longrightarrow> stream_at (opposite d) i s = None \<Longrightarrow>
       (\<exists>r. StreamClosed d i r \<in> set ns) \<or>
       stream_at (opposite d) i t = None \<and> (\<exists>c'. stream_at d i t = Some c' \<and> carried i vs ws ms c c')"
    using assms(1) unfolding flows_def by blast
  obtain ms' ns' where tu: "out u = out t @ ms'" "notices u = notices t @ ns'"
    "\<And>c. stream_at d i t = Some c \<Longrightarrow> buffers_ok c \<Longrightarrow> stream_at (opposite d) i t = None \<Longrightarrow>
       (\<exists>r. StreamClosed d i r \<in> set ns') \<or>
       stream_at (opposite d) i u = None \<and> (\<exists>c'. stream_at d i u = Some c' \<and> carried i vs' ws' ms' c c')"
    using assms(2) unfolding flows_def by blast
  have "(\<exists>r. StreamClosed d i r \<in> set (ns @ ns')) \<or>
      stream_at (opposite d) i u = None \<and>
        (\<exists>c''. stream_at d i u = Some c'' \<and> carried i (vs @ vs') (ws @ ws') (ms @ ms') c c'')"
    if c: "stream_at d i s = Some c" "buffers_ok c" "stream_at (opposite d) i s = None" for c
  proof (cases "\<exists>r. StreamClosed d i r \<in> set (ns @ ns')")
    case False
    then obtain c' where c': "stream_at (opposite d) i t = None" "stream_at d i t = Some c'" "carried i vs ws ms c c'"
      using st(3) [OF c] by auto
    then have "buffers_ok c'" by (simp add: carried_def)
    from tu(3) [OF c'(2) this c'(1)] show ?thesis using False carried_trans [OF c'(3)] by auto
  qed simp
  then show ?thesis
    unfolding flows_def using st(1,2) tu(1,2) by (intro exI [of _ "ms @ ms'"] exI [of _ "ns @ ns'"]) simp
qed

text \<open>The elementary steps.\<close>

lemma flowsI:
  assumes "out t = out s @ ms" and "notices t = notices s @ ns"
    and "\<And>c. stream_at d i s = Some c \<Longrightarrow> buffers_ok c \<Longrightarrow> stream_at (opposite d) i s = None \<Longrightarrow>
           (\<exists>r. StreamClosed d i r \<in> set ns) \<or>
           stream_at (opposite d) i t = None \<and> (\<exists>c'. stream_at d i t = Some c' \<and> carried i vs ws ms c c')"
  shows "flows d i vs ws s t"
  unfolding flows_def using assms by blast

lemma carried_core: "core c' = core c \<Longrightarrow> buffers_ok c \<Longrightarrow> carried i [] [] [] c c'"
  using core_fields [of c' c] by (simp add: carried_def buffers_ok_def)

lemma carried_refl: "buffers_ok c \<Longrightarrow> carried i [] [] [] c c"
  by (simp add: carried_core)

lemma carried_foreign:
  "buffers_ok c \<Longrightarrow> sent_ice i ms = [] \<Longrightarrow> ice_after i (st_described c) ms \<Longrightarrow> carried i [] [] ms c c"
  by (simp add: carried_def)

lemma carried_SClose: "buffers_ok c \<Longrightarrow> carried i [] [] [SClose j] c c"
  by (rule carried_foreign) simp_all

lemma opposite_neq [simp]: "opposite d \<noteq> d" "d \<noteq> opposite d"
  by (cases d; simp)+

lemma notices_new_up:
  assumes "i \<notin> used_ids s"
  shows "\<exists>ns. notices (fst (newUpStream l i True ok s)) = notices s @ ns \<and>
     (\<forall>j. replaced_by l s = Some j \<longrightarrow> StreamClosed Up j True \<in> set ns)"
proof -
  have "stream_at Up i s = None"
    using assms by (force simp: used_ids_def stream_at_def dest: map_of_SomeD)
  then have eq: "notices (fst (newUpStream l i True ok s)) =
      notices (case replaced_by l s of None \<Rightarrow> s | Some old \<Rightarrow> closeStream Up old True ok s)"
    by (simp add: newUpStream_def replaced_by_def Let_def case_prod_beta)
  show ?thesis
  proof (cases "replaced_by l s")
    case (Some j)
    then have "stream_at Up j s \<noteq> None" using replaced_by_Some [of l s j] by auto
    then show ?thesis using notices_close [of Up j True ok s] by (auto simp: eq Some)
  qed (simp add: eq)
qed

lemma notices_create_down:
  "\<exists>ns. notices (create_down i label source r ok s) = notices s @ ns \<and>
     (\<forall>j. r = Some j \<and> j \<noteq> [] \<and> stream_at Down j s \<noteq> None \<longrightarrow> StreamClosed Down j True \<in> set ns)"
proof -
  have eq: "notices (create_down i label source r ok s) = notices (snd (replace_down r ok s))"
    by (simp add: create_down_def Let_def case_prod_beta)
  show ?thesis
  proof (cases "\<exists>j. r = Some j \<and> j \<noteq> [] \<and> stream_at Down j s \<noteq> None")
    case True
    then obtain j where j: "r = Some j" "j \<noteq> []" "stream_at Down j s \<noteq> None" by blast
    then have "snd (replace_down r ok s) = closeStream Down j True ok s" by (auto simp: replace_down_def)
    then show ?thesis using notices_close [of Down j True ok s] j unfolding eq by auto
  next
    case False
    then have "snd (replace_down r ok s) = s" by (auto simp: replace_down_def split: option.split)
    then show ?thesis using False by (auto simp: eq)
  qed
qed

lemma carried_recv:
  "buffers_ok c \<Longrightarrow> carried i [] [] [] c (flushRemoteIceCandidates (c\<lparr>pc_remote := True\<rparr>))"
  by (simp add: carried_def buffers_ok_def flushRemoteIceCandidates_def)

lemma used_stream: "stream_at d i s = Some c \<Longrightarrow> i \<in> used_ids s"
  by (cases d) (force simp: used_ids_def stream_at_def dest: map_of_SomeD)+

lemma flows_same:
  assumes "out t = out s @ ms" and "notices t = notices s @ ns"
    and "stream_at (opposite d) i t = stream_at (opposite d) i s"
    and "\<And>c. stream_at d i s = Some c \<Longrightarrow> buffers_ok c \<Longrightarrow> \<exists>c'. stream_at d i t = Some c' \<and> carried i vs ws ms c c'"
  shows "flows d i vs ws s t"
  using assms by (intro flowsI [OF assms(1,2)]) auto

lemma flows_put:
  assumes c0: "stream_at d' i' s = Some c0" and c1: "\<And>i. buffers_ok c0 \<Longrightarrow> carried i [] [] [] c0 c1"
  shows "flows d i [] [] s (put_stream d' i' c1 s)"
proof (rule flowsI [where ms = "[]" and ns = "[]"])
  fix c
  assume "stream_at d i s = Some c" and "buffers_ok c" and "stream_at (opposite d) i s = None"
  then show "(\<exists>r. StreamClosed d i r \<in> set []) \<or> stream_at (opposite d) i (put_stream d' i' c1 s) = None \<and>
      (\<exists>c'. stream_at d i (put_stream d' i' c1 s) = Some c' \<and> carried i [] [] [] c c')"
    using c0 c1 [of i] by (auto simp: carried_refl)
qed simp_all

lemma flows_close: "flows d i [] [] s (closeStream d' i' r ok s)"
proof -
  obtain ns where ns: "notices (closeStream d' i' r ok s) = notices s @ ns"
    "stream_at d' i' s \<noteq> None \<longrightarrow> StreamClosed d' i' r \<in> set ns" using notices_close by blast
  let ?ms = "if owes_close d' r (stream_at d' i' s) \<and> ok then [SClose i'] else []"
  show ?thesis
  proof (rule flowsI [OF out_close ns(1)])
    fix c
    assume c: "stream_at d i s = Some c" "buffers_ok c" "stream_at (opposite d) i s = None"
    show "(\<exists>r. StreamClosed d i r \<in> set ns) \<or> stream_at (opposite d) i (closeStream d' i' r ok s) = None \<and>
        (\<exists>c'. stream_at d i (closeStream d' i' r ok s) = Some c' \<and> carried i [] [] ?ms c c')"
      using c ns(2) by (cases "d' = d \<and> i' = i") (auto intro: carried_SClose carried_refl)
  qed
qed

lemma flows_announce:
  assumes c0: "stream_at d' i' s = Some c0" and m: "describes i' m" "\<And>j. describes j m \<Longrightarrow> j = i'"
    and c1: "st_localIce c1 = st_localIce c0" "st_remoteIce c1 = st_remoteIce c0" "pc_remote c1 = pc_remote c0"
      "pc_ice c1 = pc_ice c0"
  shows "flows d i [] [] s (described d' i' c1 True (fst (say True m s)))"
proof -
  have at: "stream_at d' i' (fst (say True m s)) = Some c0" using c0 by simp
  note D = described_at [OF at]
  have out: "out (described d' i' c1 True (fst (say True m s))) = out s @ (m # map (SIce i') (st_localIce c0))"
    by (simp add: D c1)
  have sent: "sent_ice j [m] = []" "ice_after j b (m # ms) = ice_after j (b \<or> describes j m) ms" for j b ms
    using m(1) by (cases m; simp)+
  have none: "sent_ice j (m # ms) = sent_ice j ms" for j ms
    using m(1) by (cases m) simp_all
  show ?thesis
  proof (rule flowsI [OF out, where ns = "[]"])
    fix c
    assume c: "stream_at d i s = Some c" "buffers_ok c" "stream_at (opposite d) i s = None"
    show "(\<exists>r. StreamClosed d i r \<in> set []) \<or>
        stream_at (opposite d) i (described d' i' c1 True (fst (say True m s))) = None \<and>
        (\<exists>c'. stream_at d i (described d' i' c1 True (fst (say True m s))) = Some c' \<and>
           carried i [] [] (m # map (SIce i') (st_localIce c0)) c c')"
    proof (cases "i = i'")
      case True
      then have "d = d'" using c c0 by (cases d; cases d') auto
      then show ?thesis using True c c0 m(1) c1
        by (simp add: D carried_def buffers_ok_def sent none)
    next
      case False
      then have "\<not> describes i m" "i' \<noteq> i" using m(2) by blast+
      then show ?thesis using False c by (auto simp: D sent none intro!: carried_foreign)
    qed
  qed (simp add: D)
qed

lemma flows_create_up:
  assumes "i' \<notin> used_ids s"
  shows "flows d i [] [] s (fst (newUpStream l i' True ok s))"
proof -
  obtain ns where ns: "notices (fst (newUpStream l i' True ok s)) = notices s @ ns"
    "\<And>j. replaced_by l s = Some j \<Longrightarrow> StreamClosed Up j True \<in> set ns"
    using notices_new_up [OF assms, of l ok] by blast
  show ?thesis
  proof (rule flowsI [where ms = "[]", OF _ ns(1)])
    fix c
    assume c: "stream_at d i s = Some c" "buffers_ok c" "stream_at (opposite d) i s = None"
    then have "i \<noteq> i'" using used_stream assms by blast
    then show "(\<exists>r. StreamClosed d i r \<in> set ns) \<or>
        stream_at (opposite d) i (fst (newUpStream l i' True ok s)) = None \<and>
        (\<exists>c'. stream_at d i (fst (newUpStream l i' True ok s)) = Some c' \<and> carried i [] [] [] c c')"
      using c ns(2) [of i] by (auto simp: new_up(1) [OF assms] carried_refl)
  qed (simp add: new_up(3) [OF assms])
qed

lemma flows_create_down:
  assumes "stream_at Up i' s = None" and none: "stream_at Down i' (snd (replace_down r ok s)) = None"
  shows "flows d i [] [] s (create_down i' label source r ok s)"
proof -
  obtain ns where ns: "notices (create_down i' label source r ok s) = notices s @ ns"
    "\<And>j. r = Some j \<Longrightarrow> j \<noteq> [] \<Longrightarrow> stream_at Down j s \<noteq> None \<Longrightarrow> StreamClosed Down j True \<in> set ns"
    using notices_create_down [of i' label source r ok s] by blast
  show ?thesis
  proof (rule flowsI [where ms = "[]", OF _ ns(1)])
    fix c
    assume c: "stream_at d i s = Some c" "buffers_ok c" "stream_at (opposite d) i s = None"
    show "(\<exists>r. StreamClosed d i r \<in> set ns) \<or> stream_at (opposite d) i (create_down i' label source r ok s) = None \<and>
        (\<exists>c'. stream_at d i (create_down i' label source r ok s) = Some c' \<and> carried i [] [] [] c c')"
    proof (cases "d = Down \<and> r = Some i \<and> i \<noteq> []")
      case True
      then show ?thesis using ns(2) [of i] c by auto
    next
      case False
      then have "d = Down \<Longrightarrow> i \<noteq> i'" using none c by (auto simp: replace_down_at)
      moreover have "d = Up \<Longrightarrow> i \<noteq> i'" using assms(1) c by auto
      ultimately show ?thesis using c False
        by (cases d) (auto simp: create_down_at replace_down_at carried_refl)
    qed
  qed (simp add: create_down_at)
qed

interpretation flows: stream_moves "flows d i [] []"
proof unfold_locales
  show "flows d i [] [] s u" if "flows d i [] [] s t" "flows d i [] [] t u" for s t u
    using flows_trans [OF that] by simp
  show "flows d i [] [] s (fst (say ok m s))" if "plain m" for m ok s
    by (rule flows_same [where ms = "if ok then [m] else []" and ns = "[]"])
      (use that in \<open>auto intro: carried_foreign carried_refl\<close>)
  show "flows d i [] [] s s" for s
    by (rule flows_same [where ms = "[]" and ns = "[]"]) (auto intro: carried_refl)
  show "flows d i [] [] s (tell n s)" for s n
    by (rule flows_same [where ms = "[]" and ns = "[n]"]) (auto intro: carried_refl)
  show "flows d i [] [] s (s\<lparr>s_users := us\<rparr>)" for s us
    by (rule flows_same [where ms = "[]" and ns = "[]"]) (auto intro: carried_refl)
qed (auto intro: flows_put carried_core carried_recv flows_close flows_announce flows_create_up flows_create_down)

text \<open>The candidates that an event brings for a stream.\<close>

fun local_of :: "dir \<Rightarrow> jstr \<Rightarrow> bool \<times> stream_event \<Rightarrow> jsval list" where
  "local_of d i (ok, LocalIce d' j v) = (if d' = d \<and> j = i then [v] else [])"
| "local_of d i _ = []"

fun remote_of :: "jstr \<Rightarrow> bool \<times> stream_event \<Rightarrow> jsval list" where
  "remote_of i (ok, Server env (GotIce j v)) = (if j = i then [v] else [])"
| "remote_of i _ = []"

lemma flows_local:
  "flows d i (if d' = d \<and> i' = i then [v] else []) [] s (fst (gotLocalIce d' i' v True s))"
proof -
  let ?ms = "if map_option st_described (stream_at d' i' s) = Some True then [SIce i' v] else []"
  show ?thesis
  proof (rule flowsI [where ms = ?ms and ns = "[]"])
    fix c
    assume c: "stream_at d i s = Some c" "buffers_ok c" "stream_at (opposite d) i s = None"
    show "(\<exists>r. StreamClosed d i r \<in> set []) \<or> stream_at (opposite d) i (fst (gotLocalIce d' i' v True s)) = None \<and>
        (\<exists>c'. stream_at d i (fst (gotLocalIce d' i' v True s)) = Some c' \<and>
           carried i (if d' = d \<and> i' = i then [v] else []) [] ?ms c c')"
    proof (cases "i' = i")
      case i: True
      show ?thesis
      proof (cases "d' = d")
        case d: True
        show ?thesis
          using c unfolding i d by (cases "st_described c") (simp_all add: gotLocalIce_at carried_def buffers_ok_def)
      next
        case d: False
        then have "d' = opposite d" by (cases d; cases d') auto
        then show ?thesis using c i d by (simp add: gotLocalIce_at carried_refl)
      qed
    next
      case False
      then have "carried i [] [] ?ms c c" using c(2) by (intro carried_foreign) auto
      then show ?thesis using c False by (simp add: gotLocalIce_at)
    qed
  qed (simp_all add: gotLocalIce_at)
qed

lemma flows_remote: "flows d i [] (if i' = i then [v] else []) s (gotRemoteIce i' v s)"
proof (rule flowsI [where ms = "[]" and ns = "[]"])
  fix c
  assume c: "stream_at d i s = Some c" "buffers_ok c" "stream_at (opposite d) i s = None"
  then have side: "ice_side i s = d" by (cases d) (auto simp: ice_side_def)
  show "(\<exists>r. StreamClosed d i r \<in> set []) \<or> stream_at (opposite d) i (gotRemoteIce i' v s) = None \<and>
      (\<exists>c'. stream_at d i (gotRemoteIce i' v s) = Some c' \<and>
         carried i [] (if i' = i then [v] else []) [] c c')"
    using c side by (cases "i' = i") (auto simp: gotRemoteIce_at carried_def buffers_ok_def)
qed (simp_all add: gotRemoteIce_at)

lemma flows_event: "fst e \<Longrightarrow> flows d i (local_of d i e) (remote_of i e) s (after_event s e)"
proof -
  assume ok: "fst e"
  obtain ev where e: "e = (True, ev)" using ok by (cases e) simp
  show ?thesis
  proof (cases "candidate ev")
    case True
    then show ?thesis unfolding e
      using flows_local [of d i] flows_remote [of d i]
      by (cases ev rule: candidate.cases) (auto simp: after_event_def)
  next
    case False
    then have "local_of d i e = [] \<and> remote_of i e = []"
      unfolding e by (cases ev rule: candidate.cases) auto
    then show ?thesis unfolding e using flows.event [OF False] by simp
  qed
qed

lemma flows_run:
  "list_all fst es \<Longrightarrow>
   flows d i (concat (map (local_of d i) es)) (concat (map (remote_of i) es)) s (foldl after_event s es)"
proof (induction es arbitrary: s)
  case Nil
  then show ?case using flows.refl by simp
next
  case (Cons e es)
  then show ?case using flows_trans [OF flows_event Cons.IH] by simp
qed

definition tables_ok :: "streams \<Rightarrow> bool" where
  "tables_ok s \<longleftrightarrow>
     (\<forall>d i c. stream_at d i s = Some c \<longrightarrow> buffers_ok c \<and> stream_at (opposite d) i s = None)"

lemma tables_okD:
  "tables_ok s \<Longrightarrow> stream_at d i s = Some c \<Longrightarrow> buffers_ok c \<and> stream_at (opposite d) i s = None"
  unfolding tables_ok_def by blast

lemma tables_ok_same:
  assumes "tables_ok s"
    and "\<And>d i c. stream_at d i t = Some c \<Longrightarrow>
      (\<exists>c0. stream_at d i s = Some c0 \<and> (buffers_ok c0 \<longrightarrow> buffers_ok c))"
  shows "tables_ok t"
  unfolding tables_ok_def
proof (intro allI impI)
  fix d i c
  assume "stream_at d i t = Some c"
  then obtain c0 where c0: "stream_at d i s = Some c0" "buffers_ok c0 \<longrightarrow> buffers_ok c" using assms(2) by blast
  moreover have "stream_at (opposite d) i t = None"
    using assms(2) [of "opposite d" i] tables_okD [OF assms(1) c0(1)] by (cases "stream_at (opposite d) i t") auto
  ultimately show "buffers_ok c \<and> stream_at (opposite d) i t = None" using tables_okD [OF assms(1)] by blast
qed

lemma tables_ok_create_up:
  assumes s: "tables_ok s" and i: "i \<notin> used_ids s"
  shows "tables_ok (fst (newUpStream l i True ok s))"
  unfolding tables_ok_def
proof (intro allI impI)
  fix d j c
  assume c: "stream_at d j (fst (newUpStream l i True ok s)) = Some c"
  show "buffers_ok c \<and> stream_at (opposite d) j (fst (newUpStream l i True ok s)) = None"
  proof (cases "j = i")
    case True
    have "stream_at Down i s = None" using used_stream i by (cases "stream_at Down i s") blast+
    then show ?thesis using c unfolding True
      by (cases d) (auto simp: new_up(1) [OF i] fresh_up_def buffers_ok_def)
  next
    case False
    then have "stream_at d j s = Some c" using c by (simp add: new_up(1) [OF i] split: if_splits)
    then show ?thesis using tables_okD [OF s] False by (simp add: new_up(1) [OF i])
  qed
qed

lemma tables_ok_create_down:
  assumes s: "tables_ok s" and i: "stream_at Up i s = None"
  shows "tables_ok (create_down i label source r ok s)"
  unfolding tables_ok_def
proof (intro allI impI)
  fix d j c
  assume c: "stream_at d j (create_down i label source r ok s) = Some c"
  show "buffers_ok c \<and> stream_at (opposite d) j (create_down i label source r ok s) = None"
  proof (cases "j = i")
    case True
    show ?thesis using c i unfolding True
      by (cases d) (auto simp: create_down_at replace_down_at buffers_ok_def split: if_splits)
  next
    case False
    then have "stream_at d j s = Some c" using c by (simp add: create_down_at replace_down_at split: if_splits)
    then show ?thesis using tables_okD [OF s] False by (simp add: create_down_at replace_down_at)
  qed
qed

interpretation tables: stream_invariant tables_ok
proof unfold_locales
  show "tables_ok (fst (gotLocalIce d i v ok s))" if "tables_ok s" for d i v ok s
    by (rule tables_ok_same [OF that])
      (auto simp: gotLocalIce_at buffers_ok_def split: if_splits)
  show "tables_ok (gotRemoteIce i v s)" if "tables_ok s" for i v s
  proof (rule tables_ok_same [OF that])
    fix d j c
    let ?f = "\<lambda>c. if pc_remote c then c\<lparr>pc_ice := pc_ice c @ [v]\<rparr> else c\<lparr>st_remoteIce := st_remoteIce c @ [v]\<rparr>"
    assume "stream_at d j (gotRemoteIce i v s) = Some c"
    then obtain c0 where "stream_at d j s = Some c0" "c = c0 \<or> c = ?f c0"
      unfolding gotRemoteIce_at(1) by (cases "d = ice_side i s \<and> j = i") (simp_all, blast)
    then show "\<exists>c0. stream_at d j s = Some c0 \<and> (buffers_ok c0 \<longrightarrow> buffers_ok c)"
      by (cases "pc_remote c0") (auto simp: buffers_ok_def)
  qed
  show "tables_ok (put_stream d i c' s)" if "tables_ok s" "stream_at d i s = Some c" "core c' = core c" for d i c c' s
    by (rule tables_ok_same [OF that(1)])
      (use that core_fields [OF that(3)] in \<open>auto simp: buffers_ok_def split: if_splits\<close>)
  show "tables_ok (put_stream d i (flushRemoteIceCandidates (c\<lparr>pc_remote := True\<rparr>)) s)"
    if "tables_ok s" "stream_at d i s = Some c" for d i c s
    by (rule tables_ok_same [OF that(1)])
      (use that in \<open>auto simp: buffers_ok_def flushRemoteIceCandidates_def split: if_splits\<close>)
  show "tables_ok (closeStream d i r ok s)" if "tables_ok s" for d i r ok s
    by (rule tables_ok_same [OF that]) (auto split: if_splits)
  show "tables_ok (described Up i (c\<lparr>st_replace := None\<rparr>) True (fst (say True m s)))"
    if "tables_ok s" "stream_at Up i s = Some c" for i c s m
    by (rule tables_ok_same [OF that(1)]) (use that in \<open>auto simp: described_at buffers_ok_def split: if_splits\<close>)
  show "tables_ok (described Down i c True (fst (say True m s)))"
    if "tables_ok s" "stream_at Down i s = Some c" for i c s m
    by (rule tables_ok_same [OF that(1)]) (use that in \<open>auto simp: described_at buffers_ok_def split: if_splits\<close>)
  show "tables_ok (tell n s)" "tables_ok (s\<lparr>s_users := us\<rparr>)" "tables_ok (fst (say ok m s))"
    if "tables_ok s" for s n us m ok
    by (rule tables_ok_same [OF that]; simp)+
qed (rule tables_ok_create_up, assumption+, rule tables_ok_create_down, assumption+)


section \<open>Witnesses\<close>

text \<open>The first offer of an up stream, in a browser that accepts it.\<close>

definition publish :: "nat option \<Rightarrow> jstr \<Rightarrow> (bool \<times> stream_event) list" where
  "publish l i = [(True, NewUp l i True), (True, Negotiate i), (True, Settle i (NOffer False) True []),
     (True, Settle i NLocal True [])]"

lemmas stream_eval = after_event_def newUpStream_def findByLocalId_def local_id_def put_stream_def stream_at_def
  new_stream_def no_streams_def negotiate_def await_def settle_def side.simps say_def described_def
  flushLocalIceCandidates_def closeStream_def refresh_user_def recomputeUserStreams_def streams_of_def
  drop_stream_def add_closed_def tell_def used_ids_def may_name_def gotLocalIce_def gotRemoteIce_def
  with_up_def upStreamFor_def publish_def flushRemoteIceCandidates_def gotOffer_def replace_down_def
  offer_on_def on_track_def add_media_def label_key_def add_kind_def

theorem published_streams_known_witness:
  "let s = foldl after_event (no_streams [7]) (publish None [1] @ publish (Some 0) [2])
   in stream_at Up [1] s = None \<and> \<not> snd (stream_step s (True, Server (True, True) (GotAnswer [1])))"
proof -
  have "stream_at Up [1] (foldl after_event (no_streams [7]) (publish None [1])) \<noteq> None" by (simp add: stream_eval)
  moreover have "GotAnswer [1] \<in> {GotAnswer [1], GotRenegotiate [1], GotAbort [1]}" by simp
  moreover have "stream_at Up [1] (foldl after_event (no_streams [7]) (publish None [1] @ publish (Some 0) [2])) = None"
    by (simp add: stream_eval)
  ultimately show ?thesis
    unfolding Let_def using published_streams_known [of "[1]" "no_streams [7]" "publish None [1]" "GotAnswer [1]"] by blast
qed

theorem local_ids_name_one_stream_witness:
  "let s = foldl after_event (no_streams [7]) (publish None [1] @ publish (Some 0) [2])
   in (\<exists>c. stream_at Up [2] s = Some c \<and> st_local c = 0) \<and>
      (\<forall>c. stream_at Up [1] s = Some c \<longrightarrow> st_local c \<noteq> 0)"
proof -
  define s where "s = foldl after_event (no_streams [7]) (publish None [1] @ publish (Some 0) [2])"
  have two: "\<exists>c. stream_at Up [2] s = Some c \<and> st_local c = 0" by (simp add: s_def stream_eval)
  then obtain c where c: "stream_at Up [2] s = Some c" "st_local c = 0" by blast
  have "st_local c' \<noteq> 0" if "stream_at Up [1] s = Some c'" for c'
    using local_ids_name_one_stream [OF s_def c(1) that] c(2) by auto
  then show ?thesis using two by (simp add: Let_def s_def)
qed


end
