(* ===== verification/StreamServer.thy ===== *)
theory StreamServer
  imports StreamProps
begin

text \<open>
  What the server makes of the messages about up streams, against the client's own table; and the
  runs in which the two part.
\<close>

section \<open>The server's table\<close>

text \<open>An offer adds its stream and removes the one it replaces, a close removes one
  (rtpconn/webclient.go, \<open>gotOffer\<close>, \<open>delUpConn\<close>); the other messages change no up stream.\<close>

fun server_up :: "jstr list \<Rightarrow> smsg \<Rightarrow> jstr list" where
  "server_up v (SOffer i again r label sdp) = filter (\<lambda>j. r \<noteq> Some j) (add_closed i v)"
| "server_up v (SClose i) = filter (\<lambda>j. j \<noteq> i) v"
| "server_up v _ = v"

definition server_view :: "smsg list \<Rightarrow> jstr list" where
  "server_view ms = foldl server_up [] ms"

lemma server_view_snoc [simp]: "server_view (ms @ [m]) = server_up (server_view ms) m"
  by (simp add: server_view_def)

fun no_news :: "smsg \<Rightarrow> bool" where
  "no_news (SOffer i again r label sdp) = False"
| "no_news (SClose i) = False"
| "no_news _ = True"

lemma server_view_no_news: "list_all no_news ms' \<Longrightarrow> server_view (ms @ ms') = server_view ms"
proof (induction ms' arbitrary: ms)
  case (Cons m ms')
  from Cons.IH [of "ms @ [m]"] Cons.prems show ?case by (cases m) simp_all
qed simp

section \<open>Mirroring\<close>

text \<open>Whether an up stream's offer is out, and what it is to replace.\<close>

definition status :: "jstr \<Rightarrow> streams \<Rightarrow> (bool \<times> jstr option) option" where
  "status i s = map_option (\<lambda>c. (st_described c, st_replace c)) (stream_at Up i s)"

definition offered :: "(jstr \<Rightarrow> (bool \<times> jstr option) option) \<Rightarrow> jstr set" where
  "offered f = {i. \<exists>r. f i = Some (True, r)}"

definition pending :: "(jstr \<Rightarrow> (bool \<times> jstr option) option) \<Rightarrow> jstr set" where
  "pending f = {r. \<exists>i b. f i = Some (b, Some r)}"

definition mirrors :: "(jstr \<Rightarrow> (bool \<times> jstr option) option) \<Rightarrow> jstr set \<Rightarrow> jstr set \<Rightarrow> bool" where
  "mirrors f C V \<longleftrightarrow>
     (\<forall>i r. f i = Some (True, r) \<longrightarrow> r = None) \<and>
     (\<forall>i b r. f i = Some (b, Some r) \<longrightarrow> r \<in> C \<and> (\<forall>i' b'. f i' = Some (b', Some r) \<longrightarrow> i' = i)) \<and>
     (\<forall>i \<in> C. f i = None) \<and> offered f \<subseteq> V \<and> V \<subseteq> offered f \<union> pending f"

lemma mirrorsD:
  assumes "mirrors f C V"
  shows "f i = Some (True, r) \<Longrightarrow> r = None" "f i = Some (b, Some x) \<Longrightarrow> x \<in> C"
    "f i = Some (b, Some x) \<Longrightarrow> f i' = Some (b', Some x) \<Longrightarrow> i' = i" "i \<in> C \<Longrightarrow> f i = None"
    "f i = Some (True, None) \<Longrightarrow> i \<in> V" "v \<in> V \<Longrightarrow> v \<in> offered f \<union> pending f"
  using assms unfolding mirrors_def offered_def by blast+

lemma mirrorsI:
  assumes "\<And>i r. f i = Some (True, r) \<Longrightarrow> r = None" and "\<And>i b x. f i = Some (b, Some x) \<Longrightarrow> x \<in> C"
    and "\<And>i b x i' b'. f i = Some (b, Some x) \<Longrightarrow> f i' = Some (b', Some x) \<Longrightarrow> i' = i"
    and "\<And>i. i \<in> C \<Longrightarrow> f i = None" and "\<And>i r. f i = Some (True, r) \<Longrightarrow> i \<in> V"
    and "\<And>v. v \<in> V \<Longrightarrow> v \<in> offered f \<union> pending f"
  shows "mirrors f C V"
  unfolding mirrors_def
proof (intro conjI)
  show "offered f \<subseteq> V" using assms(5) by (auto simp: offered_def)
  show "V \<subseteq> offered f \<union> pending f" using assms(6) by blast
qed (use assms(1-4) in blast)+

text \<open>A stream goes: its offer is out, or it replaces nothing.\<close>

lemma mirrors_close:
  assumes m: "mirrors f C V" and i: "f i = Some (b, r)" "b \<or> r = None"
  shows "mirrors (f(i := None)) (insert i C) (V - {i})"
proof -
  let ?f = "f(i := None)"
  have r: "r = None" using i mirrorsD(1) [OF m, of i r] by auto
  have old: "f j = Some x" "j \<noteq> i" if "?f j = Some x" for j x using that by (auto split: if_splits)
  show ?thesis
  proof (rule mirrorsI)
    show "x = None" if "?f j = Some (True, x)" for j x using mirrorsD(1) [OF m] old [OF that] by blast
    show "x \<in> insert i C" if "?f j = Some (b', Some x)" for j b' x using mirrorsD(2) [OF m] old [OF that] by blast
    show "i' = j" if "?f j = Some (b1, Some x)" "?f i' = Some (b2, Some x)" for j b1 x i' b2
      using mirrorsD(3) [OF m] old [OF that(1)] old [OF that(2)] by blast
    show "?f j = None" if "j \<in> insert i C" for j using that mirrorsD(4) [OF m, of j] by auto
    show "j \<in> V - {i}" if "?f j = Some (True, x)" for j x
      using mirrorsD(1,5) [OF m] old [OF that] by blast
    show "v \<in> offered ?f \<union> pending ?f" if v: "v \<in> V - {i}" for v
    proof -
      have "v \<in> offered f \<union> pending f" using mirrorsD(6) [OF m] v by blast
      moreover have "v \<in> offered ?f" if "v \<in> offered f" using that v by (auto simp: offered_def)
      moreover have "v \<in> pending ?f" if "v \<in> pending f"
      proof -
        obtain j b' where "f j = Some (b', Some v)" using \<open>v \<in> pending f\<close> by (auto simp: pending_def)
        then have "?f j = Some (b', Some v)" using i r by auto
        then show ?thesis unfolding pending_def by blast
      qed
      ultimately show ?thesis by blast
    qed
  qed
qed

lemma mirrors_create:
  assumes m: "mirrors f C V" and i: "f i = None" "i \<notin> C"
  shows "mirrors (f(i := Some (False, None))) C V"
proof -
  let ?f = "f(i := Some (False, None))"
  have t: "f j = Some (True, x)" if "?f j = Some (True, x)" for j x using that by (auto split: if_splits)
  have w: "f j = Some (b, Some x)" if "?f j = Some (b, Some x)" for j b x using that by (auto split: if_splits)
  show ?thesis
  proof (rule mirrorsI)
    show "x = None" if "?f j = Some (True, x)" for j x using mirrorsD(1) [OF m] t [OF that] by blast
    show "x \<in> C" if "?f j = Some (b', Some x)" for j b' x using mirrorsD(2) [OF m] w [OF that] by blast
    show "i' = j" if "?f j = Some (b1, Some x)" "?f i' = Some (b2, Some x)" for j b1 x i' b2
      using mirrorsD(3) [OF m] w [OF that(1)] w [OF that(2)] by blast
    show "?f j = None" if "j \<in> C" for j using that i(2) mirrorsD(4) [OF m, of j] by auto
    show "j \<in> V" if "?f j = Some (True, x)" for j x using mirrorsD(1,5) [OF m] t [OF that] by blast
    show "v \<in> offered ?f \<union> pending ?f" if v: "v \<in> V" for v
    proof -
      have "f j = Some y \<Longrightarrow> ?f j = Some y" for j y using i(1) by auto
      then show ?thesis using mirrorsD(6) [OF m v] unfolding offered_def pending_def by blast
    qed
  qed
qed

lemma mirrors_replace:
  assumes m: "mirrors f C V" and old: "f old = Some (b, r)" "b \<or> r = None" and i: "f i = None" "i \<notin> C"
  shows "mirrors (f(old := None, i := Some (False, Some old))) (insert old C) V"
proof -
  let ?f = "f(old := None, i := Some (False, Some old))"
  have r: "r = None" using old mirrorsD(1) [OF m, of old r] by auto
  have io: "i \<noteq> old" "old \<notin> C" using i old(1) mirrorsD(4) [OF m, of old] by auto
  have t: "f j = Some (True, x)" if "?f j = Some (True, x)" for j x using that by (auto split: if_splits)
  have w: "j = i \<and> x = old \<or> f j = Some (b, Some x) \<and> j \<noteq> i" if "?f j = Some (b, Some x)" for j b x
    using that by (auto split: if_splits)
  show ?thesis
  proof (rule mirrorsI)
    show "x = None" if "?f j = Some (True, x)" for j x using mirrorsD(1) [OF m] t [OF that] by blast
    show "x \<in> insert old C" if "?f j = Some (b', Some x)" for j b' x using mirrorsD(2) [OF m] w [OF that] by blast
    show "i' = j" if "?f j = Some (b1, Some x)" "?f i' = Some (b2, Some x)" for j b1 x i' b2
      using mirrorsD(2,3) [OF m] w [OF that(1)] w [OF that(2)] io(2) by metis
    show "?f j = None" if "j \<in> insert old C" for j using that io(1) i(2) mirrorsD(4) [OF m, of j] by auto
    show "j \<in> V" if "?f j = Some (True, x)" for j x using mirrorsD(1,5) [OF m] t [OF that] by blast
    show "v \<in> offered ?f \<union> pending ?f" if v: "v \<in> V" for v
    proof -
      have "old \<in> pending ?f" unfolding pending_def by auto
      moreover have "v \<in> offered ?f" if "v \<in> offered f" "v \<noteq> old" using that i(1) by (auto simp: offered_def)
      moreover have "v \<in> pending ?f" if "v \<in> pending f"
      proof -
        obtain j b' where j: "f j = Some (b', Some v)" using \<open>v \<in> pending f\<close> by (auto simp: pending_def)
        then have "j \<noteq> old" "j \<noteq> i" using old r i(1) by auto
        then have "?f j = Some (b', Some v)" using j by simp
        then show ?thesis unfolding pending_def by blast
      qed
      ultimately show ?thesis using mirrorsD(6) [OF m v] by blast
    qed
  qed
qed

lemma mirrors_announce:
  assumes m: "mirrors f C V" and i: "f i = Some (b, r)"
  shows "mirrors (f(i := Some (True, None))) C (insert i V - set_option r)"
proof -
  let ?f = "f(i := Some (True, None))" and ?V = "insert i V - set_option r"
  have t: "j = i \<and> x = None \<or> f j = Some (True, x)" if "?f j = Some (True, x)" for j x
    using that by (auto split: if_splits)
  have w: "f j = Some (b, Some x)" if "?f j = Some (b, Some x)" for j b x using that by (auto split: if_splits)
  have gone: "f x = None" if "r = Some x" for x
    using mirrorsD(2) [OF m, of i b x] mirrorsD(4) [OF m, of x] i that by simp
  show ?thesis
  proof (rule mirrorsI)
    show "x = None" if "?f j = Some (True, x)" for j x using mirrorsD(1) [OF m] t [OF that] by blast
    show "x \<in> C" if "?f j = Some (b', Some x)" for j b' x using mirrorsD(2) [OF m] w [OF that] by blast
    show "i' = j" if "?f j = Some (b1, Some x)" "?f i' = Some (b2, Some x)" for j b1 x i' b2
      using mirrorsD(3) [OF m] w [OF that(1)] w [OF that(2)] by blast
    show "?f j = None" if "j \<in> C" for j using that i mirrorsD(4) [OF m, of j] by auto
    show "j \<in> ?V" if "?f j = Some (True, x)" for j x
    proof -
      have "j = i \<or> f j = Some (True, None)" using t [OF that] mirrorsD(1) [OF m, of j x] by auto
      then have "j \<in> insert i V" using mirrorsD(5) [OF m, of j] by blast
      moreover have "r \<noteq> Some j" using gone [of j] i \<open>j = i \<or> _\<close> by auto
      ultimately show ?thesis by (cases r) auto
    qed
    show "v \<in> offered ?f \<union> pending ?f" if v: "v \<in> ?V" for v
    proof (cases "v \<in> pending f \<and> v \<noteq> i")
      case True
      then obtain j b' where j: "f j = Some (b', Some v)" by (auto simp: pending_def)
      then have "j \<noteq> i" using v i by auto
      then have "?f j = Some (b', Some v)" using j by simp
      then show ?thesis unfolding pending_def by blast
    next
      case False
      then have "v = i \<or> v \<in> offered f" using v mirrorsD(6) [OF m, of v] by blast
      then show ?thesis by (auto simp: offered_def)
    qed
  qed
qed

section \<open>The client's side of the mirror\<close>

definition mirror :: "streams \<Rightarrow> bool" where
  "mirror s \<longleftrightarrow> mirrors (\<lambda>i. status i s) (set (closedUp s)) (set (server_view (out s)))"

text \<open>Steps that change neither an up stream's part in it nor what the server knows.\<close>

definition quiet :: "streams \<Rightarrow> streams \<Rightarrow> bool" where
  "quiet s t \<longleftrightarrow> (\<forall>i. status i t = status i s) \<and> set (closedUp t) = set (closedUp s) \<and>
     server_view (out t) = server_view (out s)"

lemma mirror_quiet: "quiet s t \<Longrightarrow> mirror s \<Longrightarrow> mirror t"
  by (simp add: quiet_def mirror_def)

lemma quiet_status: "quiet s t \<Longrightarrow> status i t = status i s"
  by (simp add: quiet_def)

lemma quietI:
  assumes "\<And>i. status i t = status i s" and "set (closedUp t) = set (closedUp s)"
    and "out t = out s @ ms" and "list_all no_news ms"
  shows "quiet s t"
  using assms server_view_no_news by (simp add: quiet_def)

lemma status_put [simp]:
  "status j (put_stream d i c s) = (if d = Up \<and> j = i then Some (st_described c, st_replace c) else status j s)"
  by (simp add: status_def)

lemma status_none: "status i s = None \<longleftrightarrow> stream_at Up i s = None"
  by (simp add: status_def)

lemma no_news_ice [simp]: "list_all no_news (map (SIce i) vs)"
  by (induction vs) simp_all

lemma no_news_plain: "plain m \<Longrightarrow> no_news m"
  by (cases m) simp_all

interpretation quiet: stream_rests quiet
proof unfold_locales
  show "quiet s (fst (say ok m s))" if "plain m" for m ok s
    by (rule quietI [where ms = "if ok then [m] else []"]) (use that in \<open>simp_all add: status_def no_news_plain\<close>)
  show "quiet s (put_stream d i c' s)" if "stream_at d i s = Some c" "core c' = core c" for d i c c' s
    by (rule quietI [where ms = "[]"])
      (use that core_fields [OF that(2)] in \<open>auto simp: status_def\<close>)
  show "quiet s (put_stream d i (flushRemoteIceCandidates (c\<lparr>pc_remote := True\<rparr>)) s)" if "stream_at d i s = Some c" for d i c s
    by (rule quietI [where ms = "[]"]) (use that in \<open>auto simp: status_def flushRemoteIceCandidates_def\<close>)
  show "quiet s (closeStream Down i r ok s)" for i r ok s
    by (rule quietI [where ms = "[]"]) (auto simp: status_def closedUp_close out_close owes_close_def)
  show "quiet s (described Down i c True (fst (say True (SAnswer i sdp) s)))" if "stream_at Down i s = Some c" for i c s sdp
    by (rule quietI [where ms = "SAnswer i sdp # map (SIce i) (st_localIce c)"])
      (use that in \<open>auto simp: status_def described_at\<close>)
  show "quiet s (create_down i label source r ok s)" for i label source r ok s
    by (rule quietI [where ms = "[]"]) (auto simp: status_def create_down_at replace_down_at)
qed (auto simp: quiet_def status_def tell_def)

lemma quiet_candidate: "candidate e \<Longrightarrow> quiet s (after_event s (ok, e))"
proof (cases e rule: candidate.cases)
  case (1 d i v)
  have "status j (fst (gotLocalIce d i v ok s)) = status j s" for j
  proof (cases "stream_at Up j s")
    case (Some c)
    then show ?thesis by (cases "st_described c"; cases "Up = d \<and> j = i") (auto simp: status_def gotLocalIce_at)
  qed (auto simp: status_def gotLocalIce_at)
  then show ?thesis using 1
    by (intro quietI [where ms = "if map_option st_described (stream_at d i s) = Some True \<and> ok then [SIce i v] else []"])
      (simp_all add: after_event_def gotLocalIce_at)
next
  case (2 env i v)
  have "status j (gotRemoteIce i v s) = status j s" for j
  proof (cases "stream_at Up j s")
    case (Some c)
    then show ?thesis
      by (cases "pc_remote c"; cases "Up = ice_side i s \<and> j = i") (auto simp: status_def gotRemoteIce_at)
  qed (auto simp: status_def gotRemoteIce_at)
  then show ?thesis using 2
    by (intro quietI [where ms = "[]"]) (simp_all add: after_event_def gotRemoteIce_at)
qed simp_all

text \<open>Closing, replacing and announcing an up stream.\<close>

definition waits_to_replace :: "jstr \<Rightarrow> streams \<Rightarrow> bool" where
  "waits_to_replace i s \<longleftrightarrow> (case status i s of Some (False, Some r) \<Rightarrow> True | _ \<Rightarrow> False)"

lemma waits_status:
  "status i s = Some (b, r) \<Longrightarrow> \<not> waits_to_replace i s \<Longrightarrow> b \<or> r = None"
  by (cases b; cases r) (simp_all add: waits_to_replace_def)

lemma status_close: "status j (closeStream Up i r ok s) = (if j = i then None else status j s)"
  by (simp add: status_def)

lemma mirror_close:
  assumes m: "mirror s" and w: "\<not> waits_to_replace i s"
  shows "mirror (closeStream Up i False True s)"
proof (cases "stream_at Up i s")
  case None
  then show ?thesis using m by (simp add: closeStream_def)
next
  case (Some c)
  have f: "status i s = Some (st_described c, st_replace c)" by (simp add: status_def Some)
  let ?V = "set (server_view (out s))"
  have "mirrors ((\<lambda>j. status j s)(i := None)) (insert i (set (closedUp s))) (?V - {i})"
    by (rule mirrors_close [OF m [unfolded mirror_def] f waits_status [OF f w]])
  moreover have "set (server_view (out (closeStream Up i False True s))) = ?V - {i}"
  proof (cases "st_described c")
    case False
    have "i \<notin> ?V"
    proof
      assume "i \<in> ?V"
      with mirrorsD(6) [OF m [unfolded mirror_def]] have "i \<in> offered (\<lambda>i. status i s) \<union> pending (\<lambda>i. status i s)" .
      then have "i \<in> set (closedUp s)" using f False mirrorsD(2) [OF m [unfolded mirror_def]]
        by (auto simp: offered_def pending_def)
      then show False using f mirrorsD(4) [OF m [unfolded mirror_def]] by simp
    qed
    then show ?thesis using False Some by (simp add: out_close owes_close_def)
  qed (auto simp: out_close owes_close_def Some)
  moreover have "(\<lambda>j. status j (closeStream Up i False True s)) = (\<lambda>j. status j s)(i := None)"
    by (auto simp: status_close)
  ultimately show ?thesis using Some by (simp add: mirror_def closedUp_close)
qed

lemma mirror_new:
  assumes m: "mirror s" and i: "i \<notin> used_ids s" and w: "\<And>j. replaced_by l s = Some j \<Longrightarrow> \<not> waits_to_replace j s"
  shows "mirror (fst (newUpStream l i True True s))"
proof -
  let ?t = "fst (newUpStream l i True True s)"
  note m' = m [unfolded mirror_def]
  have fresh: "status i s = None" "i \<notin> set (closedUp s)"
    using i used_stream [of Up i s] by (auto simp: status_none used_ids_def)
  have st: "status j ?t = (if j = i then Some (False, replaced_by l s)
      else if replaced_by l s = Some j then None else status j s)" for j
    by (simp add: status_def new_up(1) [OF i] fresh_up_def)
  show ?thesis
  proof (cases "replaced_by l s")
    case None
    have "(\<lambda>j. status j ?t) = (\<lambda>j. status j s)(i := Some (False, None))" by (auto simp: st None)
    then show ?thesis using mirrors_create [OF m' fresh]
      by (simp add: mirror_def new_up(2,3) [OF i] None)
  next
    case (Some old)
    obtain c where "stream_at Up old s = Some c" using replaced_by_Some [OF Some] by blast
    then have f: "status old s = Some (st_described c, st_replace c)" by (simp add: status_def)
    have "(\<lambda>j. status j ?t) = (\<lambda>j. status j s)(old := None, i := Some (False, Some old))" by (auto simp: st Some)
    then show ?thesis
      using mirrors_replace [OF m' f waits_status [OF f w [OF Some]] fresh]
      by (simp add: mirror_def new_up(2,3) [OF i] Some)
  qed
qed

lemma mirror_announce:
  assumes m: "mirror s" and c: "stream_at Up i s = Some c"
  shows "mirror (described Up i (c\<lparr>st_replace := None\<rparr>) True
           (fst (say True (SOffer i (st_described c) (st_replace c) label sdp) s)))" (is "mirror ?t")
proof -
  have f: "status i s = Some (st_described c, st_replace c)" by (simp add: status_def c)
  have out: "out ?t = (out s @ [SOffer i (st_described c) (st_replace c) label sdp]) @ map (SIce i) (st_localIce c)"
    using c by (simp add: described_at)
  have "set (server_view (out ?t)) = insert i (set (server_view (out s))) - set_option (st_replace c)"
    unfolding out by (subst server_view_no_news) (auto simp: add_closed_def)
  moreover have "(\<lambda>j. status j ?t) = (\<lambda>j. status j s)(i := Some (True, None))"
    using c by (auto simp: status_def described_at)
  ultimately show ?thesis
    using mirrors_announce [OF m [unfolded mirror_def] f] c by (simp add: mirror_def described_at)
qed

section \<open>Runs\<close>

text \<open>A step forgets a replacement when a stream goes that has not yet made the offer in which it would
  have replaced another.\<close>

definition forgets :: "streams \<Rightarrow> streams \<Rightarrow> bool" where
  "forgets s t \<longleftrightarrow> list_ex (\<lambda>i. waits_to_replace i s \<and> stream_at Up i t = None) (map fst (up s))"

fun orderly :: "streams \<Rightarrow> (bool \<times> stream_event) list \<Rightarrow> bool" where
  "orderly s [] = True"
| "orderly s (e # es) = (fst e \<and> \<not> forgets s (after_event s e) \<and> orderly (after_event s e) es)"

lemma not_forgets:
  assumes "\<not> forgets s t" and "stream_at Up i t = None"
  shows "\<not> waits_to_replace i s"
proof
  assume w: "waits_to_replace i s"
  then have "stream_at Up i s \<noteq> None" by (auto simp: waits_to_replace_def status_def split: option.splits)
  then have "i \<in> fst ` set (up s)" by (force simp: stream_at_def dest: map_of_SomeD)
  then show False using assms w by (auto simp: forgets_def list_ex_iff)
qed

lemma mirror_close_fold:
  assumes "mirror s" and "\<forall>i \<in> set is. \<not> waits_to_replace i s"
  shows "mirror (fold (\<lambda>i. closeStream Up i False True) is s)"
  using assms
proof (induction "is" arbitrary: s)
  case (Cons i "is")
  have "\<not> waits_to_replace j (closeStream Up i False True s)" if "j \<in> set is" for j
    using Cons.prems(2) that by (auto simp: waits_to_replace_def status_close)
  then show ?case using Cons mirror_close by simp
qed simp

lemma mirror_down_fold: "mirror s \<Longrightarrow> mirror (fold (\<lambda>i. closeStream Down i r ok) is s)"
  by (induction "is" arbitrary: s) (auto intro: mirror_quiet [OF quiet.close_down])

lemma quiet_waits: "quiet s t \<Longrightarrow> waits_to_replace i t = waits_to_replace i s"
  by (simp add: waits_to_replace_def quiet_status)

lemma mirror_settle:
  assumes m: "mirror s" and f: "\<not> forgets s (fst (settle i w good sdp True s))"
    and w: "w = NLocal \<and> good \<or> w = ARemote \<and> \<not> good"
  shows "mirror (fst (settle i w good sdp True s))"
proof (cases "stream_at Up i s")
  case None
  then show ?thesis using m w by (auto simp: settle_def)
next
  case (Some c)
  let ?c = "c\<lparr>st_waits := remove1 w (st_waits c)\<rparr>"
  let ?t = "put_stream Up i ?c s"
  have q: "quiet s ?t" using Some by (intro quiet.edit) simp_all
  then have t: "mirror ?t" using m mirror_quiet by blast
  show ?thesis
  proof (cases "w \<in> set (st_waits c)")
    case True
    show ?thesis
    proof (cases "w = NLocal")
      case nlocal: True
      have "fst (settle i w good sdp True s) = described Up i (?c\<lparr>st_replace := None\<rparr>) True
          (fst (say True (SOffer i (st_described ?c) (st_replace ?c) (st_label ?c) sdp) ?t))"
        using w Some True nlocal by (auto simp: settle_def Let_def say_def)
      also have "mirror \<dots>" by (rule mirror_announce [OF t]) simp
      finally show ?thesis .
    next
      case False
      have eq: "fst (settle i w good sdp True s) = closeStream Up i False True (tell (StreamError Up i) ?t)"
        using w Some True False by (auto simp: settle_def Let_def)
      have q': "quiet s (tell (StreamError Up i) ?t)" by (rule quiet.tell_after [OF q])
      have "\<not> waits_to_replace i s" by (rule not_forgets [OF f]) (simp add: eq)
      then have "mirror (closeStream Up i False True (tell (StreamError Up i) ?t))"
        using mirror_close [OF mirror_quiet [OF q' m]] quiet_waits [OF q'] by blast
      then show ?thesis by (simp add: eq)
    qed
  qed (use m w Some in \<open>auto simp: settle_def\<close>)
qed

lemma mirror_step:
  assumes m: "mirror s" and f: "\<not> forgets s (after_event s (True, e))"
  shows "mirror (after_event s (True, e))"
proof (cases "moves_up e")
  case False
  then have "quiet s (after_event s (True, e))" using quiet_candidate quiet.event_rest by blast
  then show ?thesis using mirror_quiet m by blast
next
  case True
  have cl: "mirror (closeStream Up i False True s)" if "after_event s (True, e) = closeStream Up i False True s" for i
    using mirror_close [OF m, of i] not_forgets [OF f, of i] that by simp
  show ?thesis
  proof (cases e)
    case (NewUp l i pc)
    show ?thesis
    proof (cases "i \<in> used_ids s \<or> \<not> may_name l s \<or> \<not> pc")
      case True
      then show ?thesis using m by (auto simp: NewUp after_event_def newUpStream_def)
    next
      case False
      then have eq: "after_event s (True, e) = fst (newUpStream l i True True s)" by (simp add: NewUp after_event_def)
      have i: "i \<notin> used_ids s" using False by simp
      have "\<not> waits_to_replace j s" if j: "replaced_by l s = Some j" for j
      proof (rule not_forgets [OF f])
        obtain c where "stream_at Up j s = Some c" using replaced_by_Some [OF j] by blast
        then have "j \<noteq> i" using used_stream i by blast
        then show "stream_at Up j (after_event s (True, e)) = None" by (simp add: eq new_up(1) [OF i] j)
      qed
      then show ?thesis unfolding eq by (rule mirror_new [OF m i])
    qed
  next
    case (Settle i w good sdp)
    then show ?thesis using True mirror_settle [OF m, of i w good sdp] f by (simp add: after_event_def)
  next
    case CloseAll
    have gone: "stream_at Up i (fold (\<lambda>i. closeStream d i False True) is t) = None" if "stream_at Up i t = None" for d i "is" t
      using that by (induction "is" arbitrary: t) simp_all
    have gone_up: "stream_at Up i (fold (\<lambda>i. closeStream Up i False True) is t) = None" if "i \<in> set is" for i "is" t
      using that by (induction "is" arbitrary: t) (auto intro: gone)
    have "\<not> waits_to_replace i s" if "i \<in> set (map fst (up s))" for i
      by (rule not_forgets [OF f]) (simp add: CloseAll after_event_def close_all_def Let_def gone gone_up [OF that])
    then show ?thesis
      using m by (simp add: CloseAll after_event_def close_all_def Let_def mirror_down_fold mirror_close_fold)
  next
    case (ClosePage d i)
    then show ?thesis using True cl by (simp add: after_event_def)
  next
    case (Server env msg)
    then obtain i where i: "msg = GotAbort i" using True by (cases msg) simp_all
    then show ?thesis using m cl by (auto simp: Server after_event_def with_up_def split: found.split)
  qed (use True in simp_all)
qed

lemma mirror_run: "mirror s \<Longrightarrow> orderly s es \<Longrightarrow> mirror (foldl after_event s es)"
proof (induction es arbitrary: s)
  case (Cons e es)
  obtain ev where "e = (True, ev)" using Cons.prems(2) by (cases e) simp
  then show ?case using Cons mirror_step [of s ev] by simp
qed simp

lemma mirror_view:
  assumes "s = foldl after_event (no_streams me) es" and "orderly (no_streams me) es"
  shows "{i. \<exists>c. stream_at Up i s = Some c \<and> st_described c} \<subseteq> set (server_view (out s)) \<and>
      set (server_view (out s)) \<subseteq> {i. \<exists>c. stream_at Up i s = Some c \<and> st_described c} \<union>
        {r. \<exists>i c. stream_at Up i s = Some c \<and> \<not> st_described c \<and> st_replace c = Some r}"
proof -
  have "mirror (no_streams me)"
    by (simp add: mirror_def mirrors_def status_def offered_def pending_def)
      (simp add: no_streams_def server_view_def)
  then have m: "mirrors (\<lambda>i. status i s) (set (closedUp s)) (set (server_view (out s)))"
    unfolding assms(1) mirror_def [symmetric] using assms(2) by (rule mirror_run)
  have off: "offered (\<lambda>i. status i s) = {i. \<exists>c. stream_at Up i s = Some c \<and> st_described c}"
    by (auto simp: offered_def status_def)
  have "st_replace c = None" if "stream_at Up i s = Some c" "st_described c" for i c
    using mirrorsD(1) [OF m, of i] that by (simp add: status_def)
  then have "pending (\<lambda>i. status i s) \<subseteq> {r. \<exists>i c. stream_at Up i s = Some c \<and> \<not> st_described c \<and> st_replace c = Some r}"
    by (fastforce simp: pending_def status_def)
  then show ?thesis using m off by (auto simp: mirrors_def)
qed



section \<open>Where the two part\<close>

text \<open>A stream that replaces another and is itself replaced before its offer is out takes the first
  one's id with it: the offers that follow never mention it, and the server goes on publishing a
  stream that the client has closed.\<close>

theorem quick_replacement_leaves_ghost:
  "let s = foldl after_event (no_streams [7])
      (publish None [1] @ [(True, NewUp (Some 0) [2] True)] @ publish (Some 0) [3])
   in map fst (up s) = [[3]] \<and> list_all (st_described \<circ> snd) (up s) \<and> server_view (out s) = [[1], [3]]"
  by (simp add: stream_eval server_view_def)

text \<open>Whether a participant cannot be heard (\<open>micSilent\<close> of galene.js): muted, or no audio with the
  camera.\<close>

definition micSilent :: "bool \<Rightarrow> jstr \<Rightarrow> streams \<Rightarrow> bool" where
  "micSilent muted uid s =
     (case map_get (s_users s) uid of
        None \<Rightarrow> False
      | Some streams \<Rightarrow>
          muted \<or> \<not> (case map_get streams (js ''camera'') of None \<Rightarrow> False | Some kinds \<Rightarrow> js ''audio'' \<in> set kinds))"

text \<open>The tracks counted as a remote user's are those of every remote user: with one participant who
  sends sound and another who sends only a picture, the second counts as one who can be heard.\<close>

theorem others_tracks_counted:
  "let offer = (\<lambda>i u. (True, Server (True, True) (GotOffer i (Some (js ''camera'')) u None None)));
       s = foldl after_event (no_streams [7])
         [(True, UserEvent UserAdded [8]), (True, UserEvent UserAdded [9]), offer [1] [8],
          (True, Track [1] (Some [js ''audio''])), offer [2] [9], (True, Track [2] (Some [js ''video'']))]
   in map (\<lambda>(i, c). (i, st_media c)) (filter (\<lambda>(i, c). st_source c = [9]) (down s)) =
        [([2], Some [js ''video''])] \<and>
      \<not> micSilent False [9] s"
  by (simp add: stream_eval Let_def micSilent_def js_def)

end
