(* ===== verification/Client.thy ===== *)
theory Client
  imports SignallingProps StreamServer
begin

text \<open>
  A \<open>ServerConnection\<close> as a whole: the signalling session of Signalling carrying the messages of the
  streams of Streams. An operation of the streams is run with what \<open>send\<close> answers in the session's
  present state, and its messages go through \<open>send\<close> one by one; the session's teardown closes the
  streams, and its news of users reaches what the streams keep per user. The text of a message, what
  \<open>JSON.stringify\<close> makes of it and of the user's name at the time, is the parameter \<open>enc\<close>.
\<close>

section \<open>The whole connection\<close>

fun smsg_type :: "smsg \<Rightarrow> jstr" where
  "smsg_type (SOffer i again r label sdp) = js ''offer''"
| "smsg_type (SAnswer i sdp) = js ''answer''"
| "smsg_type (SIce i v) = js ''ice''"
| "smsg_type (SClose i) = js ''close''"
| "smsg_type (SAbort i) = js ''abort''"
| "smsg_type (SRenegotiate i) = js ''renegotiate''"
| "smsg_type (SRequest i what) = js ''requestStream''"

type_synonym client = "session \<times> streams"

datatype client_event =
    NetEv net_event
  | StreamMsg nat "bool \<times> bool" stream_msg
  | StreamEv stream_event

text \<open>Whether \<open>send\<close> takes a numbered message now.\<close>

definition accepts :: "session \<Rightarrow> bool" where
  "accepts s \<longleftrightarrow> \<not> snd (Signalling.send (js ''ice'') [] s)"

definition fresh_out :: "streams \<Rightarrow> streams \<Rightarrow> smsg list" where
  "fresh_out s t = drop (length (out s)) (out t)"

text \<open>The events that a callback of the session causes among the streams; \<open>onuser\<close> is called when a
  user has come, changed or gone.\<close>

definition user_kind_of :: "net_event \<Rightarrow> user_change" where
  "user_kind_of ev =
     (case ev of
        Got k (SUser UAdd i name perms data) \<Rightarrow> UserAdded
      | Got k (SUser UChange i name perms data) \<Rightarrow> UserChanged
      | _ \<Rightarrow> UserDeleted)"

fun reaction :: "user_change \<Rightarrow> callback \<Rightarrow> stream_event list" where
  "reaction kind CloseStreams = [CloseAll]"
| "reaction kind (OnUser i) = [UserEvent kind i]"
| "reaction kind _ = []"

text \<open>What an event makes the session do, and then what it makes the streams do.\<close>

definition session_part :: "client \<Rightarrow> rat \<times> client_event \<Rightarrow> (rat \<times> net_event) list" where
  "session_part c e =
     (case snd e of
        NetEv ev \<Rightarrow> [(fst e, ev)]
      | StreamMsg k env m \<Rightarrow> [(fst e, Got k SStream)]
      | StreamEv ev \<Rightarrow> [])"

definition new_calls :: "session \<Rightarrow> session \<Rightarrow> callback list" where
  "new_calls s t = drop (length (calls s)) (calls t)"

definition stream_part :: "client \<Rightarrow> rat \<times> client_event \<Rightarrow> (bool \<times> stream_event) list" where
  "stream_part c e =
     (let s = foldl net_step (fst c) (session_part c e);
          ok = accepts s;
          cs = new_calls (fst c) s
      in case snd e of
           NetEv ev \<Rightarrow> map (Pair ok) (concat (map (reaction (user_kind_of ev)) cs))
         | StreamMsg k env m \<Rightarrow> if StreamMessage \<in> set cs then [(ok, Server env m)] else []
         | StreamEv ev \<Rightarrow> [(ok, ev)])"

type_synonym encoder = "jstr option \<Rightarrow> smsg \<Rightarrow> jstr"

definition messages :: "encoder \<Rightarrow> jstr option \<Rightarrow> rat \<Rightarrow> smsg list \<Rightarrow> (rat \<times> net_event) list" where
  "messages enc name now ms = map (\<lambda>m. (now, AppSend (smsg_type m) (enc name m))) ms"

definition session_events :: "encoder \<Rightarrow> client \<Rightarrow> rat \<times> client_event \<Rightarrow> (rat \<times> net_event) list" where
  "session_events enc c e =
     session_part c e @
     messages enc (username (foldl net_step (fst c) (session_part c e))) (fst e) (fresh_out (snd c) (foldl after_event (snd c) (stream_part c e)))"

definition client_step :: "encoder \<Rightarrow> client \<Rightarrow> rat \<times> client_event \<Rightarrow> client" where
  "client_step enc c e =
     (foldl net_step (fst c) (session_events enc c e), foldl after_event (snd c) (stream_part c e))"

definition client :: "jstr \<Rightarrow> rat \<Rightarrow> client" where
  "client me now = (connect True now, no_streams me)"

fun session_run :: "encoder \<Rightarrow> client \<Rightarrow> (rat \<times> client_event) list \<Rightarrow> (rat \<times> net_event) list" where
  "session_run enc c [] = []"
| "session_run enc c (e # es) = session_events enc c e @ session_run enc (client_step enc c e) es"

fun stream_run :: "encoder \<Rightarrow> client \<Rightarrow> (rat \<times> client_event) list \<Rightarrow> (bool \<times> stream_event) list" where
  "stream_run enc c [] = []"
| "stream_run enc c (e # es) = stream_part c e @ stream_run enc (client_step enc c e) es"

lemma client_run:
  "foldl (client_step enc) c es =
     (foldl net_step (fst c) (session_run enc c es), foldl after_event (snd c) (stream_run enc c es))"
proof (induction es arbitrary: c)
  case (Cons e es)
  then show ?case by (simp add: client_step_def)
qed simp

text \<open>The page sends nothing under the streams' types by itself.\<close>

definition stream_types :: "jstr list" where
  "stream_types = map js [''offer'', ''answer'', ''ice'', ''close'', ''abort'', ''renegotiate'', ''requestStream'']"

fun page_event :: "client_event \<Rightarrow> bool" where
  "page_event (NetEv (AppSend ty m)) = (ty \<notin> set stream_types)"
| "page_event (StreamEv (Server env m)) = False"
| "page_event (StreamEv CloseAll) = False"
| "page_event _ = True"

definition of_streams :: "(jstr \<times> jstr) list \<Rightarrow> (jstr \<times> jstr) list" where
  "of_streams h = filter (\<lambda>p. fst p \<in> set stream_types) h"

definition encoded :: "encoder \<Rightarrow> jstr option \<Rightarrow> smsg \<Rightarrow> jstr \<times> jstr" where
  "encoded enc name m = (smsg_type m, enc name m)"

text \<open>A text that stands for a message.\<close>

definition carries :: "encoder \<Rightarrow> jstr \<times> jstr \<Rightarrow> smsg \<Rightarrow> bool" where
  "carries enc p m \<longleftrightarrow> (\<exists>name. p = encoded enc name m)"

section \<open>What the log takes\<close>

lemma smsg_type_stream [simp]: "smsg_type m \<in> set stream_types"
  by (cases m) (simp_all add: stream_types_def)

lemma smsg_type_counted [simp]: "counted (smsg_type m)"
  by (cases m) (simp_all add: counted_def js_def)

lemma trim_last: "last (fst (trim sz (ms @ [m]) b)) = m \<and> fst (trim sz (ms @ [m]) b) \<noteq> []"
proof (induction ms arbitrary: b)
  case Nil
  then show ?case by (simp add: MAX_MESSAGES_def)
next
  case (Cons x ms)
  then show ?case by simp
qed

lemma last_push: "last (msgs (push sz m l)) = m" and count_push: "log_count (push sz m l) = log_count l + 1"
  using trim_last [of sz "msgs l" m] by (simp_all add: push_def case_prod_beta)

lemma send_counted:
  assumes "counted ty" and l: "sentLog s = Some l"
  shows "snd (Signalling.send ty m s) \<longleftrightarrow> \<not> accepts s"
    and "pushed s (fst (Signalling.send ty m s)) = (if accepts s then [(ty, m)] else [])"
proof -
  have ice: "counted (js ''ice'')" by (simp add: counted_def js_def)
  show "snd (Signalling.send ty m s) \<longleftrightarrow> \<not> accepts s"
    using assms ice
    by (auto simp: accepts_def Signalling.send_def send_logged_def Let_def split: option.split)
  show "pushed s (fst (Signalling.send ty m s)) = (if accepts s then [(ty, m)] else [])"
    using assms ice
    by (auto simp: accepts_def Signalling.send_def send_logged_def Let_def pushed_def ws_send_def last_push count_push
        split: option.split)
qed

lemma send_keeps:
  assumes "sentLog s = Some l"
  shows "\<exists>l'. sentLog (fst (Signalling.send ty m s)) = Some l'"
    and "accepts (fst (Signalling.send ty m s)) = accepts s"
proof -
  show "\<exists>l'. sentLog (fst (Signalling.send ty m s)) = Some l'"
    using assms by (auto simp: Signalling.send_def send_logged_def Let_def ws_send_def split: option.split)
  show "accepts (fst (Signalling.send ty m s)) = accepts s"
    using assms
    by (auto simp: accepts_def Signalling.send_def send_logged_def Let_def ws_send_def is_open_def split: option.split)
qed

text \<open>The streams' messages, one after the other.\<close>

lemma history_messages:
  assumes "sentLog s = Some l" and "ms = [] \<or> accepts s"
  shows "history s (messages enc name now ms) = map (encoded enc name) ms"
  using assms
proof (induction ms arbitrary: s l)
  case (Cons m ms)
  let ?t = "net_step s (now, AppSend (smsg_type m) (enc name m))"
  obtain l' where l': "sentLog ?t = Some l'" using send_keeps(1) [OF Cons.prems(1)] by auto
  have "accepts ?t" using send_keeps(2) [OF Cons.prems(1)] Cons.prems(2) by simp
  with Cons.IH [OF l'] have "history ?t (messages enc name now ms) = map (encoded enc name) ms" by blast
  then show ?case
    using send_counted(2) [OF smsg_type_counted Cons.prems(1)] Cons.prems(2)
    by (simp add: messages_def encoded_def)
qed (simp add: messages_def)

lemma of_streams_Nil [simp]: "of_streams [] = []"
  by (simp add: of_streams_def)

lemma of_streams_append [simp]: "of_streams (xs @ ys) = of_streams xs @ of_streams ys"
  by (simp add: of_streams_def)

lemma of_streams_encoded [simp]: "of_streams (map (encoded enc name) ms) = map (encoded enc name) ms"
  by (induction ms) (simp_all add: of_streams_def encoded_def)

lemma history_append: "history s (xs @ ys) = history s xs @ history (foldl net_step s xs) ys"
  by (induction xs arbitrary: s) simp_all

text \<open>Of its own accord the session logs only the liveness messages.\<close>

lemma pushed_send: "set (pushed s (fst (Signalling.send ty m s))) \<subseteq> {(ty, m)}"
  by (cases "sentLog s"; cases "socket s")
    (auto simp: pushed_def Signalling.send_def send_logged_def Let_def ws_send_def last_push count_push)

lemma only_types: "js ''ping'' \<notin> set stream_types" "js ''pong'' \<notin> set stream_types"
  by (simp_all add: stream_types_def js_def)

lemma of_streams_send: "ty \<notin> set stream_types \<Longrightarrow> of_streams (pushed s (fst (Signalling.send ty m s))) = []"
  using pushed_send [of s ty m] by (auto simp: of_streams_def filter_empty_conv)

lemma pushed_cong: "sentLog s' = sentLog s \<Longrightarrow> pushed s t = pushed s' t"
  by (simp add: pushed_def)

lemma sentLog_unchanged [simp]:
  "sentLog (ws_close k s) = sentLog s" "sentLog (Signalling.close s) = sentLog s" "sentLog (Signalling.error s) = sentLog s"
  "sentLog (gone code s) = sentLog s" "sentLog (resume now s) = sentLog s" "sentLog (call c s) = sentLog s"
  "sentLog (retry s) = sentLog s"
  by (auto simp: ws_close_def Signalling.close_def Signalling.error_def gone_fields resume_def attempt_def call_def
      retry_def Let_def split: option.split)

lemma sentLog_messages:
  "sentLog (onopen k s) = sentLog s" "sentLog (onerror k s) = sentLog s" "sentLog (onclose k code now s) = sentLog s"
  "sentLog (on_timer now s) = sentLog s"
  by (auto simp: onopen_def onerror_def onclose_def on_timer_def ws_send_def Let_def split: option.split resume_timer.split)

lemma of_streams_handle: "of_streams (pushed s (handle k m s)) = []"
proof (cases m)
  case SPing
  then show ?thesis using of_streams_send only_types by simp
next
  case (SSession j)
  then show ?thesis by (cases j) (simp_all add: pushed_same of_streams_def)
next
  case (SNetwork j)
  then show ?thesis by (cases j) (simp_all add: pushed_same of_streams_def)
next
  case (SUser kind i name perms data)
  then show ?thesis by (cases kind) (simp_all add: pushed_same of_streams_def set_user_def)
next
  case (SJoined kind g name perms rtc)
  then show ?thesis
    by (cases kind) (simp_all add: pushed_same of_streams_def got_joined_def leave_users_def)
qed (simp_all add: pushed_same of_streams_def sentLog_got_resumed Let_def split: option.split)

lemma of_streams_step: "page_event (NetEv ev) \<Longrightarrow> of_streams (pushed s (net_step s (now, ev))) = []"
proof (cases ev)
  case (Got k m)
  have han: "of_streams (pushed s (handle k m t)) = []" if "sentLog t = sentLog s" for t
    using of_streams_handle pushed_cong [OF that] by simp
  have "of_streams (pushed s (gotMessage k m now s)) = []"
    by (simp add: gotMessage_def Let_def han pushed_same)
  then show ?thesis by (simp add: Got onmessage_def pushed_same of_streams_def)
next
  case PingTick
  then show ?thesis
    using of_streams_send only_types
    by (auto simp: ping_tick_def Let_def pushed_same of_streams_def split: option.split tick.split)
next
  case (AppSend ty m)
  assume "page_event (NetEv ev)"
  then show ?thesis using AppSend of_streams_send by simp
qed (simp_all add: pushed_same of_streams_def sentLog_messages)

lemma sentLog_step: "sentLog s \<noteq> None \<Longrightarrow> sentLog (net_step s e) \<noteq> None"
proof -
  assume l: "sentLog s \<noteq> None"
  have snd: "sentLog t \<noteq> None \<Longrightarrow> sentLog (fst (Signalling.send ty m t)) \<noteq> None" for t ty m
    using send_keeps(1) by blast
  have han: "sentLog t \<noteq> None \<Longrightarrow> sentLog (handle k m t) \<noteq> None" for k m t
  proof (cases m)
    case (SSession j)
    then show "sentLog t \<noteq> None \<Longrightarrow> ?thesis" by (cases j) simp_all
  next
    case (SNetwork j)
    then show "sentLog t \<noteq> None \<Longrightarrow> ?thesis" by (cases j) simp_all
  next
    case (SUser kind i name perms data)
    then show "sentLog t \<noteq> None \<Longrightarrow> ?thesis" by (cases kind) (simp_all add: set_user_def)
  next
    case (SJoined kind g name perms rtc)
    then show "sentLog t \<noteq> None \<Longrightarrow> ?thesis" by (cases kind) (simp_all add: got_joined_def leave_users_def)
  qed (use snd in \<open>simp_all add: sentLog_got_resumed Let_def split: option.split\<close>)
  obtain now ev where e: "e = (now, ev)" by (cases e)
  show ?thesis
  proof (cases ev)
    case (Got k m)
    then show ?thesis using l han by (simp add: e onmessage_def gotMessage_def Let_def)
  next
    case PingTick
    then show ?thesis using l snd by (simp add: e ping_tick_def Let_def split: option.split tick.split)
  qed (use l snd in \<open>simp_all add: e sentLog_messages\<close>)
qed

section \<open>What the streams say when nothing is taken\<close>

lemma out_frames [simp]:
  "out (await d i w s) = out s" "out (fst (recomputeUserStreams uid s)) = out s" "out (setStream i kinds s) = out s"
  "out (on_track i media s) = out s" "out (offer_on i source un s) = out s" "out (modify d i f s) = out s"
  "out (user_event k u s) = out s" "out (gotRemoteIce i v s) = out s" "out (negotiate i r s) = out s"
proof -
  show "out (await d i w s) = out s" "out (setStream i kinds s) = out s"
    "out (offer_on i source un s) = out s" "out (modify d i f s) = out s" for d i w s kinds source un f
    by (auto simp: await_def setStream_def offer_on_def modify_def split: option.split)
  show "out (fst (recomputeUserStreams uid s)) = out s" for uid s
    by (simp add: recomputeUserStreams_def split: option.split)
  then show "out (on_track i media s) = out s"
    by (auto simp: on_track_def Let_def case_prod_beta split: option.split)
  show "out (user_event k u s) = out s" by (cases k) simp_all
  show "out (gotRemoteIce i v s) = out s" by (rule gotRemoteIce_at)
  show "out (negotiate i r s) = out s" by (simp add: negotiate_def await_def split: option.split)
qed

lemma say_refused: "say False m s = (s, True)"
  by (simp add: say_def)

lemma out_restart [simp]: "out (fst (restartIce d i modern False s)) = out s"
  by (cases d) (simp_all add: say_refused)

lemma out_fold_close [simp]: "out (fold (\<lambda>i. closeStream d i r False) is s) = out s"
  by (induction "is" arbitrary: s) (simp_all add: out_close)

lemma out_refused: "out (after_event s (False, e)) = out s"
proof (cases e)
  case (NewUp l i pc)
  show ?thesis
  proof (cases "i \<in> used_ids s \<or> \<not> may_name l s")
    case False
    then show ?thesis
      using new_up(3) [of i s l False] by (cases pc) (simp_all add: NewUp after_event_def, simp add: newUpStream_def)
  qed (auto simp: NewUp after_event_def)
next
  case (Settle i w good sdp)
  have "out (fst (continue_stream i c w good sdp False t)) = out t" for c t
    by (cases w) (simp_all add: say_refused offer_failed_def out_close)
  then show ?thesis by (auto simp: Settle after_event_def settle_def Let_def split: option.split)
next
  case (Server env m)
  have "out (fst (gotOffer i label source un r pc False s)) = out s" for i label source un r pc
  proof -
    have d: "out (snd (replace_down r False s)) = out s" by (rule replace_down_at)
    show ?thesis by (auto simp: gotOffer_def Let_def case_prod_beta say_refused d)
  qed
  then show ?thesis
    by (cases m) (auto simp: Server after_event_def with_up_def out_close split: found.split)
qed (auto simp: after_event_def on_live_def on_ice_state_def Let_def close_all_def out_close say_refused gotLocalIce_at)

lemma out_grows: "\<exists>ms. out (after_event s e) = out s @ ms"
proof -
  obtain ok ev where e: "e = (ok, ev)" by (cases e)
  show ?thesis
  proof (cases "candidate ev")
    case True
    then show ?thesis unfolding e
      by (cases ev rule: candidate.cases) (simp_all add: after_event_def gotLocalIce_at)
  next
    case False
    from flows.event [OF False, of Up "[]" s ok] show ?thesis unfolding e flows_def by blast
  qed
qed

lemma fresh_out: "out (foldl after_event s es) = out s @ fresh_out s (foldl after_event s es)"
proof -
  have "\<exists>ms. out (foldl after_event s es) = out s @ ms"
  proof (induction es arbitrary: s)
    case (Cons e es)
    obtain ms where "out (after_event s e) = out s @ ms" using out_grows by blast
    moreover obtain ms' where "out (foldl after_event (after_event s e) es) = out (after_event s e) @ ms'"
      using Cons.IH by blast
    ultimately show ?case by simp
  qed simp
  then show ?thesis by (auto simp: fresh_out_def)
qed

lemma fresh_out_refused: "list_all (\<lambda>e. fst e = False) es \<Longrightarrow> fresh_out s (foldl after_event s es) = []"
proof -
  assume "list_all (\<lambda>e. fst e = False) es"
  then have "out (foldl after_event s es) = out s"
  proof (induction es arbitrary: s)
    case (Cons e es)
    then show ?case by (cases e) (simp add: out_refused)
  qed simp
  then show ?thesis by (simp add: fresh_out_def)
qed

section \<open>The session carries what the streams say\<close>

lemma client_step_history:
  assumes l: "sentLog (fst c) \<noteq> None" and p: "page_event (snd e)"
  shows "list_all2 (carries enc) (of_streams (history (fst c) (session_events enc c e)))
      (fresh_out (snd c) (snd (client_step enc c e)))"
    and "sentLog (fst (client_step enc c e)) \<noteq> None"
proof -
  let ?s = "foldl net_step (fst c) (session_part c e)"
  let ?ms = "fresh_out (snd c) (foldl after_event (snd c) (stream_part c e))"
  have keep: "sentLog (foldl net_step t xs) \<noteq> None" if "sentLog t \<noteq> None" for t xs
    using that by (induction xs arbitrary: t) (simp_all add: sentLog_step del: not_None_eq)
  obtain l' where l': "sentLog ?s = Some l'" using keep [OF l] by blast
  have part: "of_streams (history (fst c) (session_part c e)) = []"
  proof (cases "snd e")
    case (NetEv ev)
    then show ?thesis using p of_streams_step [of ev "fst c" "fst e"]
      by (simp add: session_part_def)
  next
    case (StreamMsg k env m)
    then show ?thesis using of_streams_step [of "Got k SStream" "fst c" "fst e"]
      by (simp add: session_part_def)
  qed (simp_all add: session_part_def)
  have "?ms = [] \<or> accepts ?s"
  proof (cases "accepts ?s")
    case False
    then have "list_all (\<lambda>e. fst e = False) (stream_part c e)"
      by (auto simp: stream_part_def Let_def list_all_iff split: client_event.split)
    then show ?thesis using fresh_out_refused by blast
  qed simp
  then have "history ?s (messages enc (username ?s) (fst e) ?ms) = map (encoded enc (username ?s)) ?ms"
    by (rule history_messages [OF l'])
  then have eq: "of_streams (history (fst c) (session_events enc c e)) = map (encoded enc (username ?s)) ?ms"
    by (simp add: session_events_def history_append part)
  show "list_all2 (carries enc) (of_streams (history (fst c) (session_events enc c e)))
      (fresh_out (snd c) (snd (client_step enc c e)))"
    unfolding eq by (auto simp: client_step_def carries_def list_all2_conv_all_nth)
  show "sentLog (fst (client_step enc c e)) \<noteq> None"
    using keep [OF l] by (simp add: client_step_def)
qed

lemma client_run_history:
  "sentLog (fst c) \<noteq> None \<Longrightarrow> list_all (page_event \<circ> snd) es \<Longrightarrow>
   out (snd (foldl (client_step enc) c es)) = out (snd c) @ ms \<Longrightarrow>
   list_all2 (carries enc) (of_streams (history (fst c) (session_run enc c es))) ms"
proof (induction es arbitrary: c ms)
  case Nil
  then show ?case by (simp add: of_streams_def)
next
  case (Cons e es)
  let ?d = "client_step enc c e"
  have p: "page_event (snd e)" "list_all (page_event \<circ> snd) es" using Cons.prems(2) by (simp_all add: comp_def)
  note st = client_step_history [OF Cons.prems(1) p(1), of enc]
  have d: "out (snd ?d) = out (snd c) @ fresh_out (snd c) (snd ?d)"
    using fresh_out by (simp add: client_step_def)
  have run: "out (snd (foldl (client_step enc) ?d es)) =
      out (snd ?d) @ fresh_out (snd ?d) (snd (foldl (client_step enc) ?d es))"
    unfolding client_run [of enc ?d] using fresh_out by simp
  have "ms = fresh_out (snd c) (snd ?d) @ fresh_out (snd ?d) (snd (foldl (client_step enc) ?d es))"
    using Cons.prems(3) run d by simp
  moreover have "foldl net_step (fst c) (session_events enc c e) = fst ?d" by (simp add: client_step_def)
  ultimately show ?case
    using st(1) Cons.IH [OF st(2) p(2) run] by (auto simp: history_append intro: list_all2_appendI)
qed

text \<open>Whatever breaks, resumes and is sent in between, the numbered messages of the session are, of
  those about streams, exactly what the streams said, in their order.\<close>

theorem session_carries_streams:
  assumes "c = foldl (client_step enc) (client me t) es" and "list_all (page_event \<circ> snd) es"
  shows "list_all2 (carries enc) (of_streams (history (connect True t) (session_run enc (client me t) es))) (out (snd c))"
  using client_run_history [of "client me t" es enc "out (snd c)"] assms
  by (simp add: client_def no_streams_def connect_def)


text \<open>A session is set up, a stream published, the socket breaks, a candidate is gathered while it is
  down, and a new socket is opened.\<close>

definition broken_call :: "(rat \<times> client_event) list" where
  "broken_call =
     [(0, NetEv (Opened 0)), (0, NetEv (Got 0 (SHandshake (Some [JStr (js ''2'')])))),
      (0, NetEv (Got 0 (SSession (JStr [115]))))] @
     map (\<lambda>e. (1, StreamEv (snd e))) (publish None [1]) @
     [(5, NetEv (Ended 0 1006)), (6, StreamEv (LocalIce Up [1] Null)),
      (7, NetEv (Opened 1)), (8, NetEv (Got 1 (SHandshake (Some [JStr (js ''2'')]))))]"

lemmas client_eval = client_def client_step_def session_events_def session_part_def stream_part_def new_calls_def
  messages_def fresh_out_def accepts_def user_kind_of_def

theorem session_carries_streams_witness:
  "list_all2 (carries (\<lambda>name m. []))
     (of_streams (history (connect True 0) (session_run (\<lambda>name m. []) (client [7] 0) broken_call)))
     (out (snd (foldl (client_step (\<lambda>name m. [])) (client [7] 0) broken_call)))"
proof -
  have "list_all (page_event \<circ> snd) broken_call"
    by (simp add: broken_call_def publish_def stream_types_def js_def)
  then show ?thesis by (rule session_carries_streams [OF refl])
qed


end
