(* ===== verification/Away.thy ===== *)
theory Away
  imports Prelude
begin

text \<open>
  static/away.js: whether hiding the page pauses the call, and the tracker that tells a rejoin whether
  the background interrupted the call. The tracker keeps four variables; what it answers is compared
  with a reading of the whole history.
\<close>

section \<open>The module\<close>

definition RETURN_GRACE :: rat where "RETURN_GRACE = 15000"

definition pausesWhenHidden :: "(int \<times> bool) option \<Rightarrow> bool" where
  "pausesWhenHidden env = (case env of None \<Rightarrow> False | Some (touchPoints, coarse) \<Rightarrow> touchPoints > 0 \<and> coarse)"

record away =
  hiddenAt :: "rat option"
  shownAt :: "rat option"
  outageAway :: bool
  inOutage :: bool

definition away_init :: away where
  "away_init = \<lparr>hiddenAt = None, shownAt = None, outageAway = False, inOutage = False\<rparr>"

definition hidden :: "rat \<Rightarrow> away \<Rightarrow> away" where
  "hidden now a = (let a = a\<lparr>hiddenAt := Some now\<rparr> in if inOutage a then a\<lparr>outageAway := True\<rparr> else a)"

definition shown_again :: "rat \<Rightarrow> away \<Rightarrow> away" where
  "shown_again now a = a\<lparr>hiddenAt := None, shownAt := Some now\<rparr>"

definition lost :: "rat \<Rightarrow> away \<Rightarrow> away" where
  "lost now a =
     (if inOutage a then a
      else a\<lparr>inOutage := True,
             outageAway := (hiddenAt a \<noteq> None \<or>
               (case shownAt a of None \<Rightarrow> False | Some t \<Rightarrow> now - t < RETURN_GRACE))\<rparr>)"

definition back_again :: "away \<Rightarrow> away \<times> bool" where
  "back_again a = (a\<lparr>inOutage := False, outageAway := False\<rparr>, inOutage a \<and> outageAway a)"

datatype away_event = Hidden | Shown | Lost | BackAgain

fun away_step :: "away \<Rightarrow> rat \<times> away_event \<Rightarrow> away" where
  "away_step a (now, Hidden) = hidden now a"
| "away_step a (now, Shown) = shown_again now a"
| "away_step a (now, Lost) = lost now a"
| "away_step a (now, BackAgain) = fst (back_again a)"

section \<open>The history\<close>

text \<open>The newest event first. Whether the page is hidden, when it last came back, and whether the
  connection has been lost since the last rejoin.\<close>

type_synonym history = "(rat \<times> away_event) list"

fun page_hidden :: "history \<Rightarrow> bool" where
  "page_hidden [] = False"
| "page_hidden ((t, Hidden) # h) = True"
| "page_hidden ((t, Shown) # h) = False"
| "page_hidden (e # h) = page_hidden h"

fun came_back :: "history \<Rightarrow> rat option" where
  "came_back [] = None"
| "came_back ((t, Shown) # h) = Some t"
| "came_back (e # h) = came_back h"

fun outage :: "history \<Rightarrow> bool" where
  "outage [] = False"
| "outage ((t, Lost) # h) = True"
| "outage ((t, BackAgain) # h) = False"
| "outage (e # h) = outage h"

definition hidden_lately :: "rat \<Rightarrow> history \<Rightarrow> bool" where
  "hidden_lately t h \<longleftrightarrow> page_hidden h \<or> (\<exists>s. came_back h = Some s \<and> t - s < RETURN_GRACE)"

text \<open>The background interrupted the call: the first loss since the last rejoin found the page hidden
  or only just back, or the page was hidden later on.\<close>

definition interrupted_by_background :: "history \<Rightarrow> bool" where
  "interrupted_by_background h \<longleftrightarrow>
     (\<exists>since t before. h = since @ (t, Lost) # before \<and> BackAgain \<notin> snd ` set since \<and> \<not> outage before \<and>
        (hidden_lately t before \<or> Hidden \<in> snd ` set since))"

text \<open>The reading event by event.\<close>

definition first_loss :: "history \<Rightarrow> history \<Rightarrow> rat \<Rightarrow> history \<Rightarrow> bool" where
  "first_loss h since t before \<longleftrightarrow>
     h = since @ (t, Lost) # before \<and> BackAgain \<notin> snd ` set since \<and> \<not> outage before"

lemma first_loss_Cons:
  "first_loss (e # h) since t before \<longleftrightarrow>
     since = [] \<and> e = (t, Lost) \<and> before = h \<and> \<not> outage h \<or>
     (\<exists>since'. since = e # since' \<and> snd e \<noteq> BackAgain \<and> first_loss h since' t before)"
  by (cases since) (auto simp: first_loss_def)

lemma interrupted_first_loss:
  "interrupted_by_background h \<longleftrightarrow>
     (\<exists>since t before. first_loss h since t before \<and> (hidden_lately t before \<or> Hidden \<in> snd ` set since))"
  by (simp add: interrupted_by_background_def first_loss_def conj_assoc)

lemma first_loss_outage: "first_loss h since t before \<Longrightarrow> outage h"
proof (induction h arbitrary: since)
  case (Cons e h)
  then show ?case by (cases e; cases "snd e") (auto simp: first_loss_Cons)
qed (simp add: first_loss_def)

lemma outage_first_loss: "outage h \<Longrightarrow> \<exists>since t before. first_loss h since t before"
proof (induction h)
  case (Cons e h)
  obtain t k where e: "e = (t, k)" by (cases e)
  show ?case
  proof (cases "k = Lost \<and> \<not> outage h")
    case True
    then have "first_loss (e # h) [] t h" by (simp add: e first_loss_Cons)
    then show ?thesis by blast
  next
    case False
    then have "outage h" "k \<noteq> BackAgain" using Cons.prems e by (cases k; auto)+
    then obtain since u before where "first_loss h since u before" using Cons.IH by blast
    then have "first_loss (e # h) (e # since) u before" using \<open>k \<noteq> BackAgain\<close> e by (simp add: first_loss_Cons)
    then show ?thesis by blast
  qed
qed simp

lemma interrupted_Cons:
  "interrupted_by_background (e # h) \<longleftrightarrow>
     (\<exists>t. e = (t, Lost) \<and> \<not> outage h \<and> hidden_lately t h) \<or>
     snd e \<noteq> BackAgain \<and> (if snd e = Hidden then outage h else interrupted_by_background h)"
  (is "?l \<longleftrightarrow> ?r")
proof
  assume ?l
  then obtain since t before where f: "first_loss (e # h) since t before"
    and i: "hidden_lately t before \<or> Hidden \<in> snd ` set since" unfolding interrupted_first_loss by blast
  from f consider "since = []" "e = (t, Lost)" "before = h" "\<not> outage h" |
    since' where "since = e # since'" "snd e \<noteq> BackAgain" "first_loss h since' t before"
    unfolding first_loss_Cons by blast
  then show ?r
  proof cases
    case 2
    then have "interrupted_by_background h" if "snd e \<noteq> Hidden"
      using i that unfolding interrupted_first_loss by auto
    then show ?thesis using 2 first_loss_outage by auto
  qed (use i in simp)
next
  assume ?r
  then consider t where "e = (t, Lost)" "\<not> outage h" "hidden_lately t h" |
    "snd e \<noteq> BackAgain" "snd e = Hidden" "outage h" |
    "snd e \<noteq> BackAgain" "interrupted_by_background h" by (auto split: if_splits)
  then show ?l
  proof cases
    case 1
    then have "first_loss (e # h) [] t h" by (simp add: first_loss_Cons)
    then show ?thesis using 1 unfolding interrupted_first_loss by blast
  next
    case 2
    then obtain since t before where "first_loss h since t before" using outage_first_loss by blast
    then have "first_loss (e # h) (e # since) t before" "Hidden \<in> snd ` set (e # since)"
      using 2 by (simp_all add: first_loss_Cons)
    then show ?thesis unfolding interrupted_first_loss by blast
  next
    case 3
    then obtain since t before where "first_loss h since t before" "hidden_lately t before \<or> Hidden \<in> snd ` set since"
      unfolding interrupted_first_loss by blast
    then have "first_loss (e # h) (e # since) t before" "hidden_lately t before \<or> Hidden \<in> snd ` set (e # since)"
      using 3 by (auto simp: first_loss_Cons)
    then show ?thesis unfolding interrupted_first_loss by blast
  qed
qed

lemma interrupted_Nil: "\<not> interrupted_by_background []"
  by (simp add: interrupted_by_background_def)

lemmas interrupted_simps = interrupted_Nil interrupted_Cons

section \<open>The tracker reads the history\<close>

definition tracker_reads :: "away \<Rightarrow> history \<Rightarrow> bool" where
  "tracker_reads a h \<longleftrightarrow>
     (hiddenAt a \<noteq> None) = page_hidden h \<and> shownAt a = came_back h \<and> inOutage a = outage h \<and>
     outageAway a = interrupted_by_background h"

lemma tracker_reads_init: "tracker_reads away_init []"
  by (simp add: tracker_reads_def away_init_def interrupted_simps)

lemma interrupted_outage: "interrupted_by_background h \<Longrightarrow> outage h"
  using first_loss_outage unfolding interrupted_first_loss by blast

lemma tracker_reads_step:
  assumes a: "tracker_reads a h"
  shows "tracker_reads (away_step a e) (e # h)"
proof (cases "(a, e)" rule: away_step.cases)
  case (1 b now)
  then show ?thesis using a interrupted_outage [of h] by (auto simp: tracker_reads_def hidden_def interrupted_simps Let_def)
next
  case (3 b now)
  then show ?thesis using a interrupted_outage [of h]
    by (auto simp: tracker_reads_def lost_def interrupted_simps hidden_lately_def split: option.splits)
qed (use a in \<open>auto simp: tracker_reads_def shown_again_def back_again_def interrupted_simps\<close>)

lemma tracker_reads_run: "tracker_reads (foldl away_step away_init es) (rev es)"
proof (induction es rule: rev_induct)
  case (snoc e es)
  then show ?case using tracker_reads_step by simp
qed (simp add: tracker_reads_init)

text \<open>C29: whatever happened before, the tracker answers a rejoin exactly as a reading of the whole
  history would: the background interrupted the call when the first loss since the last rejoin found
  the page hidden, or back for less than the grace period, or the page was hidden while the
  connection was away.\<close>

theorem tracker_answers_history:
  "snd (back_again (foldl away_step away_init es)) = interrupted_by_background (rev es)"
  using tracker_reads_run [of es] interrupted_outage [of "rev es"]
  by (auto simp: tracker_reads_def back_again_def)

end
