(* ===== verification/LoadGuard.thy ===== *)
theory LoadGuard
  imports Prelude
begin

text \<open>
  static/load-guard.js: what to do with the loading screen, and the guard over the loads of one tab.
  A load's state is that of the script; the count of automatic reloads lives in the tab's session
  storage and outlasts it. What the page sees of itself, whether its style sheet has applied and
  galene.js has run, comes with each event. The number of automatic reloads since a load succeeded or
  the user pressed the button is kept beside it, to speak of.
\<close>

section \<open>The decision\<close>

definition SLOW_AFTER :: rat where "SLOW_AFTER = 10000"
definition OFFER_RELOAD_AFTER :: rat where "OFFER_RELOAD_AFTER = 30000"
definition MAX_AUTO_RELOADS :: int where "MAX_AUTO_RELOADS = 2"

datatype action = Wait | Slow | SlowOffer | Show | Reload | Fail

definition decide :: "bool \<Rightarrow> bool \<Rightarrow> nat \<Rightarrow> rat \<Rightarrow> int \<Rightarrow> action" where
  "decide loaded ready failed elapsed reloads =
     (if failed > 0 \<or> loaded \<and> \<not> ready
      then if reloads < MAX_AUTO_RELOADS then Reload else if ready then Show else Fail
      else if ready \<and> (loaded \<or> elapsed \<ge> SLOW_AFTER) then Show
      else if elapsed \<ge> OFFER_RELOAD_AFTER then SlowOffer
      else if elapsed \<ge> SLOW_AFTER then Slow
      else Wait)"

section \<open>The guard\<close>

text \<open>\<open>store\<close> is the number in session storage, \<open>None\<close> where there is no storage; \<open>screen\<close> is what the
  user sees: the spinner, perhaps with a note and a button, the page, or the notice that the load
  failed; \<open>going\<close> says that the page is about to reload itself.\<close>

datatype screen = Spinner "(bool \<times> bool) option" | Page | FailedNotice

record guard =
  store :: "int option"
  failed :: nat
  loaded :: bool
  finished :: bool
  shown :: "action option"
  start :: rat
  screen :: screen
  going :: bool
  auto_reloads :: nat

definition fresh_load :: "int option \<Rightarrow> nat \<Rightarrow> rat \<Rightarrow> guard" where
  "fresh_load st n now =
     \<lparr>store = st, failed = 0, loaded = False, finished = False, shown = None, start = now,
      screen = Spinner None, going = False, auto_reloads = n\<rparr>"

definition getReloads :: "guard \<Rightarrow> int" where
  "getReloads g = (case store g of None \<Rightarrow> MAX_AUTO_RELOADS | Some n \<Rightarrow> n)"

definition setReloads :: "int \<Rightarrow> guard \<Rightarrow> guard" where
  "setReloads n g = g\<lparr>store := map_option (\<lambda>_. n) (store g)\<rparr>"

text \<open>A note on the spinner: that it failed or that it is slow, and whether there is a button.\<close>

definition note_on :: "bool \<Rightarrow> bool \<Rightarrow> guard \<Rightarrow> guard" where
  "note_on retrying button g = g\<lparr>screen := Spinner (Some (retrying, button))\<rparr>"

definition guard_step :: "bool \<Rightarrow> rat \<Rightarrow> guard \<Rightarrow> guard" where
  "guard_step ready now g =
     (if finished g then g
      else
        let action = decide (loaded g) ready (failed g) (now - start g) (getReloads g) in
        case action of
          Show \<Rightarrow> (setReloads 0 (g\<lparr>finished := True\<rparr>))\<lparr>screen := Page, auto_reloads := 0\<rparr>
        | Reload \<Rightarrow>
            (note_on True False (setReloads (getReloads g + 1) (g\<lparr>finished := True\<rparr>)))
              \<lparr>going := True, auto_reloads := auto_reloads g + 1\<rparr>
        | Fail \<Rightarrow> g\<lparr>finished := True, screen := FailedNotice\<rparr>
        | Wait \<Rightarrow> g\<lparr>shown := Some action\<rparr>
        | _ \<Rightarrow> (if shown g \<noteq> Some action then note_on False (action = SlowOffer) g else g)\<lparr>shown := Some action\<rparr>)"

text \<open>A resource fails; the window is loaded; the timer fires; the announced reload happens; the user
  presses the button, or reloads the page by hand.\<close>

datatype guard_event = ResourceError | WindowLoad bool | Tick bool | Reloads | Button | ByHand

definition has_button :: "guard \<Rightarrow> bool" where
  "has_button g \<longleftrightarrow> (case screen g of FailedNotice \<Rightarrow> True | Spinner (Some (r, b)) \<Rightarrow> b | _ \<Rightarrow> False)"

fun on_guard_event :: "guard \<Rightarrow> rat \<times> guard_event \<Rightarrow> guard" where
  "on_guard_event g (now, ResourceError) = g\<lparr>failed := failed g + 1\<rparr>"
| "on_guard_event g (now, WindowLoad ready) = guard_step ready now (g\<lparr>loaded := True\<rparr>)"
| "on_guard_event g (now, Tick ready) = guard_step ready now g"
| "on_guard_event g (now, Reloads) = (if going g then fresh_load (store g) (auto_reloads g) now else g)"
| "on_guard_event g (now, Button) =
     (if has_button g then fresh_load (map_option (\<lambda>_. 0) (store g)) 0 now else g)"
| "on_guard_event g (now, ByHand) = fresh_load (store g) (auto_reloads g) now"

section \<open>What it guarantees\<close>

lemma decide_show: "decide l r f e n = Show \<Longrightarrow> r"
  by (auto simp: decide_def split: if_splits)

lemma decide_reload: "decide l r f e n = Reload \<Longrightarrow> n < MAX_AUTO_RELOADS"
  by (auto simp: decide_def split: if_splits)

lemma decide_loaded: "decide True r f e n \<in> {Show, Reload, Fail}"
  by (auto simp: decide_def)

definition guard_ok :: "guard \<Rightarrow> bool" where
  "guard_ok g \<longleftrightarrow>
     (case store g of None \<Rightarrow> auto_reloads g = 0 | Some n \<Rightarrow> int (auto_reloads g) \<le> n) \<and> auto_reloads g \<le> 2"

lemma guard_ok_step: "guard_ok g \<Longrightarrow> guard_ok (guard_step ready now g)"
proof (cases "finished g")
  case False
  assume g: "guard_ok g"
  let ?a = "decide (loaded g) ready (failed g) (now - start g) (getReloads g)"
  show ?thesis
  proof (cases ?a)
    case Reload
    then have "getReloads g < MAX_AUTO_RELOADS" by (rule decide_reload)
    then show ?thesis using g Reload False
      by (auto simp: guard_ok_def guard_step_def note_on_def setReloads_def getReloads_def MAX_AUTO_RELOADS_def
          split: option.splits)
  qed (use g False in \<open>auto simp: guard_ok_def guard_step_def note_on_def setReloads_def split: option.splits\<close>)
qed (simp add: guard_step_def)

interpretation guard: machine on_guard_event guard_ok
proof
  show "guard_ok (on_guard_event g e)" if "guard_ok g" for g e
  proof (cases "(g, e)" rule: on_guard_event.cases)
    case (2 g now ready)
    then have "guard_ok (g\<lparr>loaded := True\<rparr>)" using that by (simp add: guard_ok_def split: option.splits)
    then show ?thesis using 2 guard_ok_step by simp
  qed (use that guard_ok_step in \<open>auto simp: guard_ok_def fresh_load_def split: option.splits\<close>)
qed

lemma finished_after_load: "finished (guard_step ready now (g\<lparr>loaded := True\<rparr>))"
  using decide_loaded [of ready "failed g" "now - start g" "getReloads (g\<lparr>loaded := True\<rparr>)"]
  by (auto simp: guard_step_def Let_def note_on_def setReloads_def split: action.split)

lemma page_needs_ready: "screen (guard_step ready now g) = Page \<Longrightarrow> screen g = Page \<or> ready"
  using decide_show [of "loaded g" ready "failed g" "now - start g" "getReloads g"]
  by (auto simp: guard_step_def Let_def note_on_def setReloads_def split: action.splits if_splits)



end
