(* ===== verification/MicRecovery.thy ===== *)
theory MicRecovery
  imports Prelude
begin

text \<open>
  static/mic-recovery.js: \<open>reopen\<close> tries to bring a lost microphone back. What happens at each attempt,
  whether the track is wanted after the pause, what opening the device gives, and whether the track is
  still wanted then, is an argument; a track is a number. Beside the result, the pauses made, the
  tracks opened and those stopped are kept, to speak of.
\<close>

definition DELAYS :: "rat list" where
  "DELAYS = [300, 1000, 2000, 3000, 4000]"

datatype attempt = NotAllowed | OpenFails | NoTrack | Opened nat

record trial =
  wanted_before :: bool
  answer :: attempt
  wanted_after :: bool

record outcome =
  result :: "nat option"
  waits :: "rat list"
  opened :: "nat list"
  stopped :: "nat list"

definition give_up :: outcome where
  "give_up = \<lparr>result = None, waits = [], opened = [], stopped = []\<rparr>"

fun reopen :: "(nat \<Rightarrow> trial) \<Rightarrow> nat \<Rightarrow> rat list \<Rightarrow> outcome" where
  "reopen env i [] = give_up"
| "reopen env i (d # ds) =
     (let r =
        (if \<not> wanted_before (env i) then give_up
         else case answer (env i) of
                NotAllowed \<Rightarrow> give_up
              | OpenFails \<Rightarrow> reopen env (i + 1) ds
              | NoTrack \<Rightarrow> reopen env (i + 1) ds
              | Opened t \<Rightarrow>
                  if \<not> wanted_after (env i) then give_up\<lparr>opened := [t], stopped := [t]\<rparr>
                  else give_up\<lparr>result := Some t, opened := [t]\<rparr>)
      in r\<lparr>waits := d # waits r\<rparr>)"

text \<open>The attempt that ends it: everything before it was wanted and failed in a way worth another try.\<close>

definition passes :: "trial \<Rightarrow> bool" where
  "passes a \<longleftrightarrow> wanted_before a \<and> answer a \<in> {OpenFails, NoTrack}"

definition succeeds :: "trial \<Rightarrow> nat \<Rightarrow> bool" where
  "succeeds a t \<longleftrightarrow> wanted_before a \<and> answer a = Opened t \<and> wanted_after a"

lemma reopen_passes:
  "passes (env i) \<Longrightarrow> reopen env i (d # ds) = (let r = reopen env (i + 1) ds in r\<lparr>waits := d # waits r\<rparr>)"
  by (auto simp: passes_def)

lemma reopen_stops:
  "\<not> passes (env i) \<Longrightarrow>
     result (reopen env i (d # ds)) = Some t \<longleftrightarrow> succeeds (env i) t"
  by (auto simp: passes_def succeeds_def give_up_def Let_def split: attempt.split)

lemma reopen_result:
  "result (reopen env i ds) = Some t \<longleftrightarrow>
     (\<exists>n < length ds. (\<forall>m < n. passes (env (i + m))) \<and> succeeds (env (i + n)) t)"
proof (induction ds arbitrary: i)
  case (Cons d ds)
  show ?case
  proof (cases "passes (env i)")
    case True
    then have "\<not> succeeds (env i) t" by (auto simp: passes_def succeeds_def)
    have "result (reopen env i (d # ds)) = Some t \<longleftrightarrow> result (reopen env (i + 1) ds) = Some t"
      using reopen_passes [of env i d ds] True by (simp add: Let_def del: reopen.simps)
    also have "\<dots> \<longleftrightarrow> (\<exists>n < length ds. (\<forall>m < n. passes (env (i + Suc m))) \<and> succeeds (env (i + Suc n)) t)"
      using Cons.IH [of "i + 1"] by simp
    also have "\<dots> \<longleftrightarrow> (\<exists>n < length (d # ds). (\<forall>m < n. passes (env (i + m))) \<and> succeeds (env (i + n)) t)"
      (is "?l \<longleftrightarrow> ?r")
    proof
      assume ?l
      then obtain n where "n < length ds" "\<forall>m < n. passes (env (i + Suc m))" "succeeds (env (i + Suc n)) t" by blast
      moreover from this True have "\<forall>m < Suc n. passes (env (i + m))" by (simp add: All_less_Suc2)
      ultimately show ?r by (intro exI [of _ "Suc n"]) simp
    next
      assume ?r
      then obtain n where n: "n < length (d # ds)" "\<forall>m < n. passes (env (i + m))" "succeeds (env (i + n)) t" by blast
      then obtain k where "n = Suc k" using \<open>\<not> succeeds (env i) t\<close> by (cases n) auto
      then show ?l using n by (intro exI [of _ k]) auto
    qed
    finally show ?thesis .
  next
    case False
    then have "(\<exists>n < length (d # ds). (\<forall>m < n. passes (env (i + m))) \<and> succeeds (env (i + n)) t) \<longleftrightarrow> succeeds (env i) t"
      by (metis add.right_neutral length_greater_0_conv list.distinct(1) not_less_zero gr_zeroI)
    then show ?thesis using reopen_stops [of env i d ds t, OF False] by (simp del: reopen.simps)
  qed
qed (simp add: give_up_def)

lemma reopen_accounts:
  "opened (reopen env i ds) = stopped (reopen env i ds) @ (case result (reopen env i ds) of None \<Rightarrow> [] | Some t \<Rightarrow> [t]) \<and>
   (\<exists>k. waits (reopen env i ds) = take k ds)"
proof (induction ds arbitrary: i)
  case (Cons d ds)
  let ?r = "reopen env (i + 1) ds"
  obtain k where k: "waits ?r = take k ds" using Cons.IH by blast
  show ?case
  proof (cases "passes (env i)")
    case True
    have "waits (reopen env i (d # ds)) = take (Suc k) (d # ds)"
      using k reopen_passes [of env i d ds] True by (simp add: Let_def del: reopen.simps)
    moreover have "opened (reopen env i (d # ds)) = opened ?r" "stopped (reopen env i (d # ds)) = stopped ?r"
      "result (reopen env i (d # ds)) = result ?r"
      using reopen_passes [of env i d ds] True by (simp_all add: Let_def del: reopen.simps)
    ultimately show ?thesis using Cons.IH by (metis (no_types))
  next
    case False
    then have "waits (reopen env i (d # ds)) = take 1 (d # ds)"
      by (auto simp: passes_def give_up_def Let_def split: attempt.split)
    moreover have "opened (reopen env i (d # ds)) =
        stopped (reopen env i (d # ds)) @ (case result (reopen env i (d # ds)) of None \<Rightarrow> [] | Some t \<Rightarrow> [t])"
      using False by (auto simp: passes_def give_up_def Let_def split: attempt.split)
    ultimately show ?thesis by blast
  qed
qed (auto simp: give_up_def)

text \<open>C32: reopening a microphone ends after at most five pauses, ten and a third seconds in all; it
  returns a track exactly when an attempt opens one that is still wanted and all attempts before it
  were wanted and failed without a refusal; and every track it opened is either returned or stopped.\<close>

theorem microphone_reopened:
  "(result (reopen env 0 DELAYS) = Some t \<longleftrightarrow>
     (\<exists>n < 5. (\<forall>m < n. passes (env m)) \<and> succeeds (env n) t)) \<and>
   opened (reopen env 0 DELAYS) =
     stopped (reopen env 0 DELAYS) @ (case result (reopen env 0 DELAYS) of None \<Rightarrow> [] | Some t \<Rightarrow> [t]) \<and>
   length (waits (reopen env 0 DELAYS)) \<le> 5 \<and> sum_list (waits (reopen env 0 DELAYS)) \<le> 10300"
proof -
  have l: "length DELAYS = 5" by (simp add: DELAYS_def)
  obtain k where k: "waits (reopen env 0 DELAYS) = take k DELAYS" using reopen_accounts by blast
  have nonneg: "x \<in> set DELAYS \<Longrightarrow> 0 \<le> x" for x by (auto simp: DELAYS_def)
  have "sum_list (take k DELAYS) \<le> sum_list (take k DELAYS) + sum_list (drop k DELAYS)"
    using nonneg in_set_dropD [of _ k DELAYS] by (intro le_add_same_cancel1 [THEN iffD2] sum_list_nonneg) blast
  also have "\<dots> = sum_list DELAYS" by (metis append_take_drop_id sum_list_append)
  finally have "sum_list (take k DELAYS) \<le> 10300" by (simp add: DELAYS_def)
  moreover have "result (reopen env 0 DELAYS) = Some t \<longleftrightarrow> (\<exists>n < 5. (\<forall>m < n. passes (env m)) \<and> succeeds (env n) t)"
    using reopen_result [of env 0 DELAYS t] by (simp add: l)
  moreover have "length (take k DELAYS) \<le> 5" by (simp add: l)
  ultimately show ?thesis using reopen_accounts [of env 0 DELAYS] unfolding k by blast
qed

theorem microphone_reopened_witness:
  "let env = (\<lambda>i. if i = 1 then \<lparr>wanted_before = True, answer = Opened 7, wanted_after = True\<rparr>
                  else \<lparr>wanted_before = True, answer = OpenFails, wanted_after = True\<rparr>)
   in result (reopen env 0 DELAYS) = Some 7"
proof -
  let ?env = "\<lambda>i. if i = (1 :: nat) then \<lparr>wanted_before = True, answer = Opened 7, wanted_after = True\<rparr>
                  else \<lparr>wanted_before = True, answer = OpenFails, wanted_after = True\<rparr>"
  have "\<exists>n < 5. (\<forall>m < n. passes (?env m)) \<and> succeeds (?env n) 7"
    by (intro exI [of _ 1]) (simp add: passes_def succeeds_def)
  then show ?thesis using microphone_reopened [of ?env 7] unfolding Let_def by blast
qed

end
