(* ===== verification/Spec2Isabelle.thy ===== *)
theory Spec2Isabelle
  imports Chat PageE2eeProps ReconnectProps Onboarding BitrateProps Quality TurnFallback IceRecovery FileDelivery
    Client Away LoadGuard MicRecovery Password Remember
begin

text \<open>
  Sozvon is a video conferencing system: a server in Go that forwards media (a fork of Galene) and a
  web client in JavaScript, also shown by a desktop and an Android app. This library models the logic
  of the client, static/ and a part of onboarding/, and proves what makes it right.

  \<^bold>\<open>How the program hangs together.\<close> The page (galene.js) makes a \<open>ServerConnection\<close> (protocol.js): a
  session over web sockets that carries JSON messages, the streams being sent and received, and file
  transfers between users. A session whose socket dies is resumed over a new one
  (signalling-resume.js); when that fails the page reconnects and joins again. In a group with end-to-end
  encryption a controller (e2ee.js) runs a handshake with the one other participant, over messages that
  the server relays, and gives a worker (e2ee-worker.js) the keys it seals and opens media frames with
  (e2ee-crypto.js); chat goes through the controller too, and guests' names with it (guest-name.js).
  Beside that, small modules judge what WebRTC reports: the bitrate asked for (bitrate-control.js), the
  quality shown (connection-quality.js), when UDP is given up (turn-fallback.js), when a connection is
  restarted (ice-recovery.js), when a microphone is brought back (mic-recovery.js), whether an absence is
  announced (away.js). load-guard.js watches over the loading of the page, password-change.js changes
  a password.

  \<^bold>\<open>The theories.\<close> A component's definitions follow the source: a record per object, a function per
  method, the code after an \<open>await\<close> as a step of its own, errors as values.

  \<^item> Prelude: JavaScript values, strings of UTF-16 units, the \<open>Map\<close> object, the locale \<open>machine\<close>
    (a step and what it keeps) that the invariants of every component are instances of, and the locale
    \<open>stream_monitor\<close>.
  \<^item> Crypto (e2ee-crypto.js), Worker (e2ee-worker.js): frames, counters, base64, transcripts; sealing and
    opening. WebCrypto is the record \<open>webcrypto\<close>; where a result needs it, a hypothesis says that what
    was sealed opens and that what opens was sealed. No initialisation vector is used twice in the first
    \<open>2 ^ 48\<close> frames of a transform.
  \<^item> E2ee, E2eeSafety, E2eeSession (e2ee.js): the controller; that it never posts clear mode without the
    user's consent or where encryption is required; what an established session is made of and that its
    two ends agree. The locale \<open>untouched\<close> gathers what no method touches of two groups of fields.
  \<^item> Chat (e2ee.js, \<open>sendChat\<close> and \<open>decryptChat\<close>): both queues, numbers in order, no replay.
  \<^item> PageE2ee, PageE2eeProps (galene.js, e2eeStatus to enforceE2EEMediaPolicy, setUpStream and the ways to
    media, handleInput): a group that was seen to require encryption goes on requiring it, and what then may
    leave in clear; \<open>onstate\<close> is modelled by a counter of the controller.
  \<^item> Resume (signalling-resume.js), Signalling, SignallingProps (protocol.js: connect, send, close, resume,
    the ping timer, gotMessage): exactly-once delivery of the numbered messages, a single teardown, no
    stalled resumption.
  \<^item> Streams, StreamLaws, StreamProps, StreamServer (protocol.js: \<open>Stream\<close> and the stream messages):
    candidates complete and in order, no message about a published stream fails, the server's table is the
    client's. What an \<open>RTCPeerConnection\<close> answers comes as events that settle the promises a stream has made.
  \<^item> Client: a session and its streams as one \<open>ServerConnection\<close>; after a resumption the server has all
    that the streams ever said.
  \<^item> Reconnect, ReconnectProps (galene.js, scheduleReconnect to rejoinAfterReconnect, gotClose, gotJoined,
    serverConnect, hanging up): a wanted call never stalls, an outage ends, leaving is final. The
    connections are sessions of Signalling, and the page reacts to what they call back.
  \<^item> FileTransfer, FileTransferProps, FileDelivery (protocol.js: \<open>TransferredFile\<close>): the states of a
    transfer, and two ends over a channel: the file arrives whole or not at all, and completes.
  \<^item> GuestName (guest-name.js and its use in galene.js), Remember (galene.js: remembered tokens and what a
    rejoin is made with), Password (password-change.js).
  \<^item> Bitrate, BitrateProps (bitrate-control.js), Quality (connection-quality.js), TurnFallback
    (turn-fallback.js), IceRecovery (ice-recovery.js), MicRecovery (mic-recovery.js), Away (away.js), LoadGuard
    (load-guard.js): each as a function of what is reported to it, with bounds, spacing, and equivalence
    with a reading of the history.
  \<^item> Onboarding (onboarding/flow.js and minter.js): the order of the first-run screens, and the guest link
    made on a new server.

  \<^bold>\<open>Reading the theorems.\<close> A run is a \<open>foldl\<close> of a step over a list of events in any order: what the
  network, the server, the timers, the browser and the user may do. Invariants are kept by every step;
  the theorems are about every run. Bounds are the source's: a resumption lasts \<open>GIVE_UP_AFTER\<close> = 110
  seconds, a log keeps 512 messages, a page makes fifteen attempts to reconnect and a tab reloads itself
  twice. Nothing runs out of fuel: where a function takes a number of rounds (the delivery of a file, the
  walk over the screens) a theorem says how many are enough.

  \<^bold>\<open>Assumptions.\<close> Ids of users and groups are not empty and not names of \<open>Object.prototype\<close>. Numbers are
  exact rationals or integers except where a width matters (bytes, code units, counters). A closed peer
  connection settles no promise; a data channel is ordered and reliable; a socket is reported closed once and
  delivers only while it is open; Web Storage is there; the modules the page loads are loaded.
  The page's callbacks act through events of their own, after the step that made them.

  \<^bold>\<open>What it showed.\<close> Some theorems exhibit runs in which the code does not do what it means to. A
  screen, a played file, or a camera asked for before the requirement came, sent in clear in a group that
  requires encryption; a message typed while the page joins again, or between two encrypted calls, sent in
  clear (PageE2eeProps). A controller that says established, or required, while its worker forwards in clear
  (E2eeSession). Hanging up while the page waits to reconnect, which leaves the call on the screen for good;
  the late end of a replaced connection, which takes the new one down; leaving during a resumption, which does
  not leave (ReconnectProps, SignallingProps). A stream replaced before its offer is out, which the server goes
  on publishing (StreamServer). An empty file, whose transfer never completes (FileDelivery). An expired
  token that hides a good one (Remember).

  \<^bold>\<open>Not modelled.\<close> What draws: the rest of galene.js, settings.js, management.js, mainpage.js, stats.js,
  theme-init.js, i18n.js, change-password.js, filter.js and the blur worker, camera-diag.js, media-help.js, the
  screens of the onboarding and its parsing of addresses, which rests on the \<open>URL\<close> class. What glues:
  the Electron app and its installer, the Android app. What is not the client: the server in Go, the
  libraries under static/third-party, the tests.
\<close>

end
